(* ===== verification/Prelude.thy ===== *)
theory Prelude
  imports Main "HOL-Library.Word"
begin

text \<open>
  Shared vocabulary of the development: the machine types of the Rust sources
  (\<open>u8\<close> \dots \<open>u64\<close> as words), \<open>std::io::Error\<close> as a value, \<open>std::io::Result\<close> as a
  sum type, big-endian integer encoding as the \<open>bytes\<close> crate's \<open>put_u16\<close>, \<open>put_u32\<close>,
  \<open>get_u16\<close> and \<open>get_u32\<close> perform it, saturating arithmetic, numeric \<open>as\<close> casts,
  and the generic list and word lemmas that the component theories share.
\<close>

section \<open>Machine types\<close>

type_synonym byte = "8 word"
type_synonym u16 = "16 word"
type_synonym u32 = "32 word"
type_synonym u64 = "64 word"

text \<open>
  Lemma collections: \<open>be_simps\<close> for big-endian integers, \<open>codec_simps\<close> for encoders
  and decoders, \<open>inv_intros\<close> for the preservation of component invariants.
\<close>

named_theorems be_simps
named_theorems codec_simps
named_theorems inv_intros

section \<open>I/O errors and results\<close>

datatype error_kind =
    BrokenPipe
  | WouldBlock
  | UnexpectedEof
  | InvalidData
  | InvalidInput
  | TimedOut
  | OtherKind

datatype io_error = IoError (kind: error_kind) (message: string)

type_synonym 'a io_result = "io_error + 'a"

text \<open>\<open>std::io::Error::other\<close>.\<close>

definition error_other :: "string \<Rightarrow> io_error" where
  "error_other m = IoError OtherKind m"

lemma kind_error_other [simp]: "kind (error_other m) = OtherKind"
  by (simp add: error_other_def)

text \<open>The \<open>?\<close> operator on results.\<close>

definition res_bind :: "'e + 'a \<Rightarrow> ('a \<Rightarrow> 'e + 'b) \<Rightarrow> 'e + 'b" where
  "res_bind r f = (case r of Inl e \<Rightarrow> Inl e | Inr x \<Rightarrow> f x)"

lemma res_bind_simps [simp]:
  "res_bind (Inl e) f = Inl e"
  "res_bind (Inr x) f = f x"
  by (simp_all add: res_bind_def)

lemma res_bind_Inr_iff:
  "res_bind r f = Inr y \<longleftrightarrow> (\<exists>x. r = Inr x \<and> f x = Inr y)"
  by (cases r) simp_all

fun is_ok :: "'e + 'a \<Rightarrow> bool" where
  "is_ok (Inl _) = False"
| "is_ok (Inr _) = True"

lemma is_ok_iff: "is_ok r \<longleftrightarrow> (\<exists>x. r = Inr x)"
  by (cases r) simp_all

section \<open>Big-endian integers\<close>

text \<open>
  \<open>be_bytes k v\<close> are the \<open>k\<close> low-order bytes of \<open>v\<close>, most significant first;
  \<open>be_value\<close> reads such a run back.
\<close>

fun be_bytes :: "nat \<Rightarrow> nat \<Rightarrow> byte list" where
  "be_bytes 0 v = []"
| "be_bytes (Suc k) v = word_of_nat (v div 256 ^ k) # be_bytes k v"

fun be_value_acc :: "nat \<Rightarrow> byte list \<Rightarrow> nat" where
  "be_value_acc a [] = a"
| "be_value_acc a (b # bs) = be_value_acc (a * 256 + unat b) bs"

definition be_value :: "byte list \<Rightarrow> nat" where
  "be_value bs = be_value_acc 0 bs"

lemma length_be_bytes [simp, be_simps]: "length (be_bytes k v) = k"
  by (induction k) simp_all

lemma unat_byte_less: "unat (b :: byte) < 256"
  using unsigned_less [of b, where 'a = nat] by simp

lemma unat_u16_less: "unat (w :: u16) < 65536"
  using unsigned_less [of w, where 'a = nat] by simp

lemma unat_u32_less: "unat (w :: u32) < 4294967296"
  using unsigned_less [of w, where 'a = nat] by simp

lemma unat_u64_less: "unat (w :: u64) < 18446744073709551616"
  using unsigned_less [of w, where 'a = nat] by simp

lemma unat_word_of_nat_byte: "unat (word_of_nat n :: byte) = n mod 256"
  by (simp add: unat_of_nat)

lemma be_value_acc_add: "be_value_acc a bs = a * 256 ^ length bs + be_value_acc 0 bs"
proof (induction bs arbitrary: a)
  case Nil
  then show ?case by simp
next
  case (Cons b bs)
  have "be_value_acc a (b # bs) = (a * 256 + unat b) * 256 ^ length bs + be_value_acc 0 bs"
    using Cons.IH [of "a * 256 + unat b"] by simp
  moreover have "be_value_acc 0 (b # bs) = unat b * 256 ^ length bs + be_value_acc 0 bs"
    using Cons.IH [of "unat b"] by simp
  ultimately show ?case by (simp add: algebra_simps)
qed

lemma be_value_Nil [simp]: "be_value [] = 0"
  by (simp add: be_value_def)

lemma be_value_Cons: "be_value (b # bs) = unat b * 256 ^ length bs + be_value bs"
  using be_value_acc_add [of "unat b" bs] by (simp add: be_value_def)

lemma be_value_less: "be_value bs < 256 ^ length bs"
proof (induction bs)
  case Nil
  then show ?case by simp
next
  case (Cons b bs)
  have "unat b \<le> 255"
    using unat_byte_less [of b] by simp
  then have "unat b * 256 ^ length bs \<le> 255 * 256 ^ length bs"
    by (rule mult_le_mono1)
  moreover have "256 ^ length (b # bs) = 255 * 256 ^ length bs + (256 :: nat) ^ length bs"
    by simp
  ultimately show ?case
    using Cons.IH be_value_Cons [of b bs] by linarith
qed

lemma be_value_bytes [be_simps]: "be_value (be_bytes k v) = v mod 256 ^ k"
proof (induction k)
  case 0
  then show ?case by simp
next
  case (Suc k)
  have "v mod 256 ^ Suc k = 256 ^ k * (v div 256 ^ k mod 256) + v mod 256 ^ k"
    by (metis mod_mult2_eq mult.commute power_Suc)
  then show ?case
    by (simp add: be_value_Cons Suc unat_word_of_nat_byte mult.commute)
qed

lemma be_bytes_mod: "be_bytes k (v mod 256 ^ k) = be_bytes k v"
proof -
  have aux: "k \<le> m \<Longrightarrow> be_bytes k (v mod 256 ^ m) = be_bytes k v" for m
  proof (induction k)
    case 0
    then show ?case by simp
  next
    case (Suc k)
    have "(v mod 256 ^ m) div 256 ^ k mod 256 = v div 256 ^ k mod 256"
    proof -
      obtain d where d: "m = Suc k + d"
        using Suc.prems le_Suc_ex by blast
      have "v mod 256 ^ m = 256 ^ k * (v div 256 ^ k mod 256 ^ Suc d) + v mod 256 ^ k"
        using mod_mult2_eq [of v "256 ^ k" "256 ^ Suc d"] d
        by (simp add: power_add mult.commute mult.left_commute)
      then have "(v mod 256 ^ m) div 256 ^ k = v div 256 ^ k mod 256 ^ Suc d"
        by simp
      then show ?thesis
        by (simp add: mod_mod_cancel)
    qed
    then have "(word_of_nat ((v mod 256 ^ m) div 256 ^ k) :: byte) = word_of_nat (v div 256 ^ k)"
      by (metis unat_word_of_nat_byte word_unat_eq_iff)
    with Suc show ?case by simp
  qed
  show ?thesis by (rule aux) simp
qed

lemma be_bytes_add: "be_bytes k (256 ^ k * m + v) = be_bytes k v"
  using be_bytes_mod [of k "256 ^ k * m + v"] be_bytes_mod [of k v] by simp

lemma be_bytes_value: "be_bytes (length bs) (be_value bs) = bs"
proof (induction bs)
  case Nil
  then show ?case by simp
next
  case (Cons b bs)
  have "(unat b * 256 ^ length bs + be_value bs) div 256 ^ length bs = unat b"
    using be_value_less [of bs] by simp
  moreover have "be_bytes (length bs) (unat b * 256 ^ length bs + be_value bs) = bs"
    using be_bytes_add [of "length bs" "unat b" "be_value bs"] Cons.IH
    by (simp add: mult.commute)
  ultimately show ?case
    by (simp add: be_value_Cons)
qed

text \<open>\<open>put_u16\<close>/\<open>put_u32\<close> and \<open>get_u16\<close>/\<open>get_u32\<close> on byte runs of the right length.\<close>

definition put_u16 :: "u16 \<Rightarrow> byte list" where
  "put_u16 w = be_bytes 2 (unat w)"

definition put_u32 :: "u32 \<Rightarrow> byte list" where
  "put_u32 w = be_bytes 4 (unat w)"

definition get_u16 :: "byte list \<Rightarrow> u16" where
  "get_u16 bs = word_of_nat (be_value (take 2 bs))"

definition get_u32 :: "byte list \<Rightarrow> u32" where
  "get_u32 bs = word_of_nat (be_value (take 4 bs))"

text \<open>The same, written out for evaluation.\<close>

lemma put_u16_eval: "put_u16 w = [word_of_nat (unat w div 256), word_of_nat (unat w)]"
proof -
  have "be_bytes (Suc (Suc 0)) (unat w) =
      [word_of_nat (unat w div 256 ^ 1), word_of_nat (unat w div 256 ^ 0)]"
    by (simp only: be_bytes.simps One_nat_def)
  moreover have "(2 :: nat) = Suc (Suc 0)" by simp
  ultimately have "put_u16 w = [word_of_nat (unat w div 256 ^ 1), word_of_nat (unat w div 256 ^ 0)]"
    by (simp only: put_u16_def)
  then show ?thesis by simp
qed

lemma put_u32_eval:
  "put_u32 w = [word_of_nat (unat w div 16777216), word_of_nat (unat w div 65536),
     word_of_nat (unat w div 256), word_of_nat (unat w)]"
proof -
  have "be_bytes (Suc (Suc (Suc (Suc 0)))) (unat w) =
      [word_of_nat (unat w div 256 ^ 3), word_of_nat (unat w div 256 ^ 2),
       word_of_nat (unat w div 256 ^ 1), word_of_nat (unat w div 256 ^ 0)]"
    by (simp only: be_bytes.simps One_nat_def numeral_2_eq_2 numeral_3_eq_3)
  moreover have "(4 :: nat) = Suc (Suc (Suc (Suc 0)))" by simp
  ultimately have "put_u32 w =
      [word_of_nat (unat w div 256 ^ 3), word_of_nat (unat w div 256 ^ 2),
       word_of_nat (unat w div 256 ^ 1), word_of_nat (unat w div 256 ^ 0)]"
    by (simp only: put_u32_def)
  then show ?thesis by simp
qed

lemma length_put_u16 [simp]: "length (put_u16 w) = 2"
  by (simp add: put_u16_def)

lemma length_put_u32 [simp]: "length (put_u32 w) = 4"
  by (simp add: put_u32_def)

lemma get_put_u16 [simp, be_simps]: "get_u16 (put_u16 w @ bs) = w"
proof -
  have "unat w < 256 ^ 2" using unat_u16_less [of w] by simp
  then show ?thesis by (simp add: get_u16_def put_u16_def be_value_bytes)
qed

lemma get_put_u32 [simp, be_simps]: "get_u32 (put_u32 w @ bs) = w"
proof -
  have "unat w < 256 ^ 4" using unat_u32_less [of w] by simp
  then show ?thesis by (simp add: get_u32_def put_u32_def be_value_bytes)
qed

lemma put_get_u16: "2 \<le> length bs \<Longrightarrow> put_u16 (get_u16 bs) = take 2 bs"
  using be_bytes_value [of "take 2 bs"] be_value_less [of "take 2 bs"]
  by (simp add: put_u16_def get_u16_def unat_of_nat)

lemma put_get_u32: "4 \<le> length bs \<Longrightarrow> put_u32 (get_u32 bs) = take 4 bs"
  using be_bytes_value [of "take 4 bs"] be_value_less [of "take 4 bs"]
  by (simp add: put_u32_def get_u32_def unat_of_nat)

section \<open>Casts and saturating arithmetic\<close>

text \<open>\<open>x as i32\<close> of an \<open>i64\<close> keeps the low 32 bits as a two's complement value.\<close>

definition as_i32 :: "int \<Rightarrow> int" where
  "as_i32 x = sint (word_of_int x :: u32)"

lemma as_i32_id: "- (2 ^ 31) \<le> x \<Longrightarrow> x < 2 ^ 31 \<Longrightarrow> as_i32 x = x"
  by (simp add: as_i32_def signed_of_int signed_take_bit_int_eq_self)

definition saturating_add :: "u64 \<Rightarrow> u64 \<Rightarrow> u64" where
  "saturating_add a b = (if unat a + unat b < 2 ^ 64 then a + b else - 1)"

definition saturating_sub :: "u64 \<Rightarrow> u64 \<Rightarrow> u64" where
  "saturating_sub a b = (if a \<le> b then 0 else a - b)"

lemma unat_saturating_add: "unat (saturating_add a b) = min (unat a + unat b) (2 ^ 64 - 1)"
proof -
  have "unat (- 1 :: u64) = 2 ^ 64 - 1" by (simp add: unsigned_minus_1_eq_mask mask_eq_exp_minus_1)
  then show ?thesis by (simp add: saturating_add_def unat_word_ariths)
qed

lemma unat_saturating_sub: "unat (saturating_sub a b) = unat a - unat b"
  by (auto simp: saturating_sub_def word_le_nat_alt unat_sub_if_size)

section \<open>Lists\<close>

lemma take_append_length [simp]: "n = length xs \<Longrightarrow> take n (xs @ ys) = xs"
  by simp

lemma drop_append_length [simp]: "n = length xs \<Longrightarrow> drop n (xs @ ys) = ys"
  by simp

end
