(* ===== verification/Rust_Std.thy ===== *)
theory Rust_Std
  imports Prelude
begin

text \<open>
  The parts of Rust's standard library that the sources use on text: UTF-8 checking
  (\<open>str::from_utf8\<close>) and lossy decoding (\<open>String::from_utf8_lossy\<close>), \<open>str::lines\<close>,
  \<open>str::split\<close>, \<open>str::split_once\<close>, integer \<open>parse\<close> and \<open>to_string\<close>. A Rust string is its UTF-8 bytes, so a \<open>string\<close> here holds
  one \<open>char\<close> per byte.
\<close>

section \<open>Bytes and characters\<close>

definition byte_of_char :: "char \<Rightarrow> byte" where
  "byte_of_char c = word_of_nat (of_char c)"

definition char_of_byte :: "byte \<Rightarrow> char" where
  "char_of_byte b = char_of (unat b)"

definition as_bytes :: "string \<Rightarrow> byte list" where
  "as_bytes s = map byte_of_char s"

definition of_bytes :: "byte list \<Rightarrow> string" where
  "of_bytes bs = map char_of_byte bs"

lemma char_of_byte_of_char [simp]: "char_of_byte (byte_of_char c) = c"
  by (simp add: char_of_byte_def byte_of_char_def unat_of_nat)

lemma byte_of_char_of_byte [simp]: "byte_of_char (char_of_byte b) = b"
  using unat_byte_less [of b] by (simp add: char_of_byte_def byte_of_char_def)

lemma byte_of_char_inject [simp]: "byte_of_char c = byte_of_char d \<longleftrightarrow> c = d"
  by (metis char_of_byte_of_char)

lemma of_bytes_as_bytes [simp]: "of_bytes (as_bytes s) = s"
  by (simp add: of_bytes_def as_bytes_def comp_def)

lemma as_bytes_of_bytes [simp]: "as_bytes (of_bytes bs) = bs"
  by (simp add: of_bytes_def as_bytes_def comp_def)

lemma as_bytes_append [simp]: "as_bytes (s @ t) = as_bytes s @ as_bytes t"
  by (simp add: as_bytes_def)

lemma length_as_bytes [simp]: "length (as_bytes s) = length s"
  by (simp add: as_bytes_def)

lemma length_of_bytes [simp]: "length (of_bytes s) = length s"
  by (simp add: of_bytes_def)

lemma as_bytes_eq_Nil [simp]: "as_bytes s = [] \<longleftrightarrow> s = []"
  by (simp add: as_bytes_def)

section \<open>UTF-8\<close>

text \<open>
  \<open>utf8_tail b bs\<close> examines the bytes \<open>bs\<close> that follow a lead byte \<open>b\<close>: it returns
  whether a well-formed character starts at \<open>b\<close> and how many further bytes belong to
  the character, or to the maximal ill-formed prefix that \<open>from_utf8_lossy\<close> replaces as
  one unit. A missing byte counts as \<open>0\<close>, which no test accepts.
\<close>

definition is_cont :: "byte \<Rightarrow> bool" where
  "is_cont b \<longleftrightarrow> 0x80 \<le> b \<and> b \<le> 0xBF"

definition byte_at :: "byte list \<Rightarrow> nat \<Rightarrow> byte" where
  "byte_at bs i = (if i < length bs then bs ! i else 0)"

definition second_ok3 :: "byte \<Rightarrow> byte \<Rightarrow> bool" where
  "second_ok3 b c \<longleftrightarrow>
     (if b = 0xE0 then 0xA0 \<le> c \<and> c \<le> 0xBF
      else if b = 0xED then 0x80 \<le> c \<and> c \<le> 0x9F
      else is_cont c)"

definition second_ok4 :: "byte \<Rightarrow> byte \<Rightarrow> bool" where
  "second_ok4 b c \<longleftrightarrow>
     (if b = 0xF0 then 0x90 \<le> c \<and> c \<le> 0xBF
      else if b = 0xF4 then 0x80 \<le> c \<and> c \<le> 0x8F
      else is_cont c)"

definition utf8_tail :: "byte \<Rightarrow> byte list \<Rightarrow> bool \<times> nat" where
  "utf8_tail b bs =
     (if b < 0x80 then (True, 0)
      else if 0xC2 \<le> b \<and> b \<le> 0xDF then
        (if is_cont (byte_at bs 0) then (True, 1) else (False, 0))
      else if 0xE0 \<le> b \<and> b \<le> 0xEF then
        (if \<not> second_ok3 b (byte_at bs 0) then (False, 0)
         else if is_cont (byte_at bs 1) then (True, 2) else (False, 1))
      else if 0xF0 \<le> b \<and> b \<le> 0xF4 then
        (if \<not> second_ok4 b (byte_at bs 0) then (False, 0)
         else if \<not> is_cont (byte_at bs 1) then (False, 1)
         else if is_cont (byte_at bs 2) then (True, 3) else (False, 2))
      else (False, 0))"

fun utf8_valid :: "byte list \<Rightarrow> bool" where
  "utf8_valid [] = True"
| "utf8_valid (b # bs) =
     (case utf8_tail b bs of (ok, k) \<Rightarrow> ok \<and> utf8_valid (drop k bs))"

text \<open>\<open>str::from_utf8\<close>.\<close>

definition from_utf8 :: "byte list \<Rightarrow> string option" where
  "from_utf8 bs = (if utf8_valid bs then Some (of_bytes bs) else None)"

fun utf8_lossy :: "byte list \<Rightarrow> byte list" where
  "utf8_lossy [] = []"
| "utf8_lossy (b # bs) =
     (case utf8_tail b bs of (ok, k) \<Rightarrow>
        (if ok then b # take k bs else [0xEF, 0xBF, 0xBD]) @ utf8_lossy (drop k bs))"

text \<open>\<open>String::from_utf8_lossy\<close>.\<close>

definition from_utf8_lossy :: "byte list \<Rightarrow> string" where
  "from_utf8_lossy bs = of_bytes (utf8_lossy bs)"

lemma utf8_lossy_valid: "utf8_valid bs \<Longrightarrow> utf8_lossy bs = bs"
  by (induction bs rule: utf8_valid.induct) (auto split: prod.splits)

lemma from_utf8_lossy_valid: "utf8_valid (as_bytes s) \<Longrightarrow> from_utf8_lossy (as_bytes s) = s"
  by (simp add: from_utf8_lossy_def utf8_lossy_valid)

definition is_ascii :: "string \<Rightarrow> bool" where
  "is_ascii s \<longleftrightarrow> list_all (\<lambda>c. (of_char c :: nat) < 128) s"

lemma is_ascii_simps [simp]:
  "is_ascii []"
  "is_ascii (c # s) \<longleftrightarrow> (of_char c :: nat) < 128 \<and> is_ascii s"
  "is_ascii (s @ t) \<longleftrightarrow> is_ascii s \<and> is_ascii t"
  by (simp_all add: is_ascii_def)

lemma utf8_valid_ascii: "is_ascii s \<Longrightarrow> utf8_valid (as_bytes s)"
proof (induction s)
  case Nil
  then show ?case by (simp add: as_bytes_def)
next
  case (Cons c s)
  then have "byte_of_char c < 0x80"
    by (simp add: word_less_nat_alt byte_of_char_def unat_of_nat)
  with Cons show ?case by (simp add: as_bytes_def utf8_tail_def)
qed

lemma from_utf8_lossy_ascii: "is_ascii s \<Longrightarrow> from_utf8_lossy (as_bytes s) = s"
  by (simp add: from_utf8_lossy_valid utf8_valid_ascii)

section \<open>Splitting\<close>

definition newline :: char where "newline = CHR 0x0A"
definition carriage :: char where "carriage = CHR 0x0D"

text \<open>\<open>str::split_once\<close> on a character.\<close>

fun split_once :: "char \<Rightarrow> string \<Rightarrow> (string \<times> string) option" where
  "split_once c [] = None"
| "split_once c (x # xs) =
     (if x = c then Some ([], xs)
      else map_option (\<lambda>(a, b). (x # a, b)) (split_once c xs))"

text \<open>\<open>str::split\<close> on a character: always at least one piece.\<close>

fun split_on :: "char \<Rightarrow> string \<Rightarrow> string list" where
  "split_on c [] = [[]]"
| "split_on c (x # xs) =
     (if x = c then [] # split_on c xs
      else (case split_on c xs of [] \<Rightarrow> [[x]] | p # ps \<Rightarrow> (x # p) # ps))"

text \<open>
  \<open>str::lines\<close>: lines end at \<open>\n\<close>, which is removed together with one \<open>\r\<close> before it;
  the last line needs no terminator (and keeps a final \<open>\r\<close>), and nothing follows a final
  \<open>\n\<close>.
\<close>

definition strip_cr :: "string \<Rightarrow> string" where
  "strip_cr s = (if s \<noteq> [] \<and> last s = carriage then butlast s else s)"

fun lines_acc :: "string \<Rightarrow> string \<Rightarrow> string list" where
  "lines_acc acc [] = (if acc = [] then [] else [rev acc])"
| "lines_acc acc (c # cs) =
     (if c = newline then strip_cr (rev acc) # lines_acc [] cs else lines_acc (c # acc) cs)"

definition str_lines :: "string \<Rightarrow> string list" where
  "str_lines s = lines_acc [] s"

text \<open>\<open>[String]::join\<close>.\<close>

fun str_join :: "string \<Rightarrow> string list \<Rightarrow> string" where
  "str_join sep [] = []"
| "str_join sep [x] = x"
| "str_join sep (x # y # ys) = x @ sep @ str_join sep (y # ys)"

lemma split_once_append [simp]: "c \<notin> set a \<Longrightarrow> split_once c (a @ c # b) = Some (a, b)"
  by (induction a) auto

lemma split_once_SomeD: "split_once c s = Some (a, b) \<Longrightarrow> s = a @ c # b \<and> c \<notin> set a"
proof (induction s arbitrary: a)
  case Nil
  then show ?case by simp
next
  case (Cons x s)
  show ?case
  proof (cases "x = c")
    case True
    with Cons.prems show ?thesis by simp
  next
    case False
    with Cons.prems obtain a' where "a = x # a'" "split_once c s = Some (a', b)"
      by auto
    with Cons.IH [of a'] False show ?thesis by simp
  qed
qed

lemma split_once_None: "split_once c s = None \<longleftrightarrow> c \<notin> set s"
  by (induction s) auto

lemma split_on_nonempty [simp]: "split_on c s \<noteq> []"
  by (induction s) (auto split: list.splits)

lemma lines_acc_block:
  "newline \<notin> set l \<Longrightarrow>
   lines_acc acc (l @ newline # rest) = strip_cr (rev acc @ l) # lines_acc [] rest"
  by (induction l arbitrary: acc) auto

lemma lines_acc_last:
  "newline \<notin> set l \<Longrightarrow> lines_acc acc l = (if acc = [] \<and> l = [] then [] else [rev acc @ l])"
  by (induction l arbitrary: acc) auto

text \<open>A text line: no line feed, no final carriage return.\<close>

definition text_line :: "string \<Rightarrow> bool" where
  "text_line l \<longleftrightarrow> newline \<notin> set l \<and> strip_cr l = l"

lemma str_lines_join:
  assumes "list_all (\<lambda>l. text_line l \<and> l \<noteq> []) ls"
  shows "str_lines (str_join [newline] ls) = ls"
  using assms
proof (induction ls)
  case Nil
  then show ?case by (simp add: str_lines_def)
next
  case (Cons l ls)
  then have l: "text_line l" "l \<noteq> []" and IH: "str_lines (str_join [newline] ls) = ls"
    by simp_all
  show ?case
  proof (cases ls)
    case Nil
    with l show ?thesis by (simp add: str_lines_def text_line_def lines_acc_last)
  next
    case (Cons m ms)
    with l IH show ?thesis by (simp add: str_lines_def text_line_def lines_acc_block)
  qed
qed

section \<open>Integers as text\<close>

definition digit_val :: "char \<Rightarrow> nat option" where
  "digit_val c =
     (let n = (of_char c :: nat) in if 48 \<le> n \<and> n \<le> 57 then Some (n - 48) else None)"

fun digits_val :: "nat \<Rightarrow> string \<Rightarrow> nat option" where
  "digits_val a [] = Some a"
| "digits_val a (c # cs) =
     (case digit_val c of None \<Rightarrow> None | Some d \<Rightarrow> digits_val (a * 10 + d) cs)"

definition parse_nat :: "string \<Rightarrow> nat option" where
  "parse_nat s = (if s = [] then None else digits_val 0 s)"

text \<open>
  \<open>parse\<close> of an unsigned type with largest value \<open>m\<close>: an optional \<open>+\<close>, then at least
  one digit, and the value in range.
\<close>

definition parse_unsigned :: "nat \<Rightarrow> string \<Rightarrow> nat option" where
  "parse_unsigned m s =
     (let t = (case s of [] \<Rightarrow> [] | c # cs \<Rightarrow> if c = CHR ''+'' then cs else s)
      in case parse_nat t of None \<Rightarrow> None | Some n \<Rightarrow> if n \<le> m then Some n else None)"

definition parse_u8 :: "string \<Rightarrow> byte option" where
  "parse_u8 s = map_option word_of_nat (parse_unsigned 255 s)"

definition parse_u16 :: "string \<Rightarrow> u16 option" where
  "parse_u16 s = map_option word_of_nat (parse_unsigned 65535 s)"

definition parse_u32 :: "string \<Rightarrow> u32 option" where
  "parse_u32 s = map_option word_of_nat (parse_unsigned 4294967295 s)"

text \<open>\<open>parse::<i64>\<close>: an optional sign, then at least one digit, and the value in range.\<close>

definition parse_i64 :: "string \<Rightarrow> int option" where
  "parse_i64 s =
     (case s of [] \<Rightarrow> None
      | c # cs \<Rightarrow>
        (if c = CHR ''-'' then
           (case parse_nat cs of None \<Rightarrow> None
            | Some n \<Rightarrow> if n \<le> 2 ^ 63 then Some (- int n) else None)
         else
           (case parse_nat (if c = CHR ''+'' then cs else s) of None \<Rightarrow> None
            | Some n \<Rightarrow> if n < 2 ^ 63 then Some (int n) else None)))"

text \<open>\<open>to_string\<close> of an unsigned integer.\<close>

definition digit_char :: "nat \<Rightarrow> char" where
  "digit_char d = char_of (48 + d)"

fun show_nat :: "nat \<Rightarrow> string" where
  "show_nat n = (if n < 10 then [digit_char n] else show_nat (n div 10) @ [digit_char (n mod 10)])"

declare show_nat.simps [simp del]

lemma digit_val_char: "d < 10 \<Longrightarrow> digit_val (digit_char d) = Some d"
  by (simp add: digit_val_def digit_char_def)

lemma of_char_digit_char: "d < 10 \<Longrightarrow> (of_char (digit_char d) :: nat) = 48 + d"
  by (simp add: digit_char_def)

lemma digits_val_append:
  "digits_val a (s @ t) = (case digits_val a s of None \<Rightarrow> None | Some b \<Rightarrow> digits_val b t)"
  by (induction s arbitrary: a) (auto split: option.splits)

lemma show_nat_nonempty [simp]: "show_nat n \<noteq> []"
  by (subst show_nat.simps) simp

lemma digits_val_show_nat: "digits_val 0 (show_nat n) = Some n"
proof (induction n rule: show_nat.induct)
  case (1 n)
  show ?case
  proof (cases "n < 10")
    case True
    then show ?thesis by (subst show_nat.simps) (simp add: digit_val_char)
  next
    case False
    with "1.IH" have "digits_val 0 (show_nat (n div 10)) = Some (n div 10)" by simp
    with False show ?thesis
      by (subst show_nat.simps) (simp add: digits_val_append digit_val_char)
  qed
qed

lemma show_nat_chars: "c \<in> set (show_nat n) \<Longrightarrow> \<exists>d < 10. c = digit_char d"
proof (induction n rule: show_nat.induct)
  case (1 n)
  show ?case
  proof (cases "n < 10")
    case True
    with "1.prems" show ?thesis by (auto simp: show_nat.simps [of n])
  next
    case False
    with "1.prems" have "c \<in> set (show_nat (n div 10)) \<or> c = digit_char (n mod 10)"
      by (auto simp: show_nat.simps [of n])
    with "1.IH" False show ?thesis by force
  qed
qed

lemma show_nat_char_range: "c \<in> set (show_nat n) \<Longrightarrow> 48 \<le> (of_char c :: nat) \<and> (of_char c :: nat) \<le> 57"
  using show_nat_chars [of c n] by (auto simp: of_char_digit_char)

lemma show_nat_plain:
  "newline \<notin> set (show_nat n)" "carriage \<notin> set (show_nat n)" "CHR ''='' \<notin> set (show_nat n)"
  "CHR ''+'' \<notin> set (show_nat n)" "CHR ''-'' \<notin> set (show_nat n)"
  using show_nat_char_range [of newline n] show_nat_char_range [of carriage n]
    show_nat_char_range [of "CHR ''=''" n] show_nat_char_range [of "CHR ''+''" n]
    show_nat_char_range [of "CHR ''-''" n]
  by (auto simp: newline_def carriage_def)

lemma is_ascii_show_nat [simp]: "is_ascii (show_nat n)"
  unfolding is_ascii_def list_all_iff using show_nat_char_range [of _ n] by force

lemma parse_unsigned_show_nat: "n \<le> m \<Longrightarrow> parse_unsigned m (show_nat n) = Some n"
proof -
  assume "n \<le> m"
  obtain c cs where s: "show_nat n = c # cs" by (cases "show_nat n") auto
  then have "c \<noteq> CHR ''+''" using show_nat_plain(4) [of n] by auto
  with s \<open>n \<le> m\<close> digits_val_show_nat [of n] show ?thesis
    by (simp add: parse_unsigned_def parse_nat_def)
qed

definition show_u8 :: "byte \<Rightarrow> string" where "show_u8 w = show_nat (unat w)"
definition show_u32 :: "u32 \<Rightarrow> string" where "show_u32 w = show_nat (unat w)"

lemma parse_u8_show [simp]: "parse_u8 (show_u8 w) = Some w"
  using unat_byte_less [of w] by (simp add: parse_u8_def show_u8_def parse_unsigned_show_nat)

lemma parse_u32_show [simp]: "parse_u32 (show_u32 w) = Some w"
  using unat_u32_less [of w] by (simp add: parse_u32_def show_u32_def parse_unsigned_show_nat)

end
