(* ===== verification/String_Map.thy ===== *)
theory String_Map
  imports Rust_Std "HOL-Library.AList" "HOL-Library.Multiset"
begin

text \<open>
  \<open>src/src/core/string_map.rs\<close>: the \<open>key=value\<close> text that settings frames and padding
  schemes are written in. A \<open>HashMap<String, String>\<close> is an association list with one
  entry per key. The order in which a \<open>HashMap\<close> iterates is not specified, so the printer
  takes it as an argument \<open>ord\<close>, of which theorems assume only \<^emph>\<open>iteration_order ord\<close>.
\<close>

type_synonym stringmap = "(string \<times> string) list"

definition iteration_order :: "(stringmap \<Rightarrow> stringmap) \<Rightarrow> bool" where
  "iteration_order ord \<longleftrightarrow> (\<forall>m. mset (ord m) = mset m)"

lemma iteration_order_id: "iteration_order id"
  by (simp add: iteration_order_def)

lemma iteration_order_set: "iteration_order ord \<Longrightarrow> set (ord m) = set m"
  by (metis iteration_order_def mset_eq_setD)

lemma iteration_order_keys:
  "iteration_order ord \<Longrightarrow> distinct (map fst (ord m)) \<longleftrightarrow> distinct (map fst m)"
  by (metis iteration_order_def mset_eq_imp_distinct_iff mset_map)

lemma iteration_order_map_of:
  "iteration_order ord \<Longrightarrow> distinct (map fst m) \<Longrightarrow> map_of (ord m) = map_of m"
  by (simp add: map_of_inject_set iteration_order_set iteration_order_keys)

definition sm_entry :: "string \<times> string \<Rightarrow> string" where
  "sm_entry kv = fst kv @ ''='' @ snd kv"

definition sm_to_bytes :: "(stringmap \<Rightarrow> stringmap) \<Rightarrow> stringmap \<Rightarrow> byte list" where
  "sm_to_bytes ord m = as_bytes (str_join [newline] (map sm_entry (ord m)))"

fun sm_insert_lines :: "string list \<Rightarrow> stringmap \<Rightarrow> stringmap" where
  "sm_insert_lines [] m = m"
| "sm_insert_lines (l # ls) m =
     sm_insert_lines ls
       (case split_once (CHR ''='') l of None \<Rightarrow> m | Some (k, v) \<Rightarrow> AList.update k v m)"

definition sm_from_bytes :: "byte list \<Rightarrow> stringmap" where
  "sm_from_bytes bs = sm_insert_lines (str_lines (from_utf8_lossy bs)) []"

definition sm_get :: "stringmap \<Rightarrow> string \<Rightarrow> string option" where
  "sm_get m k = map_of m k"

section \<open>Well-formedness and the round trip\<close>

text \<open>A parsed map has one entry per key.\<close>

lemma distinct_sm_insert_lines:
  "distinct (map fst m) \<Longrightarrow> distinct (map fst (sm_insert_lines ls m))"
  by (induction ls m rule: sm_insert_lines.induct)
    (auto split: option.splits simp: distinct_update)

lemma distinct_sm_from_bytes: "distinct (map fst (sm_from_bytes bs))"
  by (simp add: sm_from_bytes_def distinct_sm_insert_lines)

text \<open>
  Entries that survive printing: no line feed, no \<open>=\<close> in the key, no final carriage return
  (which \<open>lines\<close> would take for part of the line end), and well-formed UTF-8.
\<close>

definition entry_ok :: "string \<times> string \<Rightarrow> bool" where
  "entry_ok kv \<longleftrightarrow>
     CHR ''='' \<notin> set (fst kv) \<and> text_line (sm_entry kv) \<and> utf8_valid (as_bytes (sm_entry kv))"

lemma sm_entry_nonempty [simp]: "sm_entry kv \<noteq> []"
  by (simp add: sm_entry_def)

lemma split_once_sm_entry:
  "entry_ok kv \<Longrightarrow> split_once (CHR ''='') (sm_entry kv) = Some kv"
  by (simp add: entry_ok_def sm_entry_def)

lemma sm_insert_entries:
  "list_all entry_ok es \<Longrightarrow>
   map_of (sm_insert_lines (map sm_entry es) m) = map_of m ++ map_of (rev es)"
proof (induction es arbitrary: m)
  case Nil
  then show ?case by simp
next
  case (Cons e es)
  then have "sm_insert_lines (map sm_entry (e # es)) m
      = sm_insert_lines (map sm_entry es) (AList.update (fst e) (snd e) m)"
    by (simp add: split_once_sm_entry split: prod.splits)
  moreover have "map_of (sm_insert_lines (map sm_entry es) (AList.update (fst e) (snd e) m))
      = map_of (AList.update (fst e) (snd e) m) ++ map_of (rev es)"
    using Cons by simp
  ultimately show ?case
    by (simp add: update_conv' map_add_upd_left fun_eq_iff map_add_def split: option.splits)
qed

lemma utf8_tail_append:
  assumes "utf8_tail b bs = (True, k)"
  shows "k \<le> length bs" "utf8_tail b (bs @ cs) = (True, k)"
proof -
  have at: "byte_at bs i \<noteq> 0 \<Longrightarrow> i < length bs \<and> byte_at (bs @ cs) i = byte_at bs i" for i
    by (auto simp: byte_at_def nth_append split: if_splits)
  have nz: "is_cont c \<Longrightarrow> c \<noteq> 0" "second_ok3 b c \<Longrightarrow> c \<noteq> 0" "second_ok4 b c \<Longrightarrow> c \<noteq> 0" for b c
    by (auto simp: is_cont_def second_ok3_def second_ok4_def split: if_splits)
  note facts = at [of 0] at [of 1] at [of 2] nz(1) [of "byte_at bs 0"] nz(1) [of "byte_at bs 1"]
    nz(1) [of "byte_at bs 2"] nz(2) [of b "byte_at bs 0"] nz(3) [of b "byte_at bs 0"]
  show "k \<le> length bs" "utf8_tail b (bs @ cs) = (True, k)"
    using assms facts unfolding utf8_tail_def by (auto simp: Suc_le_eq split: if_splits)
qed

lemma utf8_valid_append: "utf8_valid xs \<Longrightarrow> utf8_valid ys \<Longrightarrow> utf8_valid (xs @ ys)"
proof (induction xs rule: utf8_valid.induct)
  case 1
  then show ?case by simp
next
  case (2 b bs)
  from "2.prems" obtain k where k: "utf8_tail b bs = (True, k)" "utf8_valid (drop k bs)"
    by (auto split: prod.splits)
  with "2.IH" "2.prems" have "utf8_valid (drop k bs @ ys)" by force
  with k utf8_tail_append(1) [OF k(1)] utf8_tail_append(2) [OF k(1), of ys] show ?case by simp
qed

lemma utf8_valid_join:
  "list_all (\<lambda>l. utf8_valid (as_bytes l)) ls \<Longrightarrow> utf8_valid (as_bytes (str_join [newline] ls))"
proof (induction ls)
  case Nil
  then show ?case by (simp add: as_bytes_def)
next
  case (Cons l ls)
  have nl: "utf8_valid (as_bytes [newline])"
    by (rule utf8_valid_ascii) (simp add: newline_def)
  show ?case
  proof (cases ls)
    case Nil
    with Cons show ?thesis by simp
  next
    case (Cons m ms)
    with Cons.prems Cons.IH have "utf8_valid (as_bytes l)"
      and "utf8_valid (as_bytes (str_join [newline] ls))" by simp_all
    then have "utf8_valid (as_bytes l @ as_bytes [newline] @ as_bytes (str_join [newline] ls))"
      using nl by (blast intro: utf8_valid_append)
    with Cons show ?thesis by (simp add: as_bytes_def)
  qed
qed

lemma sm_get_from_to:
  assumes "iteration_order ord" "distinct (map fst m)" "list_all entry_ok m"
  shows "sm_get (sm_from_bytes (sm_to_bytes ord m)) = sm_get m"
proof -
  from assms(1,3) have ok: "list_all entry_ok (ord m)"
    by (simp add: list_all_iff iteration_order_set)
  then have lines: "list_all (\<lambda>l. text_line l \<and> l \<noteq> []) (map sm_entry (ord m))"
    by (auto simp: list_all_iff entry_ok_def)
  from ok have "list_all (\<lambda>l. utf8_valid (as_bytes l)) (map sm_entry (ord m))"
    by (auto simp: list_all_iff entry_ok_def)
  then have "from_utf8_lossy (sm_to_bytes ord m) = str_join [newline] (map sm_entry (ord m))"
    by (simp add: sm_to_bytes_def from_utf8_lossy_valid utf8_valid_join)
  then have "map_of (sm_from_bytes (sm_to_bytes ord m)) = map_of (rev (ord m))"
    using sm_insert_entries [OF ok, of "[]"] str_lines_join [OF lines]
    by (simp add: sm_from_bytes_def)
  also have "\<dots> = map_of m"
    using assms(1,2) iteration_order_keys [OF assms(1), of m]
    by (simp add: map_of_inject_set iteration_order_set rev_map [symmetric])
  finally show ?thesis by (simp add: sm_get_def fun_eq_iff)
qed

text \<open>
  C13. Settings survive the wire. Printing a map in any iteration order and reading the bytes
  back gives every key the value it had, for entries without line feeds, with no \<open>=\<close> in the
  key and no carriage return at the end.
\<close>

theorem sm_roundtrip:
  assumes "iteration_order ord" "distinct (map fst m)" "list_all entry_ok m"
  shows "sm_get (sm_from_bytes (sm_to_bytes ord m)) = sm_get m"
  using assms by (rule sm_get_from_to)

lemma sample_entries_ok: "list_all entry_ok [(''v'', ''2''), (''client'', ''a=b'')]"
  by code_simp

theorem sm_roundtrip_witness:
  "sm_get (sm_from_bytes (sm_to_bytes rev [(''v'', ''2''), (''client'', ''a=b'')])) ''client'' = Some ''a=b''"
proof -
  have "iteration_order rev" by (simp add: iteration_order_def)
  then show ?thesis
    using sm_roundtrip [OF _ _ sample_entries_ok, of rev] by (simp add: sm_get_def)
qed

end
