(* ===== verification/Padding.thy ===== *)
theory Padding
  imports String_Map
begin

text \<open>
  \<open>src/src/core/padding.rs\<close> and \<open>src/src/runtime/padding.rs\<close>: padding schemes, the record
  sizes they prescribe for each packet, and the process-wide default scheme.

  Two things come from other crates and are arguments here: \<open>md5\<close> (the lowercase hex digest
  of a byte string, \<open>md5::compute\<close>) and \<open>rng\<close>, where \<open>rng i lo hi\<close> is the value that
  the \<open>i\<close>-th entry of a packet's size list draws from \<open>rng.random_range(lo..=hi)\<close>.
\<close>

definition CHECK_MARK :: int where
  "CHECK_MARK = - 1"

definition DEFAULT_PADDING_SCHEME :: string where
  "DEFAULT_PADDING_SCHEME =
     ''stop=8'' @ [newline] @
     ''0=30-30'' @ [newline] @
     ''1=100-400'' @ [newline] @
     ''2=400-500,c,500-1000,c,500-1000,c,500-1000,c,500-1000'' @ [newline] @
     ''3=9-9,500-1000'' @ [newline] @
     ''4=500-1000'' @ [newline] @
     ''5=500-1000'' @ [newline] @
     ''6=500-1000'' @ [newline] @
     ''7=500-1000''"

record padding_factory =
  pf_scheme :: stringmap
  pf_raw_scheme :: "byte list"
  pf_stop :: u32
  pf_md5 :: string

type_synonym hash_fun = "byte list \<Rightarrow> string"
type_synonym rng_fun = "nat \<Rightarrow> int \<Rightarrow> int \<Rightarrow> int"

definition padding_new :: "hash_fun \<Rightarrow> byte list \<Rightarrow> padding_factory option" where
  "padding_new md5 raw =
     (let scheme = sm_from_bytes raw in
      if scheme = [] then None
      else case sm_get scheme ''stop'' of
             None \<Rightarrow> None
           | Some s \<Rightarrow>
               (case parse_u32 s of
                  None \<Rightarrow> None
                | Some stop \<Rightarrow>
                    Some \<lparr>pf_scheme = scheme, pf_raw_scheme = raw, pf_stop = stop, pf_md5 = md5 raw\<rparr>))"

text \<open>\<open>PaddingFactory::default\<close> unwraps this; \<open>padding_default_Some\<close> shows it is never \<open>None\<close>.\<close>

definition padding_default :: "hash_fun \<Rightarrow> padding_factory option" where
  "padding_default md5 = padding_new md5 (as_bytes DEFAULT_PADDING_SCHEME)"

text \<open>One entry of a size list: a check mark, a fixed size, a drawn size, or nothing.\<close>

definition range_sizes :: "rng_fun \<Rightarrow> nat \<Rightarrow> string \<Rightarrow> int list" where
  "range_sizes rng i r =
     (if r = ''c'' then [CHECK_MARK]
      else case split_once (CHR ''-'') r of
             None \<Rightarrow> []
           | Some (a, b) \<Rightarrow>
               (case parse_i64 a of
                  None \<Rightarrow> []
                | Some x \<Rightarrow>
                    (case parse_i64 b of
                       None \<Rightarrow> []
                     | Some y \<Rightarrow>
                         (let lo = min x y; hi = max x y in
                          if lo > 0 \<and> hi > 0 then
                            (if lo = hi then [as_i32 lo] else [as_i32 (rng i lo hi)])
                          else []))))"

fun ranges_sizes :: "rng_fun \<Rightarrow> nat \<Rightarrow> string list \<Rightarrow> int list" where
  "ranges_sizes rng i [] = []"
| "ranges_sizes rng i (r # rs) = range_sizes rng i r @ ranges_sizes rng (Suc i) rs"

definition generate_record_payload_sizes :: "rng_fun \<Rightarrow> padding_factory \<Rightarrow> u32 \<Rightarrow> int list" where
  "generate_record_payload_sizes rng pf pkt =
     (case sm_get (pf_scheme pf) (show_u32 pkt) of
        None \<Rightarrow> []
      | Some s \<Rightarrow> ranges_sizes rng 0 (split_on (CHR '','') s))"

text \<open>The process-wide default: a cell initialised on first use and replaced by \<open>update\<close>.\<close>

definition default_load :: "hash_fun \<Rightarrow> padding_factory option \<Rightarrow> padding_factory option" where
  "default_load md5 cell = (case cell of None \<Rightarrow> padding_default md5 | Some pf \<Rightarrow> Some pf)"

definition default_update ::
    "hash_fun \<Rightarrow> padding_factory option \<Rightarrow> byte list \<Rightarrow> padding_factory option \<times> bool" where
  "default_update md5 cell raw =
     (case padding_new md5 raw of
        Some pf \<Rightarrow> (Some pf, True)
      | None \<Rightarrow> (default_load md5 cell, False))"

section \<open>Well-formed factories\<close>

text \<open>The digest and the \<open>stop\<close> entry of a factory agree with its raw scheme.\<close>

definition factory_ok :: "hash_fun \<Rightarrow> padding_factory \<Rightarrow> bool" where
  "factory_ok md5 pf \<longleftrightarrow> padding_new md5 (pf_raw_scheme pf) = Some pf"

lemma padding_new_SomeD:
  assumes "padding_new md5 raw = Some pf"
  shows "pf_raw_scheme pf = raw" "pf_md5 pf = md5 raw" "pf_scheme pf = sm_from_bytes raw"
    "factory_ok md5 pf"
proof -
  show raw: "pf_raw_scheme pf = raw" and "pf_md5 pf = md5 raw" and "pf_scheme pf = sm_from_bytes raw"
    using assms by (auto simp: padding_new_def Let_def split: if_splits option.splits)
  then show "factory_ok md5 pf" using assms by (simp add: factory_ok_def)
qed

text \<open>What a random source may return.\<close>

definition rng_ok :: "rng_fun \<Rightarrow> bool" where
  "rng_ok rng \<longleftrightarrow> (\<forall>i lo hi. lo \<le> hi \<longrightarrow> lo \<le> rng i lo hi \<and> rng i lo hi \<le> hi)"

section \<open>The default scheme\<close>

lemma default_scheme_entries:
  "sm_from_bytes (as_bytes DEFAULT_PADDING_SCHEME) =
     [(''stop'', ''8''), (''0'', ''30-30''), (''1'', ''100-400''),
      (''2'', ''400-500,c,500-1000,c,500-1000,c,500-1000,c,500-1000''),
      (''3'', ''9-9,500-1000''), (''4'', ''500-1000''), (''5'', ''500-1000''),
      (''6'', ''500-1000''), (''7'', ''500-1000'')]"
proof -
  have "is_ascii DEFAULT_PADDING_SCHEME"
    by code_simp
  moreover have "str_lines DEFAULT_PADDING_SCHEME =
     [''stop=8'', ''0=30-30'', ''1=100-400'',
      ''2=400-500,c,500-1000,c,500-1000,c,500-1000,c,500-1000'', ''3=9-9,500-1000'',
      ''4=500-1000'', ''5=500-1000'', ''6=500-1000'', ''7=500-1000'']"
    by code_simp
  ultimately show ?thesis
    by (simp add: sm_from_bytes_def from_utf8_lossy_ascii)
qed

lemma padding_default_Some:
  "\<exists>pf. padding_default md5 = Some pf \<and> pf_stop pf = 8 \<and> factory_ok md5 pf"
proof -
  have "parse_u32 ''8'' = Some 8"
    by (simp add: parse_u32_def parse_unsigned_def parse_nat_def digit_val_def)
  then have "padding_default md5 = Some
      \<lparr>pf_scheme = sm_from_bytes (as_bytes DEFAULT_PADDING_SCHEME),
       pf_raw_scheme = as_bytes DEFAULT_PADDING_SCHEME, pf_stop = 8,
       pf_md5 = md5 (as_bytes DEFAULT_PADDING_SCHEME)\<rparr>"
    by (simp add: padding_default_def padding_new_def default_scheme_entries sm_get_def)
  then show ?thesis
    using padding_new_SomeD(4) [of md5 "as_bytes DEFAULT_PADDING_SCHEME"]
    by (auto simp: padding_default_def)
qed

section \<open>Bounds on the generated sizes\<close>

text \<open>
  An entry is \<^emph>\<open>small\<close> when it is a check mark or both bounds of its range are at most
  65535, the largest length a frame header can state; a scheme is small when all its
  entries are.
\<close>

definition range_small :: "string \<Rightarrow> bool" where
  "range_small r \<longleftrightarrow>
     r = ''c'' \<or>
     (case split_once (CHR ''-'') r of
        None \<Rightarrow> True
      | Some (a, b) \<Rightarrow>
          (case parse_i64 a of None \<Rightarrow> True | Some x \<Rightarrow>
             (case parse_i64 b of None \<Rightarrow> True | Some y \<Rightarrow> x \<le> 65535 \<and> y \<le> 65535)))"

definition scheme_small :: "stringmap \<Rightarrow> bool" where
  "scheme_small m \<longleftrightarrow> list_all (\<lambda>(k, v). list_all range_small (split_on (CHR '','') v)) m"

text \<open>A record size is \<^emph>\<open>proper\<close> when it is a check mark or lies between 1 and 65535.\<close>

definition proper_size :: "int \<Rightarrow> bool" where
  "proper_size s \<longleftrightarrow> s = CHECK_MARK \<or> 0 < s \<and> s \<le> 65535"

lemma range_sizes_proper:
  assumes "rng_ok rng" "range_small r" "s \<in> set (range_sizes rng i r)"
  shows "proper_size s"
proof (cases "r = ''c''")
  case True
  with assms(3) show ?thesis by (simp add: range_sizes_def proper_size_def)
next
  case False
  with assms(3) obtain a b where sp: "split_once (CHR ''-'') r = Some (a, b)"
    by (cases "split_once (CHR ''-'') r") (auto simp: range_sizes_def)
  with False assms(3) obtain x where x: "parse_i64 a = Some x"
    by (cases "parse_i64 a") (auto simp: range_sizes_def)
  with False assms(3) sp obtain y where y: "parse_i64 b = Some y"
    by (cases "parse_i64 b") (auto simp: range_sizes_def)
  have pos: "0 < min x y"
    and s: "s = as_i32 (min x y) \<or> s = as_i32 (rng i (min x y) (max x y))"
    using False assms(3) sp x y by (auto simp: range_sizes_def Let_def split: if_splits)
  from False assms(2) sp x y have "x \<le> 65535" "y \<le> 65535" by (auto simp: range_small_def)
  moreover have "min x y \<le> rng i (min x y) (max x y) \<and> rng i (min x y) (max x y) \<le> max x y"
    using assms(1) by (auto simp: rng_ok_def)
  ultimately obtain v where v: "s = as_i32 v" "0 < v" "v \<le> 65535"
    using s pos by fastforce
  then have "as_i32 v = v" by (simp add: as_i32_id)
  with v show ?thesis by (simp add: proper_size_def)
qed

lemma ranges_sizes_proper:
  "rng_ok rng \<Longrightarrow> list_all range_small rs \<Longrightarrow> list_all proper_size (ranges_sizes rng i rs)"
  by (induction rng i rs rule: ranges_sizes.induct)
    (auto simp: list_all_iff dest: range_sizes_proper)

lemma generate_sizes_proper:
  assumes "rng_ok rng" "scheme_small (pf_scheme pf)"
  shows "list_all proper_size (generate_record_payload_sizes rng pf pkt)"
proof (cases "sm_get (pf_scheme pf) (show_u32 pkt)")
  case None
  then show ?thesis by (simp add: generate_record_payload_sizes_def)
next
  case (Some v)
  then have "(show_u32 pkt, v) \<in> set (pf_scheme pf)"
    by (simp add: sm_get_def map_of_SomeD)
  with assms(2) have "list_all range_small (split_on (CHR '','') v)"
    by (auto simp: scheme_small_def list_all_iff)
  with Some ranges_sizes_proper [OF assms(1)] show ?thesis
    by (simp add: generate_record_payload_sizes_def)
qed

lemma default_scheme_small: "scheme_small (sm_from_bytes (as_bytes DEFAULT_PADDING_SCHEME))"
  unfolding default_scheme_entries scheme_small_def
  by (simp add: range_small_def parse_i64_def parse_nat_def digit_val_def)

section \<open>Properties\<close>

text \<open>
  A scheme text is accepted exactly when it has a \<open>stop\<close> entry that is an unsigned 32-bit
  number; the accepted factory keeps the text, its digest and that number.
\<close>

theorem padding_new_spec:
  "padding_new md5 raw = Some pf \<longleftrightarrow>
     (\<exists>s n. sm_get (sm_from_bytes raw) ''stop'' = Some s \<and> parse_u32 s = Some n \<and>
        pf = \<lparr>pf_scheme = sm_from_bytes raw, pf_raw_scheme = raw, pf_stop = n, pf_md5 = md5 raw\<rparr>)"
  by (auto simp: padding_new_def Let_def sm_get_def split: option.splits)

text \<open>
  The built-in scheme parses, so that \<open>PaddingFactory::default\<close> does not panic, and it pads
  the packets before the eighth.
\<close>

theorem default_scheme_parses:
  "\<exists>pf. padding_default md5 = Some pf \<and> pf_stop pf = 8 \<and> pf_raw_scheme pf = as_bytes DEFAULT_PADDING_SCHEME"
proof -
  obtain pf where "padding_default md5 = Some pf" "pf_stop pf = 8"
    using padding_default_Some by blast
  then show ?thesis
    using padding_new_SomeD(1) by (auto simp: padding_default_def)
qed

text \<open>
  Under a scheme whose bounds fit the frame header, every generated record size is a check
  mark or lies between 1 and 65535, whatever the random source draws within its range.
\<close>

theorem record_sizes_bounded:
  assumes "rng_ok rng" "scheme_small (pf_scheme pf)"
  shows "\<forall>s \<in> set (generate_record_payload_sizes rng pf pkt). s = CHECK_MARK \<or> 1 \<le> s \<and> s \<le> 65535"
  using generate_sizes_proper [OF assms, of pkt] by (fastforce simp: list_all_iff proper_size_def)

theorem record_sizes_bounded_witness:
  "list_all (\<lambda>s. s = CHECK_MARK \<or> 1 \<le> s \<and> s \<le> 65535) (generate_record_payload_sizes (\<lambda>i lo hi. hi)
      \<lparr>pf_scheme = sm_from_bytes (as_bytes DEFAULT_PADDING_SCHEME), pf_raw_scheme = [], pf_stop = 8, pf_md5 = []\<rparr> 2)"
  unfolding list_all_iff
  by (rule record_sizes_bounded) (simp_all add: rng_ok_def default_scheme_small)

text \<open>
  Sizes are parsed as 64-bit numbers and narrowed to 32 bits without a check: a range whose
  bounds are both \<open>4294967295\<close> is taken for a check mark.
\<close>

theorem oversized_range_is_check_mark:
  "range_sizes rng i ''4294967295-4294967295'' = [CHECK_MARK]"
  by (simp add: range_sizes_def parse_i64_def parse_nat_def digit_val_def as_i32_def CHECK_MARK_def)

end
