(* ===== verification/Codec.thy ===== *)
theory Codec
  imports Prelude
begin

text \<open>
  The contract between a wire format and the loops that read it: an encoder, and a decoder
  that takes one value off the front of a byte buffer or answers \<open>None\<close> when the buffer is
  still too short. From three laws of the decoder follow the facts the session layer relies
  on: a buffer of encoded values decodes to those values, and the decoded values do not
  depend on how the bytes were cut into reads.
\<close>

section \<open>Decoding a buffer\<close>

text \<open>Take values off the front while the decoder succeeds and makes progress.\<close>

function decode_all :: "(byte list \<Rightarrow> ('a \<times> byte list) option) \<Rightarrow> byte list \<Rightarrow> 'a list \<times> byte list" where
  "decode_all dec bs =
     (case dec bs of
        None \<Rightarrow> ([], bs)
      | Some (x, r) \<Rightarrow>
          if length r < length bs then (case decode_all dec r of (xs, r') \<Rightarrow> (x # xs, r'))
          else ([], bs))"
  by pat_completeness auto
termination
  by (relation "measure (\<lambda>(dec, bs). length bs)") auto

declare decode_all.simps [simp del]

text \<open>The same over a sequence of reads: each read is appended to what is left over.\<close>

fun decode_reads ::
    "(byte list \<Rightarrow> ('a \<times> byte list) option) \<Rightarrow> byte list \<Rightarrow> byte list list \<Rightarrow> 'a list \<times> byte list" where
  "decode_reads dec pending [] = ([], pending)"
| "decode_reads dec pending (c # cs) =
     (case decode_all dec (pending @ c) of (xs, r) \<Rightarrow>
      case decode_reads dec r cs of (ys, r') \<Rightarrow> (xs @ ys, r'))"

section \<open>The contract\<close>

locale stream_codec =
  fixes enc :: "'a \<Rightarrow> byte list"
    and dec :: "byte list \<Rightarrow> ('a \<times> byte list) option"
    and ok :: "'a \<Rightarrow> bool"
  assumes dec_enc: "ok x \<Longrightarrow> dec (enc x @ r) = Some (x, r)"
    and dec_extend: "dec bs = Some (x, r) \<Longrightarrow> dec (bs @ cs) = Some (x, r @ cs)"
    and dec_shrinks: "dec bs = Some (x, r) \<Longrightarrow> length r < length bs"
begin

lemma decode_all_None [simp]: "dec bs = None \<Longrightarrow> decode_all dec bs = ([], bs)"
  by (subst decode_all.simps) simp

lemma decode_all_Some:
  "dec bs = Some (x, r) \<Longrightarrow>
   decode_all dec bs = (x # fst (decode_all dec r), snd (decode_all dec r))"
  using dec_shrinks [of bs x r] by (subst decode_all.simps) (simp split: prod.splits)

lemma enc_nonempty: "ok x \<Longrightarrow> enc x \<noteq> []"
  using dec_enc [of x "[]"] dec_shrinks by fastforce

lemma decode_all_concat:
  "list_all ok xs \<Longrightarrow>
   decode_all dec (concat (map enc xs) @ r) = (xs @ fst (decode_all dec r), snd (decode_all dec r))"
  by (induction xs) (simp_all add: decode_all_Some [OF dec_enc])

lemma decode_all_append:
  "decode_all dec (bs @ cs) =
     (fst (decode_all dec bs) @ fst (decode_all dec (snd (decode_all dec bs) @ cs)),
      snd (decode_all dec (snd (decode_all dec bs) @ cs)))"
proof (induction bs rule: measure_induct_rule [of length])
  case (less bs)
  show ?case
  proof (cases "dec bs")
    case None
    then show ?thesis by simp
  next
    case (Some p)
    obtain x r where p: "p = (x, r)" by (cases p)
    with Some have d: "dec bs = Some (x, r)" by simp
    from less [OF dec_shrinks [OF d]] show ?thesis
      by (simp add: decode_all_Some [OF d] decode_all_Some [OF dec_extend [OF d]])
  qed
qed

lemma decode_all_rest: "dec (snd (decode_all dec bs)) = None"
proof (induction bs rule: measure_induct_rule [of length])
  case (less bs)
  show ?case
  proof (cases "dec bs")
    case None
    then show ?thesis by simp
  next
    case (Some p)
    obtain x r where "p = (x, r)" by (cases p)
    with Some have d: "dec bs = Some (x, r)" by simp
    from less [OF dec_shrinks [OF d]] show ?thesis by (simp add: decode_all_Some [OF d])
  qed
qed

text \<open>Cutting the stream short only loses values at the end.\<close>

lemma decode_all_prefix:
  assumes "bs @ t = concat (map enc xs)" "list_all ok xs"
  shows "\<exists>ys. xs = fst (decode_all dec bs) @ ys"
  using decode_all_append [of bs t] decode_all_concat [OF assms(2), of "[]"] assms(1)
  by (cases "dec []") (auto dest: dec_shrinks)

text \<open>Reads may cut the byte stream anywhere.\<close>

lemma decode_reads_concat:
  "dec pending = None \<Longrightarrow> decode_reads dec pending cs = decode_all dec (pending @ concat cs)"
proof (induction cs arbitrary: pending)
  case Nil
  then show ?case by simp
next
  case (Cons c cs)
  have "decode_reads dec pending (c # cs) =
      (fst (decode_all dec (pending @ c)) @
         fst (decode_all dec (snd (decode_all dec (pending @ c)) @ concat cs)),
       snd (decode_all dec (snd (decode_all dec (pending @ c)) @ concat cs)))"
    by (simp add: case_prod_beta Cons.IH [OF decode_all_rest])
  then show ?case
    using decode_all_append [of "pending @ c" "concat cs"] by simp
qed

end

end
