(* ===== verification/Frame.thy ===== *)
theory Frame
  imports Rust_Std Codec
begin

text \<open>
  \<open>src/src/core/frame.rs\<close>: the commands and frames of the session layer, and their wire
  format: one command byte, the stream identifier and the payload length in big-endian
  order, then the payload.
\<close>

section \<open>Commands\<close>

datatype command =
    Waste
  | Syn
  | Psh
  | Fin
  | Settings
  | Alert
  | UpdatePaddingScheme
  | SynAck
  | HeartRequest
  | HeartResponse
  | ServerSettings
  | Unknown byte

definition HEADER_OVERHEAD_SIZE :: nat where
  "HEADER_OVERHEAD_SIZE = 1 + 4 + 2"

lemma HEADER_OVERHEAD_SIZE_eq [simp]: "HEADER_OVERHEAD_SIZE = 7"
  by (simp add: HEADER_OVERHEAD_SIZE_def)

definition command_of_u8 :: "byte \<Rightarrow> command" where
  "command_of_u8 v =
     (if v = 0 then Waste
      else if v = 1 then Syn
      else if v = 2 then Psh
      else if v = 3 then Fin
      else if v = 4 then Settings
      else if v = 5 then Alert
      else if v = 6 then UpdatePaddingScheme
      else if v = 7 then SynAck
      else if v = 8 then HeartRequest
      else if v = 9 then HeartResponse
      else if v = 10 then ServerSettings
      else Unknown v)"

fun u8_of_command :: "command \<Rightarrow> byte" where
  "u8_of_command Waste = 0"
| "u8_of_command Syn = 1"
| "u8_of_command Psh = 2"
| "u8_of_command Fin = 3"
| "u8_of_command Settings = 4"
| "u8_of_command Alert = 5"
| "u8_of_command UpdatePaddingScheme = 6"
| "u8_of_command SynAck = 7"
| "u8_of_command HeartRequest = 8"
| "u8_of_command HeartResponse = 9"
| "u8_of_command ServerSettings = 10"
| "u8_of_command (Unknown v) = v"

fun command_name :: "command \<Rightarrow> string" where
  "command_name Waste = ''CMD_WASTE''"
| "command_name Syn = ''CMD_SYN''"
| "command_name Psh = ''CMD_PSH''"
| "command_name Fin = ''CMD_FIN''"
| "command_name Settings = ''CMD_SETTINGS''"
| "command_name Alert = ''CMD_ALERT''"
| "command_name UpdatePaddingScheme = ''CMD_UPDATE_PADDING_SCHEME''"
| "command_name SynAck = ''CMD_SYNACK''"
| "command_name HeartRequest = ''CMD_HEART_REQUEST''"
| "command_name HeartResponse = ''CMD_HEART_RESPONSE''"
| "command_name ServerSettings = ''CMD_SERVER_SETTINGS''"
| "command_name (Unknown _) = ''CMD_UNKNOWN''"

definition show_command :: "command \<Rightarrow> string" where
  "show_command c = command_name c @ ''('' @ show_u8 (u8_of_command c) @ '')''"

text \<open>
  \<open>Command::from\<close> never builds \<open>Unknown\<close> of an assigned code; such a value can only be
  built by hand, and reads back as the command it collides with.
\<close>

definition command_ok :: "command \<Rightarrow> bool" where
  "command_ok c \<longleftrightarrow> command_of_u8 (u8_of_command c) = c"

lemma u8_of_command_of_u8 [simp]: "u8_of_command (command_of_u8 v) = v"
  by (simp add: command_of_u8_def)

lemma command_ok_of_u8 [simp]: "command_ok (command_of_u8 v)"
  by (simp add: command_ok_def)

lemma command_ok_iff: "command_ok c \<longleftrightarrow> (\<forall>v. c = Unknown v \<longrightarrow> 10 < v)"
proof (cases c)
  case (Unknown v)
  have "command_of_u8 v = Unknown v \<longleftrightarrow> 10 < v"
  proof (cases "10 < v")
    case True
    then show ?thesis by (auto simp: command_of_u8_def)
  next
    case False
    then have "unat v \<le> 10"
      by (simp add: word_less_nat_alt)
    then have "unat v = 0 \<or> unat v = 1 \<or> unat v = 2 \<or> unat v = 3 \<or> unat v = 4 \<or> unat v = 5 \<or>
        unat v = 6 \<or> unat v = 7 \<or> unat v = 8 \<or> unat v = 9 \<or> unat v = 10"
      by arith
    then show ?thesis using False by (auto simp: command_of_u8_def word_unat_eq_iff)
  qed
  with Unknown show ?thesis by (simp add: command_ok_def)
qed (simp_all add: command_ok_def command_of_u8_def)

section \<open>Frames\<close>

record frame =
  fcmd :: command
  fsid :: u32
  fdata :: "byte list"

definition frame_new :: "command \<Rightarrow> u32 \<Rightarrow> frame" where
  "frame_new c s = \<lparr>fcmd = c, fsid = s, fdata = []\<rparr>"

definition frame_with_data :: "command \<Rightarrow> u32 \<Rightarrow> byte list \<Rightarrow> frame" where
  "frame_with_data c s d = \<lparr>fcmd = c, fsid = s, fdata = d\<rparr>"

lemma frame_new_simps [simp]:
  "fcmd (frame_new c s) = c" "fsid (frame_new c s) = s" "fdata (frame_new c s) = []"
  by (simp_all add: frame_new_def)

lemma frame_with_data_simps [simp]:
  "fcmd (frame_with_data c s d) = c" "fsid (frame_with_data c s d) = s"
  "fdata (frame_with_data c s d) = d"
  by (simp_all add: frame_with_data_def)

definition show_frame :: "frame \<Rightarrow> string" where
  "show_frame f = ''Frame { cmd: '' @ show_command (fcmd f) @ '', sid: '' @ show_u32 (fsid f) @
     '', data_len: '' @ show_nat (length (fdata f)) @ '' }''"

text \<open>The length field is \<open>self.data.len() as u16\<close>: it keeps the low 16 bits.\<close>

definition frame_to_bytes :: "frame \<Rightarrow> byte list" where
  "frame_to_bytes f =
     u8_of_command (fcmd f) # put_u32 (fsid f) @ put_u16 (word_of_nat (length (fdata f))) @ fdata f"

record raw_header =
  hcmd :: command
  hsid :: u32
  hlength :: u16

definition raw_header_from_bytes :: "byte list \<Rightarrow> raw_header option" where
  "raw_header_from_bytes bs =
     (if length bs < HEADER_OVERHEAD_SIZE then None
      else Some \<lparr>hcmd = command_of_u8 (hd bs), hsid = get_u32 (drop 1 bs),
                 hlength = get_u16 (drop 5 bs)\<rparr>)"

definition frame_from_bytes :: "byte list \<Rightarrow> frame option" where
  "frame_from_bytes bs =
     (case raw_header_from_bytes bs of
        None \<Rightarrow> None
      | Some h \<Rightarrow>
          (let n = unat (hlength h); rest = drop HEADER_OVERHEAD_SIZE bs in
           if length rest < n then None
           else Some \<lparr>fcmd = hcmd h, fsid = hsid h, fdata = take n rest\<rparr>))"

text \<open>Reading one frame and draining it, as the receive loop does.\<close>

definition frame_decode :: "byte list \<Rightarrow> (frame \<times> byte list) option" where
  "frame_decode bs =
     map_option (\<lambda>f. (f, drop (HEADER_OVERHEAD_SIZE + length (fdata f)) bs)) (frame_from_bytes bs)"

text \<open>Frames that survive the wire format.\<close>

definition frame_ok :: "frame \<Rightarrow> bool" where
  "frame_ok f \<longleftrightarrow> command_ok (fcmd f) \<and> length (fdata f) < 65536"

section \<open>The wire format is a codec\<close>

lemma length_frame_to_bytes [simp]: "length (frame_to_bytes f) = 7 + length (fdata f)"
  by (simp add: frame_to_bytes_def)

lemma raw_header_to_bytes:
  "raw_header_from_bytes (frame_to_bytes f @ r) =
     Some \<lparr>hcmd = command_of_u8 (u8_of_command (fcmd f)), hsid = fsid f,
           hlength = word_of_nat (length (fdata f))\<rparr>"
  by (simp add: raw_header_from_bytes_def frame_to_bytes_def)

lemma drop7_frame_to_bytes: "drop 7 (frame_to_bytes f @ r) = fdata f @ r"
  by (simp add: frame_to_bytes_def numeral_eq_Suc)

text \<open>What reading back does in general: the length is taken modulo \<open>2 ^ 16\<close>.\<close>

lemma frame_from_to_bytes:
  "frame_from_bytes (frame_to_bytes f @ r) =
     Some \<lparr>fcmd = command_of_u8 (u8_of_command (fcmd f)), fsid = fsid f,
           fdata = take (length (fdata f) mod 65536) (fdata f)\<rparr>"
  by (simp add: frame_from_bytes_def raw_header_to_bytes drop7_frame_to_bytes unat_of_nat Let_def
      del: drop_append)

lemma frame_decode_to_bytes:
  assumes "frame_ok f"
  shows "frame_decode (frame_to_bytes f @ r) = Some (f, r)"
proof -
  from assms have "frame_from_bytes (frame_to_bytes f @ r) = Some f"
    by (simp add: frame_from_to_bytes frame_ok_def command_ok_def)
  then show ?thesis by (simp add: frame_decode_def)
qed

lemma frame_from_bytes_SomeD:
  assumes "frame_from_bytes bs = Some f"
  shows "7 + length (fdata f) \<le> length bs" "frame_ok f" "bs = frame_to_bytes f @ drop (7 + length (fdata f)) bs"
proof -
  from assms have len: "7 \<le> length bs" and n: "unat (get_u16 (drop 5 bs)) \<le> length bs - 7"
    and f: "f = \<lparr>fcmd = command_of_u8 (hd bs), fsid = get_u32 (drop 1 bs),
                 fdata = take (unat (get_u16 (drop 5 bs))) (drop 7 bs)\<rparr>"
    by (auto simp: frame_from_bytes_def raw_header_from_bytes_def Let_def split: if_splits)
  from f n have dlen: "length (fdata f) = unat (get_u16 (drop 5 bs))" by simp
  with n len show "7 + length (fdata f) \<le> length bs" by simp
  show "frame_ok f"
    using dlen f unat_u16_less [of "get_u16 (drop 5 bs)"] by (simp add: frame_ok_def)
  obtain b bs' where bs: "bs = b # bs'" using len by (cases bs) auto
  have "put_u32 (get_u32 bs') = take 4 bs'" "put_u16 (get_u16 (drop 4 bs')) = take 2 (drop 4 bs')"
    using len bs by (simp_all add: put_get_u32 put_get_u16)
  then have "frame_to_bytes f = b # take 4 bs' @ take 2 (drop 4 bs') @ fdata f"
    using f dlen bs by (simp add: frame_to_bytes_def)
  moreover have "take 4 bs' @ take 2 (drop 4 bs') @ drop 6 bs' = bs'"
    using append_take_drop_id [of 2 "drop 4 bs'"] append_take_drop_id [of 4 bs'] by simp
  moreover have "fdata f @ drop (7 + length (fdata f)) bs = drop 6 bs'"
    using f dlen bs append_take_drop_id [of "length (fdata f)" "drop 6 bs'"]
    by (simp add: add.commute numeral_eq_Suc)
  ultimately show "bs = frame_to_bytes f @ drop (7 + length (fdata f)) bs"
    using bs by simp
qed

interpretation frame_wire: stream_codec frame_to_bytes frame_decode frame_ok
proof
  fix f r
  assume "frame_ok f"
  then show "frame_decode (frame_to_bytes f @ r) = Some (f, r)" by (rule frame_decode_to_bytes)
next
  fix bs f r cs
  assume "frame_decode bs = Some (f, r)"
  then have f: "frame_from_bytes bs = Some f" and r: "r = drop (7 + length (fdata f)) bs"
    by (auto simp: frame_decode_def)
  note facts = frame_from_bytes_SomeD [OF f]
  show "length r < length bs" using facts(1) r by simp
  have "bs @ cs = frame_to_bytes f @ r @ cs" using facts(3) r by (metis append.assoc)
  then show "frame_decode (bs @ cs) = Some (f, r @ cs)"
    using facts(2) by (simp add: frame_decode_to_bytes)
qed

section \<open>Properties\<close>

text \<open>
  C10. Frames survive the wire however it is cut: if the peer's reads together deliver the
  encodings of some frames followed by an incomplete rest, the receive loop obtains exactly
  these frames, in order, and keeps exactly the rest. Frames must carry fewer than 65536 bytes
  and a command whose number is its own.
\<close>

theorem frame_stream_roundtrip:
  assumes "list_all frame_ok fs" "frame_decode r = None"
    and "concat reads = concat (map frame_to_bytes fs) @ r"
  shows "decode_reads frame_decode [] reads = (fs, r)"
proof -
  have "frame_decode [] = None" by code_simp
  from frame_wire.decode_reads_concat [OF this, of reads] show ?thesis
    using assms frame_wire.decode_all_concat [OF assms(1), of r] by simp
qed

theorem frame_stream_roundtrip_witness:
  "decode_reads frame_decode [] [[2, 0, 0], [0, 9, 0, 2, 65], [66, 1, 0]] =
     ([frame_with_data Psh 9 [65, 66]], [1, 0])"
proof -
  have bytes: "frame_to_bytes (frame_with_data Psh 9 [65, 66]) = [2, 0, 0, 0, 9, 0, 2, 65, 66]"
    "frame_decode [1, 0] = None" "frame_ok (frame_with_data Psh 9 [65, 66])"
    by (simp add: frame_to_bytes_def frame_with_data_def put_u32_eval put_u16_eval)
      (code_simp, simp add: frame_ok_def frame_with_data_def command_ok_def command_of_u8_def)
  show ?thesis
    by (rule frame_stream_roundtrip) (simp_all add: bytes)
qed

text \<open>
  The decoder accepts only canonical encodings: what it returns re-encodes to the bytes it
  consumed, and it answers nothing exactly when the buffer is shorter than the header, or than
  the header and the announced length.
\<close>

theorem frame_decoder_exact:
  "(frame_from_bytes bs = None \<longleftrightarrow> length bs < 7 + (if length bs < 7 then 0 else unat (get_u16 (drop 5 bs)))) \<and>
   (\<forall>f. frame_from_bytes bs = Some f \<longrightarrow> take (7 + length (fdata f)) bs = frame_to_bytes f)"
proof
  show "frame_from_bytes bs = None \<longleftrightarrow>
      length bs < 7 + (if length bs < 7 then 0 else unat (get_u16 (drop 5 bs)))"
    by (auto simp: frame_from_bytes_def raw_header_from_bytes_def Let_def)
  show "\<forall>f. frame_from_bytes bs = Some f \<longrightarrow> take (7 + length (fdata f)) bs = frame_to_bytes f"
  proof (intro allI impI)
    fix f
    assume "frame_from_bytes bs = Some f"
    from frame_from_bytes_SomeD(3) [OF this] show "take (7 + length (fdata f)) bs = frame_to_bytes f"
      by (metis length_frame_to_bytes take_append_length)
  qed
qed

theorem frame_decoder_exact_witness:
  "take 8 [2, 0, 0, 0, 9, 0, 1, 65, 77] = frame_to_bytes (frame_with_data Psh 9 [65])"
proof -
  have "frame_from_bytes [2, 0, 0, 0, 9, 0, 1, 65, 77] = Some (frame_with_data Psh 9 [65])"
    by code_simp
  then show ?thesis
    using frame_decoder_exact [of "[2, 0, 0, 0, 9, 0, 1, 65, 77]"] by (simp add: frame_with_data_def)
qed

text \<open>
  C14. The header's length field is 16 bits wide and the encoder does not check it: a frame of
  \<open>n\<close> payload bytes is read back with only its first \<open>n mod 65536\<close> bytes, the others being
  left in the stream as if they were the next frame.
\<close>

theorem oversized_frame_truncated:
  "frame_decode (frame_to_bytes f @ r) =
     Some (\<lparr>fcmd = command_of_u8 (u8_of_command (fcmd f)), fsid = fsid f,
            fdata = take (length (fdata f) mod 65536) (fdata f)\<rparr>,
           drop (length (fdata f) mod 65536) (fdata f) @ r)"
proof -
  define n where "n = length (fdata f) mod 65536"
  have n: "n \<le> length (fdata f)" by (simp add: n_def)
  have "drop (7 + n) (frame_to_bytes f @ r) = drop n (fdata f @ r)"
    by (simp only: drop7_frame_to_bytes [symmetric] drop_drop add.commute)
  with n have d: "drop (7 + n) (frame_to_bytes f @ r) = drop n (fdata f) @ r" by simp
  have l: "length (take n (fdata f)) = n" using n by simp
  show ?thesis
    unfolding frame_decode_def frame_from_to_bytes n_def [symmetric]
    by (simp only: option.map frame.simps l d HEADER_OVERHEAD_SIZE_eq)
qed

end
