(* ===== verification/Engine.thy ===== *)
theory Engine
  imports Padding Frame
begin

text \<open>
  \<open>src/src/core/action.rs\<close>, \<open>src/src/core/state.rs\<close> and \<open>src/src/core/engine.rs\<close>: the
  protocol engine. It keeps the negotiated state of one session and turns a received frame
  into a list of actions for the session that hosts it.
\<close>

section \<open>Actions and state\<close>

definition PROTOCOL_VERSION :: byte where "PROTOCOL_VERSION = 2"
definition MIN_PROTOCOL_VERSION :: byte where "MIN_PROTOCOL_VERSION = 2"
definition PROGRAM_VERSION_NAME :: string where "PROGRAM_VERSION_NAME = ''anytls/0.4.0''"

datatype protocol_action =
    SendFrame frame
  | SendFrameSync frame
  | PushStreamData u32 "byte list"
  | EnsureIncomingStream u32
  | CloseLocalStream u32
  | CloseRemoteStream u32 string
  | ReleaseWriteBuffering
  | AlertAndFail string

record state =
  st_padding :: padding_factory
  st_peer_version :: byte
  st_received_settings :: bool

definition state_new :: "padding_factory \<Rightarrow> state" where
  "state_new pf = \<lparr>st_padding = pf, st_peer_version = 0, st_received_settings = False\<rparr>"

definition set_padding :: "padding_factory \<Rightarrow> state \<Rightarrow> state" where
  "set_padding pf st = st\<lparr>st_padding := pf\<rparr>"

definition set_peer_version :: "byte \<Rightarrow> state \<Rightarrow> state" where
  "set_peer_version v st = st\<lparr>st_peer_version := v\<rparr>"

definition mark_received_settings_from_client :: "state \<Rightarrow> state" where
  "mark_received_settings_from_client st = st\<lparr>st_received_settings := True\<rparr>"

lemmas state_defs =
  state_new_def set_padding_def set_peer_version_def mark_received_settings_from_client_def

section \<open>The engine\<close>

definition client_settings :: "string \<Rightarrow> string \<Rightarrow> stringmap" where
  "client_settings name digest =
     AList.update ''padding-md5'' digest
       (AList.update ''client'' name
         (AList.update ''v'' (show_u8 PROTOCOL_VERSION) []))"

definition on_session_start ::
    "(stringmap \<Rightarrow> stringmap) \<Rightarrow> state \<Rightarrow> bool \<Rightarrow> string \<Rightarrow> protocol_action list io_result" where
  "on_session_start ord st is_client client_name =
     (if \<not> is_client then Inr []
      else Inr [SendFrame (frame_with_data Settings 0
             (sm_to_bytes ord (client_settings client_name (pf_md5 (st_padding st)))))])"

text \<open>The version a settings text declares: \<open>settings.get("v").and_then(parse::<u8>)\<close>.\<close>

definition declared_version :: "stringmap \<Rightarrow> byte option" where
  "declared_version m = (case sm_get m ''v'' of None \<Rightarrow> None | Some s \<Rightarrow> parse_u8 s)"

text \<open>The server's reaction to a client's \<open>Settings\<close>.\<close>

definition on_settings ::
    "(stringmap \<Rightarrow> stringmap) \<Rightarrow> state \<Rightarrow> frame \<Rightarrow> state \<times> protocol_action list" where
  "on_settings ord st f =
     (let m = sm_from_bytes (fdata f);
          st1 = mark_received_settings_from_client st;
          pf = st_padding st1;
          update =
            (if sm_get m ''padding-md5'' \<noteq> Some (pf_md5 pf)
             then [SendFrameSync (frame_with_data UpdatePaddingScheme 0 (pf_raw_scheme pf))] else [])
      in case declared_version m of
           Some v \<Rightarrow>
             (if MIN_PROTOCOL_VERSION \<le> v
              then (set_peer_version v st1,
                    update @ [SendFrameSync (frame_with_data ServerSettings 0
                       (sm_to_bytes ord (AList.update ''v'' (show_u8 v) [])))])
              else (st1, update))
         | None \<Rightarrow> (st1, update))"

definition on_frame ::
    "(stringmap \<Rightarrow> stringmap) \<Rightarrow> hash_fun \<Rightarrow> state \<Rightarrow> bool \<Rightarrow> frame \<Rightarrow>
     state \<times> protocol_action list io_result" where
  "on_frame ord md5 st is_client f =
     (case fcmd f of
        Waste \<Rightarrow> (st, Inr [])
      | HeartResponse \<Rightarrow> (st, Inr [])
      | Psh \<Rightarrow> (st, Inr (if fdata f \<noteq> [] then [PushStreamData (fsid f) (fdata f)] else []))
      | Syn \<Rightarrow>
          (st, Inr (if \<not> is_client then
                      (if \<not> st_received_settings st
                       then [AlertAndFail ''client did not send its settings'']
                       else [EnsureIncomingStream (fsid f)])
                    else []))
      | Fin \<Rightarrow> (st, Inr [CloseLocalStream (fsid f)])
      | Settings \<Rightarrow>
          (if \<not> is_client \<and> fdata f \<noteq> []
           then (case on_settings ord st f of (st', as) \<Rightarrow> (st', Inr as))
           else (st, Inr []))
      | UpdatePaddingScheme \<Rightarrow>
          (if fdata f \<noteq> [] \<and> is_client then
             (case padding_new md5 (fdata f) of
                Some pf \<Rightarrow> (set_padding pf st, Inr [])
              | None \<Rightarrow> (st, Inr []))
           else (st, Inr []))
      | HeartRequest \<Rightarrow> (st, Inr [SendFrame (frame_new HeartResponse (fsid f))])
      | ServerSettings \<Rightarrow>
          (if fdata f \<noteq> [] \<and> is_client then
             (case declared_version (sm_from_bytes (fdata f)) of
                Some v \<Rightarrow> (set_peer_version v st, Inr [])
              | None \<Rightarrow> (st, Inr []))
           else (st, Inr []))
      | SynAck \<Rightarrow>
          (st, Inr (if fdata f \<noteq> [] then [CloseRemoteStream (fsid f) (from_utf8_lossy (fdata f))]
                    else []))
      | Alert \<Rightarrow> (st, Inr [])
      | Unknown _ \<Rightarrow> (st, Inr []))"

text \<open>A run of the engine over the frames one side receives: the state and all actions.\<close>

fun engine_run ::
    "(stringmap \<Rightarrow> stringmap) \<Rightarrow> hash_fun \<Rightarrow> state \<Rightarrow> bool \<Rightarrow> frame list \<Rightarrow>
     state \<times> protocol_action list" where
  "engine_run ord md5 st is_client [] = (st, [])"
| "engine_run ord md5 st is_client (f # fs) =
     (case on_frame ord md5 st is_client f of
        (st', Inl _) \<Rightarrow> (st', [])
      | (st', Inr as) \<Rightarrow>
          (case engine_run ord md5 st' is_client fs of (st'', bs) \<Rightarrow> (st'', as @ bs)))"

section \<open>The engine never fails\<close>

text \<open>Rejections are actions (\<open>AlertAndFail\<close>); the engine itself always answers \<open>Ok\<close>.\<close>

lemma on_frame_Inr:
  obtains st' as where "on_frame ord md5 st is_client f = (st', Inr as)"
proof -
  have "\<exists>st' as. on_frame ord md5 st is_client f = (st', Inr as)"
    by (auto simp: on_frame_def case_prod_beta split: command.split option.split)
  with that show thesis by blast
qed

lemma engine_run_Cons:
  assumes "on_frame ord md5 st c f = (st', Inr as)"
  shows "engine_run ord md5 st c (f # fs) =
    (fst (engine_run ord md5 st' c fs), as @ snd (engine_run ord md5 st' c fs))"
  using assms by (simp add: case_prod_beta)

declare engine_run.simps(2) [simp del]

text \<open>Facts about runs follow from facts about one frame.\<close>

lemma engine_run_induct [consumes 0, case_names Nil Cons]:
  assumes "\<And>st. P st [] (st, [])"
    and "\<And>st f fs st' as st'' bs. on_frame ord md5 st c f = (st', Inr as) \<Longrightarrow>
      engine_run ord md5 st' c fs = (st'', bs) \<Longrightarrow> P st' fs (st'', bs) \<Longrightarrow> P st (f # fs) (st'', as @ bs)"
  shows "P st fs (engine_run ord md5 st c fs)"
proof (induction fs arbitrary: st)
  case Nil
  then show ?case using assms(1) by simp
next
  case (Cons f fs)
  obtain st' as where f: "on_frame ord md5 st c f = (st', Inr as)" by (rule on_frame_Inr)
  obtain st'' bs where r: "engine_run ord md5 st' c fs = (st'', bs)" by (cases "engine_run ord md5 st' c fs")
  from assms(2) [OF f r] Cons [of st'] r show ?case by (simp add: engine_run_Cons [OF f])
qed

section \<open>Invariants of the negotiated state\<close>

definition version_ok :: "byte \<Rightarrow> bool" where
  "version_ok v \<longleftrightarrow> v = 0 \<or> MIN_PROTOCOL_VERSION \<le> v"

lemma on_settings_state:
  "on_settings ord st f = (st', as) \<Longrightarrow> st_padding st' = st_padding st \<and> st_received_settings st' \<and>
     (version_ok (st_peer_version st) \<longrightarrow> version_ok (st_peer_version st'))"
  by (auto simp: on_settings_def state_defs version_ok_def Let_def split: option.splits if_splits)

lemma on_frame_server:
  assumes "on_frame ord md5 st False f = (st', r)"
  shows "st_padding st' = st_padding st"
    and "version_ok (st_peer_version st) \<Longrightarrow> version_ok (st_peer_version st')"
    and "st_received_settings st \<Longrightarrow> st_received_settings st'"
    and "st_received_settings st' \<Longrightarrow> st_received_settings st \<or> fcmd f = Settings \<and> fdata f \<noteq> []"
  using assms on_settings_state [of ord st f]
  by (auto simp: on_frame_def split: command.splits if_splits prod.splits)

lemma on_frame_client:
  assumes "on_frame ord md5 st True f = (st', r)" "factory_ok md5 (st_padding st)"
  shows "factory_ok md5 (st_padding st')"
  using assms padding_new_SomeD(4)
  by (auto simp: on_frame_def state_defs split: command.splits if_splits option.splits)

lemma engine_run_server:
  "version_ok (st_peer_version st) \<longrightarrow>
   st_padding (fst (engine_run ord md5 st False fs)) = st_padding st \<and>
   version_ok (st_peer_version (fst (engine_run ord md5 st False fs)))"
  by (rule engine_run_induct [where P = "\<lambda>st fs r. version_ok (st_peer_version st) \<longrightarrow>
        st_padding (fst r) = st_padding st \<and> version_ok (st_peer_version (fst r))"])
    (auto dest: on_frame_server)

lemma engine_run_client:
  "factory_ok md5 (st_padding st) \<longrightarrow> factory_ok md5 (st_padding (fst (engine_run ord md5 st True fs)))"
  by (rule engine_run_induct [where P = "\<lambda>st fs r. factory_ok md5 (st_padding st) \<longrightarrow>
        factory_ok md5 (st_padding (fst r))"])
    (auto dest: on_frame_client)

section \<open>Payload and stream actions\<close>

definition is_push :: "protocol_action \<Rightarrow> bool" where
  "is_push a \<longleftrightarrow> (case a of PushStreamData _ _ \<Rightarrow> True | _ \<Rightarrow> False)"

definition carries_data :: "frame \<Rightarrow> bool" where
  "carries_data f \<longleftrightarrow> fcmd f = Psh \<and> fdata f \<noteq> []"

lemma on_settings_actions:
  "on_settings ord st f = (st', as) \<Longrightarrow> a \<in> set as \<Longrightarrow> \<exists>g. a = SendFrameSync g"
  by (auto simp: on_settings_def Let_def split: option.splits if_splits)

lemma on_frame_push:
  assumes "on_frame ord md5 st c f = (st', Inr as)"
  shows "filter is_push as = (if carries_data f then [PushStreamData (fsid f) (fdata f)] else [])"
proof -
  have "filter is_push bs = []" if "on_settings ord st f = (st1, bs)" for st1 bs
    using on_settings_actions [OF that] by (fastforce simp: filter_empty_conv is_push_def)
  with assms show ?thesis
    by (auto simp: on_frame_def is_push_def carries_data_def
        split: command.splits if_splits option.splits prod.splits)
qed

lemma on_frame_ensure:
  assumes "on_frame ord md5 st c f = (st', Inr as)" "EnsureIncomingStream sid \<in> set as"
  shows "\<not> c \<and> st_received_settings st \<and> fcmd f = Syn \<and> fsid f = sid"
  using assms on_settings_actions [of ord st f]
  by (auto simp: on_frame_def split: command.splits if_splits option.splits prod.splits)

section \<open>Settings on the wire\<close>

text \<open>A digest is text that fits into a settings line; MD5 digests are printed in hexadecimal.\<close>

definition hash_text :: "hash_fun \<Rightarrow> bool" where
  "hash_text md5 \<longleftrightarrow> (\<forall>x. entry_ok (''padding-md5'', md5 x))"

lemma sm_get_client_settings:
  assumes "iteration_order ord" "entry_ok (''client'', name)" "entry_ok (''padding-md5'', d)"
  shows "sm_get (sm_from_bytes (sm_to_bytes ord (client_settings name d))) ''v'' = Some ''2''"
    and "sm_get (sm_from_bytes (sm_to_bytes ord (client_settings name d))) ''padding-md5'' = Some d"
proof -
  have v: "show_u8 PROTOCOL_VERSION = ''2''" by code_simp
  have m: "client_settings name d = [(''v'', ''2''), (''client'', name), (''padding-md5'', d)]"
    by (simp add: client_settings_def v)
  have "entry_ok (''v'', ''2'')" by code_simp
  with assms have "list_all entry_ok (client_settings name d)" by (simp add: m)
  then have "sm_get (sm_from_bytes (sm_to_bytes ord (client_settings name d))) =
      sm_get (client_settings name d)"
    using assms(1) by (intro sm_get_from_to) (simp_all add: m)
  then show "sm_get (sm_from_bytes (sm_to_bytes ord (client_settings name d))) ''v'' = Some ''2''"
    and "sm_get (sm_from_bytes (sm_to_bytes ord (client_settings name d))) ''padding-md5'' = Some d"
    by (simp_all add: m sm_get_def)
qed

lemma sm_get_server_settings:
  assumes "iteration_order ord"
  shows "sm_get (sm_from_bytes (sm_to_bytes ord (AList.update ''v'' (show_u8 2) []))) ''v'' = Some ''2''"
proof -
  have v: "show_u8 2 = ''2''" and "entry_ok (''v'', ''2'')" by code_simp+
  then have "sm_get (sm_from_bytes (sm_to_bytes ord [(''v'', ''2'')])) = sm_get [(''v'', ''2'')]"
    using assms by (intro sm_get_from_to) simp_all
  then show ?thesis by (simp add: v sm_get_def)
qed

lemma sm_to_bytes_nonempty: "iteration_order ord \<Longrightarrow> m \<noteq> [] \<Longrightarrow> sm_to_bytes ord m \<noteq> []"
proof -
  assume "iteration_order ord" "m \<noteq> []"
  then obtain e es where "ord m = e # es"
    using iteration_order_set [of ord m] by (cases "ord m") auto
  then show ?thesis by (cases es) (simp_all add: sm_to_bytes_def as_bytes_def)
qed

lemma factory_ok_nonempty: "factory_ok md5 pf \<Longrightarrow> pf_raw_scheme pf \<noteq> []"
proof
  assume ok: "factory_ok md5 pf" and "pf_raw_scheme pf = []"
  moreover have "sm_from_bytes [] = []" by code_simp
  ultimately show False by (simp add: factory_ok_def padding_new_def Let_def)
qed

section \<open>Properties\<close>

text \<open>The frames among the actions of one side.\<close>

fun sent_frames :: "protocol_action list \<Rightarrow> frame list" where
  "sent_frames [] = []"
| "sent_frames (SendFrame f # as) = f # sent_frames as"
| "sent_frames (SendFrameSync f # as) = f # sent_frames as"
| "sent_frames (_ # as) = sent_frames as"

definition client_hello :: "(stringmap \<Rightarrow> stringmap) \<Rightarrow> padding_factory \<Rightarrow> string \<Rightarrow> frame" where
  "client_hello ord pf name =
     frame_with_data Settings 0 (sm_to_bytes ord (client_settings name (pf_md5 pf)))"

lemma parse_u8_2: "parse_u8 ''2'' = Some 2"
  by (simp add: parse_u8_def parse_unsigned_def parse_nat_def digit_val_def)

lemma server_hello:
  assumes "iteration_order ord" "hash_text md5" "entry_ok (''client'', name)"
    and "factory_ok md5 pfC"
  shows "on_frame ord md5 (state_new pfS) False (client_hello ord pfC name) =
    (\<lparr>st_padding = pfS, st_peer_version = 2, st_received_settings = True\<rparr>,
     Inr ((if pf_md5 pfC \<noteq> pf_md5 pfS
       then [SendFrameSync (frame_with_data UpdatePaddingScheme 0 (pf_raw_scheme pfS))] else []) @
      [SendFrameSync (frame_with_data ServerSettings 0
         (sm_to_bytes ord (AList.update ''v'' (show_u8 2) [])))]))"
proof -
  have d: "entry_ok (''padding-md5'', pf_md5 pfC)"
    using assms(2) padding_new_SomeD(2) [OF assms(4) [unfolded factory_ok_def]]
    by (simp add: hash_text_def)
  let ?m = "sm_to_bytes ord (client_settings name (pf_md5 pfC))"
  have "?m \<noteq> []"
    using assms(1) by (intro sm_to_bytes_nonempty) (simp_all add: client_settings_def)
  moreover note get = sm_get_client_settings [OF assms(1,3) d]
  moreover have "declared_version (sm_from_bytes ?m) = Some 2"
    by (simp add: declared_version_def get parse_u8_2)
  ultimately show ?thesis
    by (simp add: on_frame_def client_hello_def frame_with_data_def on_settings_def state_defs
        MIN_PROTOCOL_VERSION_def Let_def)
qed

text \<open>
  C8. Negotiation. When the server receives the settings the client sends first, and the
  client receives the server's answers, both record protocol version 2, the server accepts
  streams from then on, and the two sides use padding schemes with the same digest: the client
  has switched to the server's scheme if its own differed.
\<close>

theorem handshake_agrees:
  assumes "iteration_order ord" "hash_text md5" "entry_ok (''client'', name)"
    and "factory_ok md5 pfC" "factory_ok md5 pfS"
    and "on_session_start ord (state_new pfC) True name = Inr as"
    and "engine_run ord md5 (state_new pfS) False (sent_frames as) = (server, answers)"
    and "engine_run ord md5 (state_new pfC) True (sent_frames answers) = (client, rest)"
  shows "st_received_settings server \<and> st_peer_version server = PROTOCOL_VERSION \<and>
    st_peer_version client = PROTOCOL_VERSION \<and> st_padding server = pfS \<and>
    pf_md5 (st_padding client) = pf_md5 pfS \<and>
    (pf_md5 pfC \<noteq> pf_md5 pfS \<longrightarrow> st_padding client = pfS) \<and> rest = []"
proof -
  have as: "sent_frames as = [client_hello ord pfC name]"
    using assms(6) by (auto simp: on_session_start_def state_new_def client_hello_def)
  have srv: "server = \<lparr>st_padding = pfS, st_peer_version = 2, st_received_settings = True\<rparr>"
    "answers = (if pf_md5 pfC \<noteq> pf_md5 pfS
       then [SendFrameSync (frame_with_data UpdatePaddingScheme 0 (pf_raw_scheme pfS))] else []) @
      [SendFrameSync (frame_with_data ServerSettings 0
         (sm_to_bytes ord (AList.update ''v'' (show_u8 2) [])))]"
    using assms(7) unfolding as engine_run_Cons [OF server_hello [OF assms(1-4)]] by auto
  let ?m = "sm_to_bytes ord (AList.update ''v'' (show_u8 2) [])"
  have m: "?m \<noteq> []" using assms(1) by (intro sm_to_bytes_nonempty) simp_all
  have dv: "declared_version (sm_from_bytes ?m) = Some 2"
    by (simp only: declared_version_def sm_get_server_settings [OF assms(1)] parse_u8_2 option.case)
  have upd: "on_frame ord md5 st True (frame_with_data UpdatePaddingScheme 0 (pf_raw_scheme pfS)) =
      (st\<lparr>st_padding := pfS\<rparr>, Inr [])" for st
    using assms(5) factory_ok_nonempty [OF assms(5)]
    by (simp add: on_frame_def frame_with_data_def factory_ok_def state_defs)
  have set: "on_frame ord md5 st True (frame_with_data ServerSettings 0 ?m) =
      (st\<lparr>st_peer_version := 2\<rparr>, Inr [])" for st
    using m dv by (simp add: on_frame_def frame_with_data_def state_defs del: update_conv)
  have "client = (if pf_md5 pfC \<noteq> pf_md5 pfS then (state_new pfC)\<lparr>st_padding := pfS\<rparr>
      else state_new pfC)\<lparr>st_peer_version := 2\<rparr>" "rest = []"
    using assms(8) unfolding srv
    by (cases "pf_md5 pfC = pf_md5 pfS";
        simp add: engine_run_Cons [OF upd] engine_run_Cons [OF set] del: AList.update.simps)+
  then show ?thesis by (simp add: srv state_new_def PROTOCOL_VERSION_def)
qed

text \<open>Two schemes and a digest that tells them apart, for the witnesses.\<close>

definition sample_md5 :: hash_fun where
  "sample_md5 bs = (if bs = as_bytes ''stop=1'' then ''aa'' else ''bb'')"

definition sample_client :: padding_factory where
  "sample_client = \<lparr>pf_scheme = [(''stop'', ''1'')], pf_raw_scheme = as_bytes ''stop=1'',
     pf_stop = 1, pf_md5 = ''aa''\<rparr>"

definition sample_server :: padding_factory where
  "sample_server = \<lparr>pf_scheme = [(''stop'', ''2'')], pf_raw_scheme = as_bytes ''stop=2'',
     pf_stop = 2, pf_md5 = ''bb''\<rparr>"

lemma sample_hash_text: "hash_text sample_md5"
proof -
  have "entry_ok (''padding-md5'', ''aa'')" "entry_ok (''padding-md5'', ''bb'')" by code_simp+
  then show ?thesis by (simp add: hash_text_def sample_md5_def)
qed

lemma sample_factories_ok: "factory_ok sample_md5 sample_client" "factory_ok sample_md5 sample_server"
proof -
  have m: "sm_from_bytes (as_bytes ''stop=1'') = [(''stop'', ''1'')]"
    "sm_from_bytes (as_bytes ''stop=2'') = [(''stop'', ''2'')]" "as_bytes ''stop=2'' \<noteq> as_bytes ''stop=1''"
    by code_simp+
  have p: "parse_u32 ''1'' = Some 1" "parse_u32 ''2'' = Some 2"
    by (simp_all add: parse_u32_def parse_unsigned_def parse_nat_def digit_val_def)
  show "factory_ok sample_md5 sample_client" "factory_ok sample_md5 sample_server"
    by (simp_all add: factory_ok_def padding_new_def sample_client_def sample_server_def m p
        sm_get_def sample_md5_def)
qed

theorem handshake_agrees_witness:
  "\<exists>as server answers client rest.
     on_session_start id (state_new sample_client) True PROGRAM_VERSION_NAME = Inr as \<and>
     engine_run id sample_md5 (state_new sample_server) False (sent_frames as) = (server, answers) \<and>
     engine_run id sample_md5 (state_new sample_client) True (sent_frames answers) = (client, rest) \<and>
     st_padding client = sample_server"
proof -
  obtain as where as: "on_session_start id (state_new sample_client) True PROGRAM_VERSION_NAME = Inr as"
    by (simp add: on_session_start_def)
  obtain server answers where
    srv: "engine_run id sample_md5 (state_new sample_server) False (sent_frames as) = (server, answers)"
    by (rule prod.exhaust)
  obtain client rest where
    cl: "engine_run id sample_md5 (state_new sample_client) True (sent_frames answers) = (client, rest)"
    by (rule prod.exhaust)
  have "entry_ok (''client'', PROGRAM_VERSION_NAME)" by code_simp
  from handshake_agrees [OF iteration_order_id sample_hash_text this sample_factories_ok as srv cl]
  have "st_padding client = sample_server"
    by (simp add: sample_client_def sample_server_def)
  with as srv cl show ?thesis by blast
qed

lemma ensure_after_settings:
  "EnsureIncomingStream sid \<in> set (snd (engine_run ord md5 st c fs)) \<Longrightarrow>
   \<not> c \<and> (st_received_settings st \<and> (\<exists>g \<in> set fs. fcmd g = Syn \<and> fsid g = sid) \<or>
     (\<exists>pre f post g. fs = pre @ f # post \<and> fcmd f = Settings \<and> fdata f \<noteq> [] \<and>
       g \<in> set post \<and> fcmd g = Syn \<and> fsid g = sid))"
proof (induction fs arbitrary: st)
  case Nil
  then show ?case by simp
next
  case (Cons f fs)
  obtain st' as where f: "on_frame ord md5 st c f = (st', Inr as)" by (rule on_frame_Inr)
  from Cons.prems consider (now) "EnsureIncomingStream sid \<in> set as"
    | (later) "EnsureIncomingStream sid \<in> set (snd (engine_run ord md5 st' c fs))"
    by (auto simp: engine_run_Cons [OF f])
  then show ?case
  proof cases
    case now
    with on_frame_ensure [OF f] show ?thesis by auto
  next
    case later
    note IH = Cons.IH [OF later]
    then have server: "on_frame ord md5 st False f = (st', Inr as)" using f by simp
    from IH consider (had) "st_received_settings st'" "\<exists>g \<in> set fs. fcmd g = Syn \<and> fsid g = sid"
      | (got) pre h post g where "fs = pre @ h # post" "fcmd h = Settings" "fdata h \<noteq> []"
          "g \<in> set post" "fcmd g = Syn" "fsid g = sid"
      by blast
    then show ?thesis
    proof cases
      case had
      with IH on_frame_server(4) [OF server] show ?thesis
        by (auto intro: exI [of _ "[]"] exI [of _ f] exI [of _ fs])
    next
      case got
      with IH show ?thesis by (metis append_Cons)
    qed
  qed
qed

text \<open>
  C11. No stream before the settings. If a server session ever decides to open an incoming
  stream, a non-empty \<open>Settings\<close> frame was received before the \<open>Syn\<close> of that stream; a
  client session never opens incoming streams.
\<close>

theorem stream_only_after_settings:
  assumes "EnsureIncomingStream sid \<in> set (snd (engine_run ord md5 (state_new pf) is_client fs))"
  shows "\<not> is_client \<and> (\<exists>pre f post g. fs = pre @ f # post \<and> fcmd f = Settings \<and> fdata f \<noteq> [] \<and>
    g \<in> set post \<and> fcmd g = Syn \<and> fsid g = sid)"
  using ensure_after_settings [OF assms] by (simp add: state_new_def)

theorem stream_only_after_settings_witness:
  "\<exists>pre f post g. [client_hello id sample_client ''x'', frame_new Syn 3] = pre @ f # post \<and>
     fcmd f = Settings \<and> g \<in> set post \<and> fsid g = 3"
proof -
  have "entry_ok (''client'', ''x'')" by code_simp
  note hello = server_hello [OF iteration_order_id sample_hash_text this sample_factories_ok(1)]
  have syn: "on_frame id sample_md5 \<lparr>st_padding = pf, st_peer_version = 2, st_received_settings = True\<rparr> False
      (frame_new Syn 3) = (\<lparr>st_padding = pf, st_peer_version = 2, st_received_settings = True\<rparr>,
       Inr [EnsureIncomingStream 3])" for pf
    by (simp add: on_frame_def frame_new_def)
  have "EnsureIncomingStream 3 \<in> set (snd (engine_run id sample_md5 (state_new sample_server) False
      [client_hello id sample_client ''x'', frame_new Syn 3]))"
    by (simp add: engine_run_Cons [OF hello] engine_run_Cons [OF syn])
  from stream_only_after_settings [OF this] show ?thesis by blast
qed

text \<open>
  The engine neither loses, invents nor reorders payload: on either side, over any
  sequence of received frames, the data actions are exactly the non-empty \<open>Psh\<close> frames, with
  their stream identifier and their bytes, in the order received.
\<close>

theorem payload_actions_exact:
  "filter is_push (snd (engine_run ord md5 st is_client fs)) =
     map (\<lambda>f. PushStreamData (fsid f) (fdata f)) (filter carries_data fs)"
  by (rule engine_run_induct [where P = "\<lambda>st fs r. filter is_push (snd r) =
        map (\<lambda>f. PushStreamData (fsid f) (fdata f)) (filter carries_data fs)"])
    (auto dest: on_frame_push)

text \<open>
  What a peer can make of the negotiated state. No sequence of received frames changes a
  server's padding scheme, and the peer version a server records is none or one it supports;
  a client's padding scheme always stays one that the scheme parser produced, with the digest
  and \<open>stop\<close> of its own text.
\<close>

theorem negotiated_state_invariant:
  assumes "factory_ok md5 pf"
  shows "st_padding (fst (engine_run ord md5 (state_new pf) False fs)) = pf \<and>
    version_ok (st_peer_version (fst (engine_run ord md5 (state_new pf) False fs))) \<and>
    factory_ok md5 (st_padding (fst (engine_run ord md5 (state_new pf) True fs)))"
  using engine_run_server [of "state_new pf" ord md5 fs] engine_run_client [of md5 "state_new pf" ord fs]
    assms by (simp add: state_new_def version_ok_def)

theorem negotiated_state_invariant_witness:
  "st_padding (fst (engine_run id sample_md5 (state_new sample_server) False
     [frame_with_data UpdatePaddingScheme 0 (as_bytes ''stop=1'')])) = sample_server"
  using negotiated_state_invariant [OF sample_factories_ok(2), of id
      "[frame_with_data UpdatePaddingScheme 0 (as_bytes ''stop=1'')]"] by simp

end
