(* ===== verification/Host.thy ===== *)
theory Host
  imports Engine
begin

text \<open>
  \<open>src/src/runtime/host.rs\<close> and the handlers of \<open>src/src/runtime/mod.rs\<close> that are written
  against it: the engine's actions are carried out on a \<open>ProtocolHost\<close>. The trait is a record
  of operations on the host's state; its contract, that every operation keeps the host's
  invariant, is the locale \<open>host_contract\<close>, in which the handlers are shown to keep it as well.
\<close>

section \<open>The trait\<close>

text \<open>
  \<open>protocol_state()\<close> hands out a shared reference to the engine's state; \<open>h_put_state\<close> stores
  what the engine wrote through it.
\<close>

record 's protocol_host =
  h_is_client :: "'s \<Rightarrow> bool"
  h_protocol_state :: "'s \<Rightarrow> state"
  h_put_state :: "state \<Rightarrow> 's \<Rightarrow> 's"
  h_send_frame :: "frame \<Rightarrow> 's \<Rightarrow> 's \<times> nat io_result"
  h_send_frame_sync :: "frame \<Rightarrow> 's \<Rightarrow> 's \<times> nat io_result"
  h_push_stream_data :: "u32 \<Rightarrow> byte list \<Rightarrow> 's \<Rightarrow> 's \<times> unit io_result"
  h_ensure_incoming_stream :: "u32 \<Rightarrow> 's \<Rightarrow> 's \<times> unit io_result"
  h_close_logical_stream :: "u32 \<Rightarrow> 's \<Rightarrow> 's \<times> unit io_result"
  h_terminate_session :: "u32 \<Rightarrow> string option \<Rightarrow> 's \<Rightarrow> 's \<times> unit io_result"
  h_release_write_buffering :: "'s \<Rightarrow> 's"

section \<open>Carrying out actions\<close>

text \<open>The \<open>?\<close> operator on a call that changed the state: go on, or return the error.\<close>

definition and_then :: "'s \<times> 'a io_result \<Rightarrow> ('s \<Rightarrow> 's \<times> 'b io_result) \<Rightarrow> 's \<times> 'b io_result" where
  "and_then c k = (case c of (s, Inl e) \<Rightarrow> (s, Inl e) | (s, Inr _) \<Rightarrow> k s)"

lemma and_then_simps [simp]:
  "and_then (s, Inl e) k = (s, Inl e)"
  "and_then (s, Inr x) k = k s"
  by (simp_all add: and_then_def)

fun apply_actions :: "'s protocol_host \<Rightarrow> protocol_action list \<Rightarrow> 's \<Rightarrow> 's \<times> unit io_result" where
  "apply_actions h [] s = (s, Inr ())"
| "apply_actions h (SendFrame f # as) s = and_then (h_send_frame h f s) (apply_actions h as)"
| "apply_actions h (SendFrameSync f # as) s = and_then (h_send_frame_sync h f s) (apply_actions h as)"
| "apply_actions h (PushStreamData sid bs # as) s =
     and_then (h_push_stream_data h sid bs s) (apply_actions h as)"
| "apply_actions h (EnsureIncomingStream sid # as) s =
     and_then (h_ensure_incoming_stream h sid s) (apply_actions h as)"
| "apply_actions h (CloseLocalStream sid # as) s =
     and_then (h_close_logical_stream h sid s) (apply_actions h as)"
| "apply_actions h (CloseRemoteStream sid m # as) s =
     and_then (h_terminate_session h sid (Some m) s) (apply_actions h as)"
| "apply_actions h (ReleaseWriteBuffering # as) s = apply_actions h as (h_release_write_buffering h s)"
| "apply_actions h (AlertAndFail m # as) s =
     (fst (h_send_frame_sync h (frame_with_data Alert 0 (as_bytes m)) s), Inl (error_other m))"

definition protocol_on_session_start ::
    "(stringmap \<Rightarrow> stringmap) \<Rightarrow> 's protocol_host \<Rightarrow> 's \<Rightarrow> 's \<times> unit io_result" where
  "protocol_on_session_start ord h s =
     (case on_session_start ord (h_protocol_state h s) (h_is_client h s) PROGRAM_VERSION_NAME of
        Inl e \<Rightarrow> (s, Inl e)
      | Inr as \<Rightarrow> apply_actions h as s)"

definition handle_frame ::
    "(stringmap \<Rightarrow> stringmap) \<Rightarrow> hash_fun \<Rightarrow> 's protocol_host \<Rightarrow> frame \<Rightarrow> 's \<Rightarrow> 's \<times> unit io_result" where
  "handle_frame ord md5 h f s =
     (if fcmd f = Alert then (s, Inl (error_other ''Alert received''))
      else
        (case on_frame ord md5 (h_protocol_state h s) (h_is_client h s) f of
           (st', Inl e) \<Rightarrow> (h_put_state h st' s, Inl e)
         | (st', Inr as) \<Rightarrow> apply_actions h as (h_put_state h st' s)))"

section \<open>The contract\<close>

text \<open>
  The engine never asks to push an empty payload, and to enter an incoming stream only on the
  server, as the one action of its answer.
\<close>

definition action_ok :: "protocol_action \<Rightarrow> bool" where
  "action_ok a \<longleftrightarrow>
     (case a of PushStreamData _ bs \<Rightarrow> bs \<noteq> [] | EnsureIncomingStream _ \<Rightarrow> False | _ \<Rightarrow> True)"

locale host_contract =
  fixes h :: "'s protocol_host"
    and inv :: "'s \<Rightarrow> bool"
  assumes put_state: "inv s \<Longrightarrow> inv (h_put_state h st s)"
    and put_state_is_client: "inv s \<Longrightarrow> h_is_client h (h_put_state h st s) = h_is_client h s"
    and send_frame: "inv s \<Longrightarrow> inv (fst (h_send_frame h f s))"
    and send_frame_sync: "inv s \<Longrightarrow> inv (fst (h_send_frame_sync h f s))"
    and push_stream_data: "inv s \<Longrightarrow> bs \<noteq> [] \<Longrightarrow> inv (fst (h_push_stream_data h sid bs s))"
    and ensure_incoming_stream:
      "inv s \<Longrightarrow> \<not> h_is_client h s \<Longrightarrow> inv (fst (h_ensure_incoming_stream h sid s))"
    and close_logical_stream: "inv s \<Longrightarrow> inv (fst (h_close_logical_stream h sid s))"
    and terminate_session: "inv s \<Longrightarrow> inv (fst (h_terminate_session h sid m s))"
    and release_write_buffering: "inv s \<Longrightarrow> inv (h_release_write_buffering h s)"
begin

lemma and_then_inv:
  "inv (fst c) \<Longrightarrow> (\<And>s. inv s \<Longrightarrow> inv (fst (k s))) \<Longrightarrow> inv (fst (and_then c k))"
  by (cases c; cases "snd c") auto

lemma apply_actions_inv:
  "inv s \<Longrightarrow> list_all action_ok as \<Longrightarrow> inv (fst (apply_actions h as s))"
proof (induction as arbitrary: s)
  case Nil
  then show ?case by simp
next
  case (Cons a as)
  then have IH: "inv s' \<Longrightarrow> inv (fst (apply_actions h as s'))" for s' by simp
  from Cons.prems show ?case
    by (cases a)
      (auto simp: action_ok_def intro!: and_then_inv IH send_frame send_frame_sync push_stream_data
        close_logical_stream terminate_session release_write_buffering)
qed

lemma on_frame_actions_ok:
  assumes "on_frame ord md5 st c f = (st', Inr as)"
  shows "list_all action_ok as \<or> \<not> c \<and> as = [EnsureIncomingStream (fsid f)]"
proof -
  have "list_all action_ok bs" if "on_settings ord st f = (st1, bs)" for st1 bs
    using on_settings_actions [OF that] by (fastforce simp: list_all_iff action_ok_def)
  with assms show ?thesis
    by (auto simp: on_frame_def action_ok_def
        split: command.splits if_splits option.splits prod.splits)
qed

lemma handle_frame_inv:
  assumes "inv s"
  shows "inv (fst (handle_frame ord md5 h f s))"
proof -
  obtain st' as where f: "on_frame ord md5 (h_protocol_state h s) (h_is_client h s) f = (st', Inr as)"
    by (rule on_frame_Inr)
  from on_frame_actions_ok [OF f] f assms show ?thesis
    by (auto simp: handle_frame_def apply_actions_inv put_state put_state_is_client
        intro!: and_then_inv ensure_incoming_stream)
qed

lemma on_session_start_inv:
  assumes "inv s"
  shows "inv (fst (protocol_on_session_start ord h s))"
  using assms
  by (auto simp: protocol_on_session_start_def on_session_start_def intro!: and_then_inv send_frame)

end

end
