(* ===== verification/Pipe.thy ===== *)
theory Pipe
  imports Prelude
begin

text \<open>
  \<open>src/src/proxy/pipe/io_pipe.rs\<close>: the in-memory pipe between the session's receive loop and
  the reader of a stream. The queue of the unbounded channel is part of the pipe's state. A
  read runs in the phases between which the code releases the lock: the fast path, taking the
  receiver, waiting for an event, and finishing. A read that has to wait has the answer
  \<open>None\<close>; it goes on with \<open>read_resume\<close>, or is dropped (\<open>read_cancel\<close>).

  Whether the read deadline fires is an argument of the operations that wait for it.
\<close>

section \<open>State\<close>

datatype pipe_event = PipeData "byte list" | StreamEnd "io_error option"

text \<open>Where the channel's receiver is: in the pipe, with a waiting read, or dropped.\<close>

datatype receiver_place = Present | Taken | Dropped

record pipe_inner =
  pi_closed :: bool
  pi_stream_end_queued :: bool
  pi_read_error :: "io_error option"
  pi_sender :: bool
  pi_receiver :: receiver_place
  pi_queue :: "pipe_event list"
  pi_buffer :: "byte list"

definition pipe :: pipe_inner where
  "pipe = \<lparr>pi_closed = False, pi_stream_end_queued = False, pi_read_error = None, pi_sender = True,
     pi_receiver = Present, pi_queue = [], pi_buffer = []\<rparr>"

definition read_deadline_reached :: io_error where
  "read_deadline_reached = IoError TimedOut ''read deadline reached''"

definition pipe_closed :: io_error where
  "pipe_closed = IoError BrokenPipe ''Pipe closed''"

section \<open>The channel\<close>

definition channel_send :: "pipe_event \<Rightarrow> pipe_inner \<Rightarrow> pipe_inner \<times> bool" where
  "channel_send ev p =
     (if pi_receiver p = Dropped then (p, False) else (p\<lparr>pi_queue := pi_queue p @ [ev]\<rparr>, True))"

text \<open>The next event, \<open>Some None\<close> when every sender is gone, \<open>None\<close> when it has to wait.\<close>

definition channel_recv :: "pipe_inner \<Rightarrow> pipe_inner \<times> pipe_event option option" where
  "channel_recv p =
     (case pi_queue p of
        ev # evs \<Rightarrow> (p\<lparr>pi_queue := evs\<rparr>, Some (Some ev))
      | [] \<Rightarrow> (p, if pi_sender p then None else Some None))"

section \<open>Reading\<close>

datatype fast_step = Return "byte list io_result" | WaitForReceiver | TakeReceiver

definition read_fast :: "nat \<Rightarrow> pipe_inner \<Rightarrow> pipe_inner \<times> fast_step" where
  "read_fast n p =
     (if pi_buffer p \<noteq> [] then
        (let len = min (length (pi_buffer p)) n in
         (p\<lparr>pi_buffer := drop len (pi_buffer p)\<rparr>, Return (Inr (take len (pi_buffer p)))))
      else if pi_closed p \<and> \<not> pi_sender p then
        (case pi_read_error p of
           Some err \<Rightarrow> (p\<lparr>pi_read_error := None\<rparr>, Return (Inl err))
         | None \<Rightarrow> (p, Return (Inr [])))
      else if pi_receiver p \<noteq> Present then (p, WaitForReceiver)
      else (p, TakeReceiver))"

definition take_receiver :: "pipe_inner \<Rightarrow> pipe_inner \<times> unit io_result" where
  "take_receiver p =
     (if pi_receiver p = Present then (p\<lparr>pi_receiver := Taken\<rparr>, Inr ())
      else (p, Inl (IoError BrokenPipe ''Pipe reader already in use'')))"

definition read_finish :: "nat \<Rightarrow> pipe_event option \<Rightarrow> pipe_inner \<Rightarrow> pipe_inner \<times> byte list io_result" where
  "read_finish n res p =
     (let p1 = p\<lparr>pi_receiver := Present\<rparr> in
      case res of
        Some (PipeData xs) \<Rightarrow>
          (let len = min (length xs) n in
           (if len < length xs then p1\<lparr>pi_buffer := pi_buffer p1 @ drop len xs\<rparr> else p1,
            Inr (take len xs)))
      | Some (StreamEnd error) \<Rightarrow>
          (p1\<lparr>pi_closed := True, pi_sender := False\<rparr>,
           case error of Some err \<Rightarrow> Inl err | None \<Rightarrow> Inr [])
      | None \<Rightarrow>
          (case pi_read_error p1 of
             Some err \<Rightarrow> (p1\<lparr>pi_read_error := None\<rparr>, Inl err)
           | None \<Rightarrow> (p1, if \<not> pi_sender p1 then Inr [] else Inl read_deadline_reached)))"

text \<open>The wait of a read that holds the receiver.\<close>

definition read_resume :: "nat \<Rightarrow> bool \<Rightarrow> pipe_inner \<Rightarrow> pipe_inner \<times> byte list io_result option" where
  "read_resume n deadline p =
     (if deadline then (case read_finish n None p of (p', r) \<Rightarrow> (p', Some r))
      else case channel_recv p of
        (p1, None) \<Rightarrow> (p1, None)
      | (p1, Some res) \<Rightarrow> (case read_finish n res p1 of (p', r) \<Rightarrow> (p', Some r)))"

definition pipe_read :: "nat \<Rightarrow> bool \<Rightarrow> pipe_inner \<Rightarrow> pipe_inner \<times> byte list io_result option" where
  "pipe_read n deadline p =
     (case read_fast n p of
        (p1, Return r) \<Rightarrow> (p1, Some r)
      | (p1, WaitForReceiver) \<Rightarrow> (p1, if deadline then Some (Inl read_deadline_reached) else None)
      | (p1, TakeReceiver) \<Rightarrow>
          (case take_receiver p1 of
             (p2, Inl e) \<Rightarrow> (p2, Some (Inl e))
           | (p2, Inr _) \<Rightarrow> read_resume n deadline p2))"

text \<open>Dropping a read that holds the receiver drops the receiver and what is queued in it.\<close>

definition read_cancel :: "pipe_inner \<Rightarrow> pipe_inner" where
  "read_cancel p =
     (if pi_receiver p = Taken then p\<lparr>pi_receiver := Dropped, pi_queue := []\<rparr> else p)"

section \<open>Writing and closing\<close>

definition pipe_write :: "byte list \<Rightarrow> pipe_inner \<Rightarrow> pipe_inner \<times> nat io_result" where
  "pipe_write bs p =
     (if pi_closed p \<or> pi_stream_end_queued p then (p, Inl pipe_closed)
      else if pi_sender p then
        (case channel_send (PipeData bs) p of
           (p', False) \<Rightarrow> (p', Inl (IoError BrokenPipe ''Channel closed: channel closed''))
         | (p', True) \<Rightarrow> (p', Inr (length bs)))
      else (p, Inl pipe_closed))"

definition close_with_error :: "io_error option \<Rightarrow> pipe_inner \<Rightarrow> pipe_inner" where
  "close_with_error error p = p\<lparr>pi_read_error := error, pi_closed := True, pi_sender := False\<rparr>"

definition finish_stream :: "io_error option \<Rightarrow> pipe_inner \<Rightarrow> pipe_inner" where
  "finish_stream error p =
     (if pi_closed p \<or> pi_stream_end_queued p then p
      else
        (let p1 = p\<lparr>pi_stream_end_queued := True\<rparr>;
             (p2, sent) = (if pi_sender p1 then channel_send (StreamEnd error) p1 else (p1, False))
         in if sent then p2 else p2\<lparr>pi_closed := True, pi_sender := False\<rparr>))"

lemmas pipe_defs =
  channel_send_def channel_recv_def read_fast_def take_receiver_def read_finish_def read_resume_def
  pipe_read_def read_cancel_def pipe_write_def close_with_error_def finish_stream_def pipe_def Let_def

section \<open>Invariant and contents\<close>

fun event_data :: "pipe_event \<Rightarrow> byte list" where
  "event_data (PipeData bs) = bs"
| "event_data (StreamEnd _) = []"

definition pipe_data :: "pipe_inner \<Rightarrow> byte list" where
  "pipe_data p = pi_buffer p @ concat (map event_data (pi_queue p))"

text \<open>
  The end of the stream is the last event of the queue, and it is there only once it has been
  announced; a closed pipe has no sender and conversely; a waiting read finds the buffer
  empty; a dropped receiver leaves nothing queued.
\<close>

fun is_end :: "pipe_event \<Rightarrow> bool" where
  "is_end (PipeData _) = False"
| "is_end (StreamEnd _) = True"

definition end_last :: "pipe_event list \<Rightarrow> bool" where
  "end_last evs \<longleftrightarrow> list_all (\<lambda>ev. \<not> is_end ev) (butlast evs)"

definition pipe_inv :: "pipe_inner \<Rightarrow> bool" where
  "pipe_inv p \<longleftrightarrow>
     end_last (pi_queue p) \<and>
     (\<not> pi_stream_end_queued p \<longrightarrow> list_all (\<lambda>ev. \<not> is_end ev) (pi_queue p)) \<and>
     pi_closed p = (\<not> pi_sender p) \<and>
     (pi_receiver p = Taken \<longrightarrow> pi_buffer p = []) \<and>
     (pi_receiver p = Dropped \<longrightarrow> pi_queue p = []) \<and>
     (pi_read_error p \<noteq> None \<longrightarrow> pi_closed p)"

lemma end_last_Cons: "end_last (ev # evs) \<Longrightarrow> end_last evs"
  by (cases evs) (simp_all add: end_last_def)

lemma end_last_snoc: "list_all (\<lambda>ev. \<not> is_end ev) evs \<Longrightarrow> end_last (evs @ [ev])"
  by (simp add: end_last_def)

lemma pipe_inv_new [inv_intros, simp]: "pipe_inv pipe"
  by (simp add: pipe_inv_def pipe_def end_last_def)

lemma pipe_inv_write [inv_intros]: "pipe_inv p \<Longrightarrow> pipe_inv (fst (pipe_write bs p))"
  by (auto simp: pipe_inv_def pipe_write_def channel_send_def end_last_snoc)

lemma pipe_inv_close [inv_intros]: "pipe_inv p \<Longrightarrow> pipe_inv (close_with_error e p)"
  by (auto simp: pipe_inv_def close_with_error_def)

lemma pipe_inv_finish [inv_intros]: "pipe_inv p \<Longrightarrow> pipe_inv (finish_stream e p)"
  by (auto simp: pipe_inv_def finish_stream_def channel_send_def Let_def end_last_snoc)

lemma pipe_inv_cancel [inv_intros]: "pipe_inv p \<Longrightarrow> pipe_inv (read_cancel p)"
  by (auto simp: pipe_inv_def read_cancel_def end_last_def)

lemma pipe_inv_finish_read:
  assumes "pipe_inv p" "pi_receiver p = Taken"
  shows "pipe_inv (fst (read_finish n res p))"
  using assms by (auto simp: pipe_inv_def read_finish_def Let_def split: option.split pipe_event.split)

lemma channel_recv_cases:
  assumes "pipe_inv p" "pi_receiver p = Taken" "channel_recv p = (p1, r)"
  shows "pipe_inv p1" "pi_receiver p1 = Taken"
    "pipe_data p = (case r of Some (Some ev) \<Rightarrow> event_data ev | _ \<Rightarrow> []) @ pipe_data p1"
proof -
  show "pipe_inv p1" "pi_receiver p1 = Taken"
    "pipe_data p = (case r of Some (Some ev) \<Rightarrow> event_data ev | _ \<Rightarrow> []) @ pipe_data p1"
    using assms
    by (cases "pi_queue p"; auto simp: pipe_inv_def channel_recv_def pipe_data_def dest: end_last_Cons)+
qed

text \<open>Finishing a read keeps what it does not return.\<close>

definition got :: "byte list io_result option \<Rightarrow> byte list" where
  "got r = (case r of Some (Inr xs) \<Rightarrow> xs | _ \<Rightarrow> [])"

lemma read_finish_data:
  assumes "pipe_inv p" "pi_receiver p = Taken" "read_finish n res p = (p', r)"
  shows "(case res of Some ev \<Rightarrow> event_data ev | None \<Rightarrow> []) @ pipe_data p = got (Some r) @ pipe_data p'"
    and "length (got (Some r)) \<le> n"
  using assms
  by (auto simp: pipe_inv_def read_finish_def pipe_data_def got_def Let_def
      split: option.splits pipe_event.splits if_splits)

lemma read_resume_data:
  assumes "pipe_inv p" "pi_receiver p = Taken" "read_resume n d p = (p', r)"
  shows "pipe_inv p' \<and> pipe_data p = got r @ pipe_data p' \<and> length (got r) \<le> n"
proof (cases d)
  case True
  with assms(3) obtain q where "read_finish n None p = (p', q)" "r = Some q"
    by (cases "read_finish n None p") (auto simp: read_resume_def)
  with read_finish_data [OF assms(1,2)] pipe_inv_finish_read [OF assms(1,2), of n None] show ?thesis
    by fastforce
next
  case False
  obtain p1 e where recv: "channel_recv p = (p1, e)" by (cases "channel_recv p")
  note c = channel_recv_cases [OF assms(1,2) recv]
  show ?thesis
  proof (cases e)
    case None
    with False recv c assms(3) show ?thesis by (auto simp: read_resume_def got_def)
  next
    case (Some res)
    with False recv assms(3) obtain q where q: "read_finish n res p1 = (p', q)" "r = Some q"
      by (cases "read_finish n res p1") (auto simp: read_resume_def)
    have "pipe_inv p'" using pipe_inv_finish_read [OF c(1,2), of n res] q by simp
    with c(3) read_finish_data [OF c(1,2) q(1)] q(2) Some show ?thesis
      by (cases res) simp_all
  qed
qed

lemma pipe_read_cases:
  obtains (buffered) "pi_buffer p \<noteq> []"
      "pipe_read n d p = (p\<lparr>pi_buffer := drop n (pi_buffer p)\<rparr>, Some (Inr (take n (pi_buffer p))))"
  | (closed) "pi_buffer p = []" "pi_closed p" "\<not> pi_sender p"
      "pipe_read n d p = (p\<lparr>pi_read_error := None\<rparr>,
         Some (case pi_read_error p of Some err \<Rightarrow> Inl err | None \<Rightarrow> Inr []))"
  | (wait) "pi_buffer p = []" "pi_receiver p \<noteq> Present"
      "pipe_read n d p = (p, if d then Some (Inl read_deadline_reached) else None)"
  | (take) "pi_buffer p = []" "pi_receiver p = Present"
      "pipe_read n d p = read_resume n d (p\<lparr>pi_receiver := Taken\<rparr>)"
proof (cases "pi_buffer p = []")
  case False
  moreover have "drop (min (length (pi_buffer p)) n) (pi_buffer p) = drop n (pi_buffer p)"
    "take (min (length (pi_buffer p)) n) (pi_buffer p) = take n (pi_buffer p)"
    by (simp_all add: min_def)
  ultimately show thesis
    by (intro buffered) (simp_all add: pipe_read_def read_fast_def Let_def)
next
  case True
  show thesis
  proof (cases "pi_closed p \<and> \<not> pi_sender p")
    case c: True
    have "p\<lparr>pi_read_error := None\<rparr> = p" if "pi_read_error p = None" using that by simp
    with True c show thesis
      by (cases "pi_read_error p") (auto intro!: closed simp: pipe_read_def read_fast_def)
  next
    case c: False
    then have fast: "read_fast n p = (p, if pi_receiver p \<noteq> Present then WaitForReceiver else TakeReceiver)"
      using True by (cases "pi_closed p") (simp_all add: read_fast_def)
    show thesis
    proof (cases "pi_receiver p = Present")
      case True
      with fast \<open>pi_buffer p = []\<close> show thesis by (intro take) (simp_all add: pipe_read_def take_receiver_def)
    next
      case False
      with fast True show thesis by (intro wait) (simp_all add: pipe_read_def)
    qed
  qed
qed

lemma pipe_read_data:
  assumes "pipe_inv p" "pipe_read n d p = (p', r)"
  shows "pipe_inv p' \<and> pipe_data p = got r @ pipe_data p' \<and> length (got r) \<le> n"
proof (cases rule: pipe_read_cases [of p n d])
  case take
  have "pipe_inv (p\<lparr>pi_receiver := Taken\<rparr>)" "pipe_data (p\<lparr>pi_receiver := Taken\<rparr>) = pipe_data p"
    using assms(1) take by (auto simp: pipe_inv_def pipe_data_def)
  with read_resume_data [of "p\<lparr>pi_receiver := Taken\<rparr>" n d p' r] assms(2) take show ?thesis by simp
next
  case closed
  with assms show ?thesis
    by (auto simp: pipe_inv_def pipe_data_def got_def split: option.splits)
qed (use assms in \<open>auto simp: pipe_inv_def pipe_data_def got_def\<close>)

section \<open>The pipe is a byte queue\<close>

text \<open>
  The contract a stream relies on: accepted writes append, reads take from the front, failed
  operations and waiting reads leave the contents alone.
\<close>

datatype byte_op = Put "byte list" | Get nat bool

fun run_ops ::
    "(byte list \<Rightarrow> 'p \<Rightarrow> 'p \<times> nat io_result) \<Rightarrow> (nat \<Rightarrow> bool \<Rightarrow> 'p \<Rightarrow> 'p \<times> byte list io_result option) \<Rightarrow>
     byte_op list \<Rightarrow> 'p \<Rightarrow> 'p \<times> byte list \<times> byte list" where
  "run_ops put get [] p = (p, [], [])"
| "run_ops put get (Put bs # ops) p =
     (case put bs p of (p1, r) \<Rightarrow> case run_ops put get ops p1 of (p2, w, g) \<Rightarrow>
        (p2, (if is_ok r then bs else []) @ w, g))"
| "run_ops put get (Get n d # ops) p =
     (case get n d p of (p1, r) \<Rightarrow> case run_ops put get ops p1 of (p2, w, g) \<Rightarrow> (p2, w, got r @ g))"

locale byte_pipe =
  fixes contents :: "'p \<Rightarrow> byte list"
    and inv :: "'p \<Rightarrow> bool"
    and put :: "byte list \<Rightarrow> 'p \<Rightarrow> 'p \<times> nat io_result"
    and get :: "nat \<Rightarrow> bool \<Rightarrow> 'p \<Rightarrow> 'p \<times> byte list io_result option"
  assumes put_inv: "inv p \<Longrightarrow> inv (fst (put bs p))"
    and put_contents: "inv p \<Longrightarrow> put bs p = (p', r) \<Longrightarrow>
      contents p' = contents p @ (if is_ok r then bs else [])"
    and get_contents: "inv p \<Longrightarrow> get n d p = (p', q) \<Longrightarrow>
      inv p' \<and> contents p = got q @ contents p' \<and> length (got q) \<le> n"
begin

lemma run_ops_fifo:
  "inv p \<Longrightarrow> run_ops put get ops p = (p', w, g) \<Longrightarrow> inv p' \<and> contents p @ w = g @ contents p'"
proof (induction ops arbitrary: p w g)
  case Nil
  then show ?case by simp
next
  case (Cons op ops)
  show ?case
  proof (cases op)
    case (Put bs)
    obtain p1 r where p1: "put bs p = (p1, r)" by (cases "put bs p")
    obtain w' g' where rest: "run_ops put get ops p1 = (p', w', g')" "w = (if is_ok r then bs else []) @ w'" "g = g'"
      using Cons.prems(2) p1 by (auto simp: Put split: prod.splits)
    have "inv p1" using put_inv [OF Cons.prems(1), of bs] p1 by simp
    from Cons.IH [OF this rest(1)] put_contents [OF Cons.prems(1) p1] rest show ?thesis by simp
  next
    case (Get n d)
    obtain p1 r where p1: "get n d p = (p1, r)" by (cases "get n d p")
    obtain w' g' where rest: "run_ops put get ops p1 = (p', w', g')" "w = w'" "g = got r @ g'"
      using Cons.prems(2) p1 by (auto simp: Get split: prod.splits)
    note c = get_contents [OF Cons.prems(1) p1]
    from Cons.IH [OF _ rest(1)] c rest show ?thesis by simp
  qed
qed

end

text \<open>The next step of the one reader: go on with the read that waits, or start a new one.\<close>

definition pipe_get :: "nat \<Rightarrow> bool \<Rightarrow> pipe_inner \<Rightarrow> pipe_inner \<times> byte list io_result option" where
  "pipe_get n d p = (if pi_receiver p = Taken then read_resume n d p else pipe_read n d p)"

interpretation stream_pipe: byte_pipe pipe_data pipe_inv pipe_write pipe_get
proof
  fix p bs p' r
  assume inv: "pipe_inv p"
  then show "pipe_inv (fst (pipe_write bs p))" by (rule pipe_inv_write)
  assume "pipe_write bs p = (p', r)"
  then show "pipe_data p' = pipe_data p @ (if is_ok r then bs else [])"
    by (auto simp: pipe_write_def channel_send_def pipe_data_def split: if_splits)
next
  fix p n d p' r
  assume "pipe_inv p" "pipe_get n d p = (p', r)"
  then show "pipe_inv p' \<and> pipe_data p = got r @ pipe_data p' \<and> length (got r) \<le> n"
    using read_resume_data [of p n d p' r] pipe_read_data [of p n d p' r]
    by (simp add: pipe_get_def split: if_splits)
qed

section \<open>The end of a stream\<close>

text \<open>A pipe whose end has been queued behind non-empty data, and one whose end has been read.\<close>

definition ending :: "io_error option \<Rightarrow> pipe_inner \<Rightarrow> bool" where
  "ending e p \<longleftrightarrow>
     \<not> pi_closed p \<and> pi_sender p \<and> pi_read_error p = None \<and> pi_receiver p \<noteq> Dropped \<and>
     (pi_receiver p = Taken \<longrightarrow> pi_buffer p = []) \<and>
     (\<exists>ds. pi_queue p = map PipeData ds @ [StreamEnd e] \<and> [] \<notin> set ds)"

definition ended :: "pipe_inner \<Rightarrow> bool" where
  "ended p \<longleftrightarrow>
     pi_closed p \<and> \<not> pi_sender p \<and> pi_read_error p = None \<and> pi_receiver p = Present \<and> pi_buffer p = []"

definition end_result :: "io_error option \<Rightarrow> byte list io_result" where
  "end_result e = (case e of Some err \<Rightarrow> Inl err | None \<Rightarrow> Inr [])"

lemma pipe_get_receive:
  assumes "pi_buffer p = []" "\<not> pi_closed p" "pi_receiver p \<noteq> Dropped" "pi_queue p = ev # evs"
  shows "pipe_get n False p =
    (case read_finish n (Some ev) (p\<lparr>pi_receiver := Taken, pi_queue := evs\<rparr>) of (p', r) \<Rightarrow> (p', Some r))"
proof (cases "pi_receiver p = Taken")
  case True
  with assms show ?thesis
    by (simp add: pipe_get_def read_resume_def channel_recv_def read_finish_def Let_def)
next
  case False
  with assms have "pi_receiver p = Present" by (cases "pi_receiver p") auto
  with assms show ?thesis
    by (simp add: pipe_get_def pipe_read_def read_fast_def take_receiver_def read_resume_def channel_recv_def)
qed

lemma pipe_get_ending:
  assumes "ending e p" "pipe_data p \<noteq> []" "0 < n"
  shows "\<exists>p' xs. pipe_get n False p = (p', Some (Inr xs)) \<and> xs \<noteq> [] \<and> ending e p' \<and>
    pipe_data p = xs @ pipe_data p'"
proof (cases "pi_buffer p = []")
  case False
  with assms(1) have "pi_receiver p = Present" by (cases "pi_receiver p") (auto simp: ending_def)
  with False assms show ?thesis
    by (auto simp: pipe_get_def pipe_read_def read_fast_def ending_def pipe_data_def Let_def min_def)
next
  case True
  from assms(1) obtain ds where ds: "pi_queue p = map PipeData ds @ [StreamEnd e]" "[] \<notin> set ds"
    by (auto simp: ending_def)
  with assms(2) True obtain xs ds' where cons: "ds = xs # ds'"
    by (cases ds) (auto simp: pipe_data_def)
  then have q: "pi_queue p = PipeData xs # map PipeData ds' @ [StreamEnd e]" using ds by simp
  have "\<not> pi_closed p" "pi_receiver p \<noteq> Dropped" using assms(1) by (auto simp: ending_def)
  note get = pipe_get_receive [OF True this q, of n]
  show ?thesis
    using assms(1,3) True q ds cons
    unfolding get by (auto simp: read_finish_def ending_def pipe_data_def Let_def min_def)
qed

lemma pipe_get_end:
  assumes "ending e p" "pipe_data p = []"
  shows "\<exists>p'. pipe_get n False p = (p', Some (end_result e)) \<and> ended p'"
proof -
  from assms obtain ds where ds: "pi_queue p = map PipeData ds @ [StreamEnd e]" "[] \<notin> set ds" "pi_buffer p = []"
    by (auto simp: ending_def pipe_data_def)
  with assms(2) have "ds = []" by (cases ds) (auto simp: pipe_data_def)
  with ds have q: "pi_queue p = StreamEnd e # []" by simp
  have "\<not> pi_closed p" "pi_receiver p \<noteq> Dropped" using assms(1) by (auto simp: ending_def)
  note get = pipe_get_receive [OF ds(3) this q, of n]
  show ?thesis
    using assms(1) ds(3) unfolding get
    by (simp add: read_finish_def ended_def ending_def end_result_def Let_def)
qed

lemma pipe_get_ended: "ended p \<Longrightarrow> pipe_get n d p = (p, Some (Inr []))"
  by (simp add: ended_def pipe_get_def pipe_read_def read_fast_def)

fun read_many :: "nat \<Rightarrow> nat \<Rightarrow> pipe_inner \<Rightarrow> pipe_inner \<times> byte list io_result option list" where
  "read_many n 0 p = (p, [])"
| "read_many n (Suc k) p =
     (case pipe_get n False p of (p1, r) \<Rightarrow> case read_many n k p1 of (p2, rs) \<Rightarrow> (p2, r # rs))"

definition delivers_data :: "byte list io_result option \<Rightarrow> bool" where
  "delivers_data r \<longleftrightarrow> got r \<noteq> []"

lemma ending_drains:
  "ending e p \<Longrightarrow> 0 < n \<Longrightarrow>
   \<exists>k p' rs. read_many n k p = (p', rs) \<and> list_all delivers_data rs \<and>
     concat (map got rs) = pipe_data p \<and> ending e p' \<and> pipe_data p' = []"
proof (induction "length (pipe_data p)" arbitrary: p rule: less_induct)
  case less
  show ?case
  proof (cases "pipe_data p = []")
    case True
    with less.prems show ?thesis by (intro exI [of _ 0] exI [of _ p] exI [of _ "[]"]) simp
  next
    case False
    then obtain p1 xs where p1: "pipe_get n False p = (p1, Some (Inr xs))" "xs \<noteq> []" "ending e p1"
      "pipe_data p = xs @ pipe_data p1"
      using pipe_get_ending [OF less.prems(1) _ less.prems(2)] by blast
    then have "length (pipe_data p1) < length (pipe_data p)" by simp
    then obtain k p' rs where "read_many n k p1 = (p', rs)" "list_all delivers_data rs"
      "concat (map got rs) = pipe_data p1" "ending e p'" "pipe_data p' = []"
      using less.hyps [OF _ p1(3) less.prems(2)] by blast
    with p1 show ?thesis
      by (intro exI [of _ "Suc k"] exI [of _ p'] exI [of _ "Some (Inr xs) # rs"])
        (simp add: delivers_data_def got_def)
  qed
qed

text \<open>A pipe that takes data: not closed, its end not announced, its receiver not lost.\<close>

definition pipe_open :: "pipe_inner \<Rightarrow> bool" where
  "pipe_open p \<longleftrightarrow> pipe_inv p \<and> \<not> pi_closed p \<and> \<not> pi_stream_end_queued p \<and> pi_receiver p \<noteq> Dropped"

definition no_empty_data :: "pipe_inner \<Rightarrow> bool" where
  "no_empty_data p \<longleftrightarrow> PipeData [] \<notin> set (pi_queue p)"

lemma no_end_is_data: "list_all (\<lambda>ev. \<not> is_end ev) evs \<Longrightarrow> evs = map PipeData (map event_data evs)"
proof (induction evs)
  case Nil
  then show ?case by simp
next
  case (Cons ev evs)
  then show ?case by (cases ev) simp_all
qed

lemma finish_stream_open:
  assumes "pipe_open p"
  shows "finish_stream e p = p\<lparr>pi_stream_end_queued := True, pi_queue := pi_queue p @ [StreamEnd e]\<rparr>"
  using assms by (auto simp: pipe_open_def pipe_inv_def finish_stream_def channel_send_def Let_def)

lemma ending_finish:
  assumes "pipe_open p" "no_empty_data p"
  shows "ending e (finish_stream e p)" "pipe_data (finish_stream e p) = pipe_data p"
proof -
  have evs: "pi_queue p = map PipeData (map event_data (pi_queue p))"
    by (rule no_end_is_data) (use assms(1) in \<open>simp add: pipe_open_def pipe_inv_def\<close>)
  moreover have "[] \<notin> set (map event_data (pi_queue p))"
    using assms(2) evs by (metis image_eqI image_set no_empty_data_def)
  ultimately show "ending e (finish_stream e p)"
    using assms(1) unfolding finish_stream_open [OF assms(1)] ending_def
    by (auto simp: pipe_open_def pipe_inv_def intro!: exI [of _ "map event_data (pi_queue p)"])
  show "pipe_data (finish_stream e p) = pipe_data p"
    by (simp add: finish_stream_open [OF assms(1)] pipe_data_def)
qed

section \<open>Properties\<close>

text \<open>
  C6. The pipe is a byte queue. Over any sequence of writes and reads, with reads of any size,
  reads that wait and read deadlines in between, the bytes read so far followed by the bytes
  still in the pipe are exactly the bytes of the accepted writes, in order.
\<close>

theorem pipe_fifo:
  assumes "run_ops pipe_write pipe_get ops pipe = (p', written, read)"
  shows "written = read @ pipe_data p'"
  using stream_pipe.run_ops_fifo [OF pipe_inv_new assms] by (simp add: pipe_data_def pipe_def)

theorem pipe_fifo_witness:
  "\<exists>p'. run_ops pipe_write pipe_get [Put [1, 2, 3], Get 2 False, Put [4], Get 9 False] pipe =
      (p', [1, 2, 3, 4], [1, 2, 3]) \<and> pipe_data p' = [4]"
proof -
  obtain p' where run: "run_ops pipe_write pipe_get [Put [1, 2, 3], Get 2 False, Put [4], Get 9 False] pipe =
      (p', [1, 2, 3, 4], [1, 2, 3])"
    by (simp add: pipe_defs pipe_get_def got_def)
  from pipe_fifo [OF run] run show ?thesis by simp
qed

text \<open>
  The end of a stream is seen after its data. When the peer's end of stream is queued on a
  pipe that takes data, later writes fail; repeated reads return all bytes that were in the
  pipe, each of them at least one, then the end once (the error, or an empty read), and after
  that every read is empty.
\<close>

theorem finish_stream_drains:
  assumes "pipe_open p" "no_empty_data p" "0 < n"
  shows "\<exists>k p1 p2 rs. read_many n k (finish_stream e p) = (p1, rs) \<and> list_all delivers_data rs \<and>
    concat (map got rs) = pipe_data p \<and>
    pipe_get n False p1 = (p2, Some (end_result e)) \<and> (\<forall>m d. pipe_get m d p2 = (p2, Some (Inr []))) \<and>
    (\<forall>bs. pipe_write bs (finish_stream e p) = (finish_stream e p, Inl pipe_closed))"
proof -
  obtain k p1 rs where drained: "read_many n k (finish_stream e p) = (p1, rs)" "list_all delivers_data rs"
    "concat (map got rs) = pipe_data p" "ending e p1" "pipe_data p1 = []"
    using ending_drains [OF ending_finish(1) [OF assms(1,2)] assms(3)] ending_finish(2) [OF assms(1,2)]
    by metis
  moreover obtain p2 where "pipe_get n False p1 = (p2, Some (end_result e))" "ended p2"
    using pipe_get_end [OF drained(4,5)] by blast
  moreover have "pipe_write bs (finish_stream e p) = (finish_stream e p, Inl pipe_closed)" for bs
    by (simp add: finish_stream_open [OF assms(1)] pipe_write_def)
  ultimately show ?thesis using pipe_get_ended by blast
qed

theorem finish_stream_drains_witness:
  "\<exists>k p1 p2 rs. read_many 4 k (finish_stream None (fst (pipe_write [1, 2] pipe))) = (p1, rs) \<and>
     concat (map got rs) = [1, 2] \<and> pipe_get 4 False p1 = (p2, Some (Inr []))"
proof -
  let ?p = "fst (pipe_write [1, 2] pipe)"
  have "pipe_open ?p" "no_empty_data ?p" "pipe_data ?p = [1, 2]"
    by (simp_all add: pipe_open_def no_empty_data_def pipe_inv_def pipe_defs end_last_def pipe_data_def)
  with finish_stream_drains [of ?p 4 None] show ?thesis by (auto simp: end_result_def)
qed

text \<open>
  A read waits only when there is nothing to read: if data is in the pipe and its receiver
  has not been lost, a read into a non-empty buffer returns some of it at once, unless the pipe
  was closed locally.
\<close>

theorem read_finds_data:
  assumes "pipe_inv p" "\<not> pi_closed p" "pi_receiver p \<noteq> Dropped" "no_empty_data p"
    and "pipe_data p \<noteq> []" "0 < n"
  shows "\<exists>p' xs. pipe_get n False p = (p', Some (Inr xs)) \<and> xs \<noteq> []"
proof (cases "pi_buffer p = []")
  case False
  with assms have "pi_receiver p = Present" by (cases "pi_receiver p") (auto simp: pipe_inv_def)
  with False assms(6) show ?thesis by (auto simp: pipe_get_def pipe_read_def read_fast_def Let_def)
next
  case True
  with assms(5) obtain ev evs where q: "pi_queue p = ev # evs" by (cases "pi_queue p") (auto simp: pipe_data_def)
  have data: "\<not> is_end ev"
  proof
    assume "is_end ev"
    then have "event_data ev = []" by (cases ev) simp_all
    moreover have "evs = []"
      using assms(1) q \<open>is_end ev\<close> by (cases evs) (auto simp: pipe_inv_def end_last_def)
    ultimately show False using assms(5) True q by (simp add: pipe_data_def)
  qed
  then obtain xs where "ev = PipeData xs" "xs \<noteq> []"
    using assms(4) q by (cases ev) (auto simp: no_empty_data_def)
  with pipe_get_receive [OF True assms(2,3) q, of n] assms(6) show ?thesis
    by (auto simp: read_finish_def Let_def)
qed

theorem read_finds_data_witness:
  "\<exists>p' xs. pipe_get 1 False (fst (pipe_write [7] pipe)) = (p', Some (Inr xs)) \<and> xs \<noteq> []"
  by (rule read_finds_data)
    (simp_all add: pipe_inv_def end_last_def no_empty_data_def pipe_defs pipe_data_def)

text \<open>
  Dropping a read that waits for data is not recoverable: the channel's receiver goes with
  it, so that every later write fails and every later read waits until its deadline or until
  the pipe is closed.
\<close>

theorem cancelled_read_loses_receiver:
  assumes "pipe_open p" "pi_receiver p = Present" "pipe_read n False p = (p1, None)"
  shows "\<forall>bs. pipe_write bs (read_cancel p1) =
      (read_cancel p1, Inl (IoError BrokenPipe ''Channel closed: channel closed'')) \<and>
    (\<forall>m. pipe_get m False (read_cancel p1) = (read_cancel p1, None))"
proof -
  have p1: "p1 = p\<lparr>pi_receiver := Taken\<rparr>" "pi_buffer p = []"
    using assms
    by (auto simp: pipe_open_def pipe_read_def read_fast_def take_receiver_def read_resume_def
        channel_recv_def Let_def split: if_splits list.splits option.splits prod.splits)
  have "pi_sender p" "\<not> pi_closed p" "\<not> pi_stream_end_queued p"
    using assms(1) by (auto simp: pipe_open_def pipe_inv_def)
  with p1 show ?thesis
    by (simp add: read_cancel_def pipe_write_def channel_send_def pipe_get_def pipe_read_def read_fast_def)
qed

theorem cancelled_read_loses_receiver_witness:
  "snd (pipe_write [1] (read_cancel (fst (pipe_read 4 False pipe)))) =
     Inl (IoError BrokenPipe ''Channel closed: channel closed'')"
proof -
  have "pipe_open pipe" "pi_receiver pipe = Present" "pipe_read 4 False pipe = (fst (pipe_read 4 False pipe), None)"
    by (simp_all add: pipe_open_def) (simp_all add: pipe_defs)
  from cancelled_read_loses_receiver [OF this] show ?thesis by simp
qed

end
