(* ===== verification/Writer.thy ===== *)
theory Writer
  imports Engine
begin

text \<open>
  The writing side of \<open>src/src/runtime/mod.rs\<close>: the writer's state, \<open>write_conn\<close>, which
  splits and pads what it sends according to the padding scheme, and the writer task that
  serialises the frames of a session onto the connection.

  The connection is a sink that records every completed write. Its script says how the next
  writes end, so that a failing write (after any number of delivered bytes) is a value of
  the model; an empty script stands for a connection that keeps accepting writes.
\<close>

section \<open>The connection\<close>

datatype write_outcome = WriteOk | WriteErr nat io_error

record sink =
  sk_written :: "byte list list"
  sk_script :: "write_outcome list"

definition write_all :: "byte list \<Rightarrow> sink \<Rightarrow> sink \<times> unit io_result" where
  "write_all bs sk =
     (case sk_script sk of
        [] \<Rightarrow> (sk\<lparr>sk_written := sk_written sk @ [bs]\<rparr>, Inr ())
      | WriteOk # s \<Rightarrow> (sk\<lparr>sk_written := sk_written sk @ [bs], sk_script := s\<rparr>, Inr ())
      | WriteErr n e # s \<Rightarrow> (sk\<lparr>sk_written := sk_written sk @ [take n bs], sk_script := s\<rparr>, Inl e))"

definition flush :: "sink \<Rightarrow> sink \<times> unit io_result" where
  "flush sk =
     (case sk_script sk of
        [] \<Rightarrow> (sk, Inr ())
      | WriteOk # s \<Rightarrow> (sk\<lparr>sk_script := s\<rparr>, Inr ())
      | WriteErr n e # s \<Rightarrow> (sk\<lparr>sk_script := s\<rparr>, Inl e))"

section \<open>Writer state\<close>

record writer_state =
  ws_send_padding :: bool
  ws_buffering :: bool
  ws_buffer :: "byte list"
  ws_pkt_counter :: u32

definition writer_state_new :: "bool \<Rightarrow> writer_state" where
  "writer_state_new is_client =
     \<lparr>ws_send_padding = is_client, ws_buffering = False, ws_buffer = [], ws_pkt_counter = 0\<rparr>"

definition disable_send_padding :: "writer_state \<Rightarrow> writer_state" where
  "disable_send_padding ws = ws\<lparr>ws_send_padding := False\<rparr>"

definition set_buffering :: "bool \<Rightarrow> writer_state \<Rightarrow> writer_state" where
  "set_buffering b ws = ws\<lparr>ws_buffering := b\<rparr>"

definition append_buffered_bytes :: "byte list \<Rightarrow> writer_state \<Rightarrow> writer_state" where
  "append_buffered_bytes bs ws = ws\<lparr>ws_buffer := ws_buffer ws @ bs\<rparr>"

definition take_buffered_bytes :: "writer_state \<Rightarrow> writer_state \<times> byte list" where
  "take_buffered_bytes ws = (ws\<lparr>ws_buffer := []\<rparr>, ws_buffer ws)"

definition next_packet_counter :: "writer_state \<Rightarrow> writer_state \<times> u32" where
  "next_packet_counter ws =
     (let c = ws_pkt_counter ws + 1 in (ws\<lparr>ws_pkt_counter := c\<rparr>, c))"

lemmas writer_state_defs =
  writer_state_new_def disable_send_padding_def set_buffering_def append_buffered_bytes_def
  take_buffered_bytes_def next_packet_counter_def Let_def

section \<open>Writing one packet\<close>

text \<open>A waste frame built in place: zeros, then the command byte and the length field.\<close>

definition padding_frame :: "nat \<Rightarrow> byte list" where
  "padding_frame n =
     (let buf = replicate (HEADER_OVERHEAD_SIZE + n) 0;
          len = put_u16 (word_of_nat n)
      in buf[0 := u8_of_command Waste, 5 := len ! 0, 6 := len ! 1])"

fun pad_loop :: "int list \<Rightarrow> byte list \<Rightarrow> sink \<Rightarrow> sink \<times> byte list io_result" where
  "pad_loop [] bs sk = (sk, Inr bs)"
| "pad_loop (spec # specs) bs sk =
     (if spec = CHECK_MARK then
        (if length bs = 0 then (sk, Inr bs) else pad_loop specs bs sk)
      else
        (let frame_len = nat (max spec 0) in
         if frame_len < length bs then
           (case write_all (take frame_len bs) sk of
              (sk', Inl e) \<Rightarrow> (sk', Inl e)
            | (sk', Inr _) \<Rightarrow> pad_loop specs (drop frame_len bs) sk')
         else if 0 < length bs then
           (let padding_len = frame_len - length bs - HEADER_OVERHEAD_SIZE;
                out = (if 0 < padding_len then bs @ padding_frame padding_len else bs)
            in case write_all out sk of
                 (sk', Inl e) \<Rightarrow> (sk', Inl e)
               | (sk', Inr _) \<Rightarrow> pad_loop specs [] sk')
         else
           (case write_all (padding_frame frame_len) sk of
              (sk', Inl e) \<Rightarrow> (sk', Inl e)
            | (sk', Inr _) \<Rightarrow> pad_loop specs [] sk')))"

definition write_rest :: "byte list \<Rightarrow> nat \<Rightarrow> sink \<Rightarrow> sink \<times> nat io_result" where
  "write_rest bs n sk =
     (case write_all bs sk of (sk', Inl e) \<Rightarrow> (sk', Inl e) | (sk', Inr _) \<Rightarrow> (sk', Inr n))"

definition write_conn ::
    "(u32 \<Rightarrow> rng_fun) \<Rightarrow> byte list \<Rightarrow> state \<Rightarrow> writer_state \<Rightarrow> sink \<Rightarrow>
     writer_state \<times> sink \<times> nat io_result" where
  "write_conn rng bytes st ws sk =
     (if ws_buffering ws then (append_buffered_bytes bytes ws, sk, Inr (length bytes))
      else
        (case take_buffered_bytes ws of (ws1, pending) \<Rightarrow>
         let bytes' = (if pending \<noteq> [] then pending @ bytes else bytes);
             payload_len = length bytes'
         in if ws_send_padding ws1 then
              (case next_packet_counter ws1 of (ws2, pkt) \<Rightarrow>
               if pkt < pf_stop (st_padding st) then
                 (case pad_loop (generate_record_payload_sizes (rng pkt) (st_padding st) pkt) bytes' sk of
                    (sk', Inl e) \<Rightarrow> (ws2, sk', Inl e)
                  | (sk', Inr rest) \<Rightarrow>
                      if rest = [] then (ws2, sk', Inr payload_len)
                      else (ws2, write_rest rest payload_len sk'))
               else (disable_send_padding ws2, write_rest bytes' payload_len sk))
            else (ws1, write_rest bytes' payload_len sk)))"

section \<open>The writer task\<close>

text \<open>
  One frame taken from the channel: write and flush it, answer its acknowledgement, and
  report whether the task goes on. The protocol state is the one current at that moment.
\<close>

definition write_failed :: io_error where
  "write_failed = IoError BrokenPipe ''Write failed''"

definition writer_frame ::
    "(u32 \<Rightarrow> rng_fun) \<Rightarrow> state \<Rightarrow> frame \<Rightarrow> writer_state \<Rightarrow> sink \<Rightarrow>
     writer_state \<times> sink \<times> unit io_result" where
  "writer_frame rng st f ws sk =
     (case write_conn rng (frame_to_bytes f) st ws sk of
        (ws', sk', Inl e) \<Rightarrow> (ws', sk', Inl e)
      | (ws', sk', Inr _) \<Rightarrow> (ws', flush sk'))"

definition ack_result :: "unit io_result \<Rightarrow> unit io_result" where
  "ack_result r = (if is_ok r then Inr () else Inl write_failed)"

text \<open>
  The loop over the channel. Each item is the protocol state at that moment, the frame, and
  whether the sender waits for an acknowledgement; the result lists the acknowledgements and
  says whether the task is still running.
\<close>

fun writer_task ::
    "(u32 \<Rightarrow> rng_fun) \<Rightarrow> (state \<times> frame \<times> bool) list \<Rightarrow> writer_state \<Rightarrow> sink \<Rightarrow>
     writer_state \<times> sink \<times> unit io_result list \<times> bool" where
  "writer_task rng [] ws sk = (ws, sk, [], True)"
| "writer_task rng ((st, f, ack) # items) ws sk =
     (case writer_frame rng st f ws sk of (ws', sk', r) \<Rightarrow>
      let acks = (if ack then [ack_result r] else []) in
      if is_ok r then
        (case writer_task rng items ws' sk' of (ws'', sk'', acks', alive) \<Rightarrow>
           (ws'', sk'', acks @ acks', alive))
      else (ws', sk', acks, False))"

section \<open>What reaches the connection\<close>

text \<open>The waste frame built in place is the encoding of a \<open>Waste\<close> frame full of zeros.\<close>

definition waste_frame :: "nat \<Rightarrow> frame" where
  "waste_frame n = frame_with_data Waste 0 (replicate n 0)"

definition is_waste :: "frame \<Rightarrow> bool" where
  "is_waste f \<longleftrightarrow> fcmd f = Waste"

lemma be_bytes_0: "be_bytes k 0 = replicate k 0"
  by (induction k) simp_all

lemma padding_frame_eq: "padding_frame n = frame_to_bytes (waste_frame n)"
proof -
  obtain a b where ab: "put_u16 (word_of_nat n) = [a, b]"
    using length_put_u16 [of "word_of_nat n"]
    by (auto simp: numeral_2_eq_2 length_Suc_conv simp del: length_put_u16)
  have "replicate (7 + n) (0 :: byte) = [0, 0, 0, 0, 0, 0, 0] @ replicate n 0"
    by (simp add: numeral_eq_Suc)
  moreover have "put_u32 0 = [0, 0, 0, 0]"
    by (simp add: put_u32_def be_bytes_0) (simp add: numeral_eq_Suc)
  ultimately show ?thesis
    by (simp add: padding_frame_def waste_frame_def frame_with_data_def frame_to_bytes_def ab Let_def)
qed

lemma length_padding_frame [simp]: "length (padding_frame n) = 7 + n"
  by (simp add: padding_frame_eq waste_frame_def frame_with_data_def)

lemma waste_frame_ok: "n < 65536 \<Longrightarrow> frame_ok (waste_frame n)"
  by (simp add: waste_frame_def frame_with_data_def frame_ok_def command_ok_def command_of_u8_def)

lemma is_waste_waste_frame [simp]: "is_waste (waste_frame n)"
  by (simp add: is_waste_def waste_frame_def frame_with_data_def)

text \<open>The bytes delivered so far.\<close>

definition delivered :: "sink \<Rightarrow> byte list" where
  "delivered sk = concat (sk_written sk)"

lemma write_all_cases:
  obtains (ok) sk' where "write_all bs sk = (sk', Inr ())" "sk_written sk' = sk_written sk @ [bs]"
    "sk_script sk = [] \<longrightarrow> sk_script sk' = []"
  | (err) sk' e n where "write_all bs sk = (sk', Inl e)" "sk_written sk' = sk_written sk @ [take n bs]"
    "sk_script sk \<noteq> []"
proof (cases "sk_script sk")
  case Nil
  with ok [of "sk\<lparr>sk_written := sk_written sk @ [bs]\<rparr>"] show thesis by (simp add: write_all_def)
next
  case (Cons o' s)
  with ok [of "sk\<lparr>sk_written := sk_written sk @ [bs], sk_script := s\<rparr>"] err show thesis
    by (cases o') (simp_all add: write_all_def)
qed

lemma flush_written [simp]: "sk_written (fst (flush sk)) = sk_written sk"
  by (auto simp: flush_def split: list.splits write_outcome.splits)

text \<open>
  One round of the padding loop, without the connection: the chunk it writes and the payload
  it leaves.
\<close>

definition pad_chunk :: "int \<Rightarrow> byte list \<Rightarrow> byte list \<times> byte list" where
  "pad_chunk spec bs =
     (let n = nat (max spec 0); p = n - length bs - HEADER_OVERHEAD_SIZE in
      if n < length bs then (take n bs, drop n bs)
      else if bs = [] then (padding_frame n, [])
      else if 0 < p then (bs @ padding_frame p, []) else (bs, []))"

lemma pad_loop_check:
  "pad_loop (CHECK_MARK # specs) bs sk = (if bs = [] then (sk, Inr bs) else pad_loop specs bs sk)"
  by simp

lemma pad_loop_step:
  "spec \<noteq> CHECK_MARK \<Longrightarrow>
   pad_loop (spec # specs) bs sk =
     (case write_all (fst (pad_chunk spec bs)) sk of
        (sk', Inl e) \<Rightarrow> (sk', Inl e)
      | (sk', Inr _) \<Rightarrow> pad_loop specs (snd (pad_chunk spec bs)) sk')"
  by (simp add: pad_chunk_def Let_def)

declare pad_loop.simps(2) [simp del]

definition waste_ok :: "frame \<Rightarrow> bool" where
  "waste_ok f \<longleftrightarrow> is_waste f \<and> frame_ok f"

lemma pad_chunk_bytes:
  assumes "proper_size spec" "spec \<noteq> CHECK_MARK"
  shows "\<exists>ws. list_all waste_ok ws \<and> (snd (pad_chunk spec bs) = [] \<or> ws = []) \<and>
    fst (pad_chunk spec bs) @ snd (pad_chunk spec bs) = bs @ concat (map frame_to_bytes ws)"
proof -
  define n where "n = nat (max spec 0)"
  define p where "p = n - length bs - HEADER_OVERHEAD_SIZE"
  have "n < 65536" using assms by (auto simp: proper_size_def n_def)
  then have ok: "waste_ok (waste_frame n)" "waste_ok (waste_frame p)"
    by (auto simp: waste_ok_def p_def intro: waste_frame_ok)
  have chunk: "pad_chunk spec bs = (if n < length bs then (take n bs, drop n bs)
      else if bs = [] then (padding_frame n, [])
      else if 0 < p then (bs @ padding_frame p, []) else (bs, []))"
    by (simp add: pad_chunk_def n_def p_def Let_def)
  consider "n < length bs" | "\<not> n < length bs" "bs = []" | "\<not> n < length bs" "bs \<noteq> []" "0 < p"
    | "\<not> n < length bs" "bs \<noteq> []" "p = 0" by blast
  then show ?thesis
  proof cases
    case 1
    then show ?thesis by (intro exI [of _ "[]"]) (simp add: chunk)
  next
    case 2
    then show ?thesis using ok chunk by (intro exI [of _ "[waste_frame n]"]) (simp add: padding_frame_eq)
  next
    case 3
    then show ?thesis using ok by (intro exI [of _ "[waste_frame p]"]) (simp add: chunk padding_frame_eq)
  next
    case 4
    then show ?thesis by (intro exI [of _ "[]"]) (simp add: chunk)
  qed
qed

lemma pad_chunk_Nil: "snd (pad_chunk spec []) = []"
  by (simp add: pad_chunk_def Let_def)

text \<open>
  The padding loop: when no write fails, the bytes written and those left over are the
  payload followed by waste frames, and waste is written only after the whole payload.
\<close>

lemma pad_loop_ConsE:
  assumes "pad_loop (spec # specs) bs sk = (sk', Inr rest)"
  obtains (stop) "spec = CHECK_MARK" "bs = []" "sk' = sk" "rest = []"
  | (skip) "spec = CHECK_MARK" "bs \<noteq> []" "pad_loop specs bs sk = (sk', Inr rest)"
  | (step) sk1 where "spec \<noteq> CHECK_MARK" "sk_written sk1 = sk_written sk @ [fst (pad_chunk spec bs)]"
      "pad_loop specs (snd (pad_chunk spec bs)) sk1 = (sk', Inr rest)"
proof (cases "spec = CHECK_MARK")
  case True
  with assms stop skip show thesis by (auto simp: pad_loop_check split: if_splits)
next
  case False
  from write_all_cases [of "fst (pad_chunk spec bs)" sk] show thesis
    using assms False step by cases (auto simp: pad_loop_step)
qed

lemma pad_loop_rest_Nil: "pad_loop specs [] sk = (sk', Inr rest) \<Longrightarrow> rest = []"
proof (induction specs arbitrary: sk)
  case Nil
  then show ?case by simp
next
  case (Cons spec specs)
  from Cons.prems show ?case
    by (cases rule: pad_loop_ConsE) (auto simp: pad_chunk_Nil dest: Cons.IH)
qed

lemma pad_loop_Inr:
  assumes "pad_loop specs bs sk = (sk', Inr rest)" "list_all proper_size specs"
  shows "\<exists>ws. list_all waste_ok ws \<and> (rest = [] \<or> ws = []) \<and>
    delivered sk' @ rest = delivered sk @ bs @ concat (map frame_to_bytes ws)"
  using assms
proof (induction specs arbitrary: bs sk)
  case Nil
  then show ?case by (intro exI [of _ "[]"]) simp
next
  case (Cons spec specs)
  from Cons.prems(1) show ?case
  proof (cases rule: pad_loop_ConsE)
    case stop
    then show ?thesis by (intro exI [of _ "[]"]) simp
  next
    case skip
    with Cons show ?thesis by simp
  next
    case (step sk1)
    let ?c = "fst (pad_chunk spec bs)" and ?r = "snd (pad_chunk spec bs)"
    have d: "delivered sk1 = delivered sk @ ?c" by (simp add: delivered_def step)
    obtain ws where ws: "list_all waste_ok ws" "?r = [] \<or> ws = []"
      "?c @ ?r = bs @ concat (map frame_to_bytes ws)"
      using pad_chunk_bytes [of spec bs] step(1) Cons.prems(2) by auto
    obtain vs where vs: "list_all waste_ok vs" "rest = [] \<or> vs = []"
      "delivered sk' @ rest = delivered sk1 @ ?r @ concat (map frame_to_bytes vs)"
      using Cons.IH [OF step(3)] Cons.prems(2) by auto
    have "delivered sk' @ rest = delivered sk @ bs @ concat (map frame_to_bytes (ws @ vs))"
      using vs(3) d ws(2,3) by auto
    moreover have "rest = [] \<or> ws @ vs = []"
      using ws(2) vs(2) step(3) pad_loop_rest_Nil by auto
    ultimately show ?thesis
      using ws(1) vs(1) by (intro exI [of _ "ws @ vs"]) simp
  qed
qed

text \<open>However a write fails, what was delivered is a prefix of payload and waste frames.\<close>

lemma pad_loop_prefix:
  assumes "list_all proper_size specs"
  shows "\<exists>ws t. list_all waste_ok ws \<and>
    delivered (fst (pad_loop specs bs sk)) @ t = delivered sk @ bs @ concat (map frame_to_bytes ws)"
  using assms
proof (induction specs arbitrary: bs sk)
  case Nil
  then show ?case by (intro exI [of _ "[]"] exI [of _ bs]) simp
next
  case (Cons spec specs)
  show ?case
  proof (cases "spec = CHECK_MARK")
    case True
    have "\<exists>ws t. list_all waste_ok ws \<and> delivered sk @ t = delivered sk @ bs @ concat (map frame_to_bytes ws)"
      by (intro exI [of _ "[]"] exI [of _ bs]) simp
    with True Cons show ?thesis by (simp add: pad_loop_check)
  next
    case False
    let ?c = "fst (pad_chunk spec bs)" and ?r = "snd (pad_chunk spec bs)"
    obtain ws where ws: "list_all waste_ok ws" "?r = [] \<or> ws = []"
      "?c @ ?r = bs @ concat (map frame_to_bytes ws)"
      using pad_chunk_bytes [of spec bs] False Cons.prems by auto
    from write_all_cases [of ?c sk] show ?thesis
    proof cases
      case (ok sk1)
      then have d: "delivered sk1 = delivered sk @ ?c" by (simp add: delivered_def)
      obtain vs t where vs: "list_all waste_ok vs"
        "delivered (fst (pad_loop specs ?r sk1)) @ t = delivered sk1 @ ?r @ concat (map frame_to_bytes vs)"
        using Cons.IH [of ?r sk1] Cons.prems by auto
      have "delivered (fst (pad_loop specs ?r sk1)) @ t =
          delivered sk @ bs @ concat (map frame_to_bytes (ws @ vs))"
        using vs(2) d ws(3) by (metis append.assoc concat_append map_append)
      then show ?thesis
        using ok ws(1) vs(1) False
        by (intro exI [of _ "ws @ vs"] exI [of _ t]) (simp add: pad_loop_step)
    next
      case (err sk1 e n)
      then have "delivered sk1 @ drop n ?c @ ?r = delivered sk @ ?c @ ?r"
        by (simp add: delivered_def)
      with ws err False show ?thesis
        by (intro exI [of _ ws] exI [of _ "drop n ?c @ ?r"]) (simp add: pad_loop_step)
    qed
  qed
qed

lemma write_rest_prefix: "\<exists>t. delivered (fst (write_rest bs n sk)) @ t = delivered sk @ bs"
proof -
  have "\<exists>t. take n bs @ t = bs" for n by (metis append_take_drop_id)
  with write_all_cases [of bs sk] show ?thesis
    by cases (auto simp: write_rest_def delivered_def)
qed

lemma write_rest_written:
  "write_rest bs n sk = (sk', Inr m) \<Longrightarrow> sk_written sk' = sk_written sk @ [bs]"
  by (cases rule: write_all_cases [of bs sk]) (auto simp: write_rest_def)

lemma write_rest_Inr:
  "write_rest bs n sk = (sk', Inr m) \<Longrightarrow> delivered sk' = delivered sk @ bs \<and> m = n"
  by (cases rule: write_all_cases [of bs sk]) (auto simp: write_rest_def delivered_def)

section \<open>One packet\<close>

lemma write_conn_Inr:
  assumes "write_conn rng bytes st ws sk = (ws', sk', Inr n)"
    and "\<And>pkt. rng_ok (rng pkt)" "scheme_small (pf_scheme (st_padding st))"
  shows "\<exists>vs. list_all waste_ok vs \<and> ws_buffering ws' = ws_buffering ws \<and>
    delivered sk' @ ws_buffer ws' = delivered sk @ ws_buffer ws @ bytes @ concat (map frame_to_bytes vs)"
proof -
  define payload where "payload = ws_buffer ws @ bytes"
  have none: ?thesis if "delivered sk' @ ws_buffer ws' = delivered sk @ payload"
    "ws_buffering ws' = ws_buffering ws"
    using that by (intro exI [of _ "[]"]) (simp add: payload_def)
  show ?thesis
  proof (cases "\<not> ws_buffering ws \<and> ws_send_padding ws \<and> ws_pkt_counter ws + 1 < pf_stop (st_padding st)")
    case False
    with assms(1) none show ?thesis
      by (auto simp: write_conn_def writer_state_defs payload_def split: if_splits dest!: write_rest_Inr)
  next
    case True
    let ?pkt = "ws_pkt_counter ws + 1"
    let ?specs = "generate_record_payload_sizes (rng ?pkt) (st_padding st) ?pkt"
    obtain sk1 r where loop: "pad_loop ?specs payload sk = (sk1, r)" by (cases "pad_loop ?specs payload sk")
    with True assms(1) obtain rest where r: "r = Inr rest"
      by (cases r) (auto simp: write_conn_def writer_state_defs payload_def split: if_splits)
    obtain vs where vs: "list_all waste_ok vs" "rest = [] \<or> vs = []"
      "delivered sk1 @ rest = delivered sk @ payload @ concat (map frame_to_bytes vs)"
      using pad_loop_Inr [OF _ generate_sizes_proper [OF assms(2,3)]] loop r by blast
    have "delivered sk' = delivered sk1 @ rest" "ws_buffer ws' = []" "ws_buffering ws' = ws_buffering ws"
      using True assms(1) loop r
      by (auto simp: write_conn_def writer_state_defs payload_def split: if_splits dest!: write_rest_Inr)
    with vs show ?thesis by (auto simp: payload_def)
  qed
qed

lemma write_conn_prefix:
  assumes "write_conn rng bytes st ws sk = (ws', sk', r)"
    and "\<And>pkt. rng_ok (rng pkt)" "scheme_small (pf_scheme (st_padding st))"
  shows "\<exists>vs t. list_all waste_ok vs \<and>
    delivered sk' @ t = delivered sk @ ws_buffer ws @ bytes @ concat (map frame_to_bytes vs)"
proof (cases r)
  case (Inr n)
  with assms(1) have "write_conn rng bytes st ws sk = (ws', sk', Inr n)" by simp
  from write_conn_Inr [OF this assms(2,3)] show ?thesis by blast
next
  case (Inl e)
  define payload where "payload = ws_buffer ws @ bytes"
  show ?thesis
  proof (cases "ws_send_padding ws \<and> ws_pkt_counter ws + 1 < pf_stop (st_padding st)")
    case False
    with assms(1) Inl obtain n where "write_rest payload n sk = (sk', Inl e)"
      by (auto simp: write_conn_def writer_state_defs payload_def split: if_splits)
    then obtain t where "delivered sk' @ t = delivered sk @ payload"
      using write_rest_prefix [of payload n sk] by auto
    then show ?thesis by (intro exI [of _ "[]"] exI [of _ t]) (simp add: payload_def)
  next
    case True
    let ?pkt = "ws_pkt_counter ws + 1"
    let ?specs = "generate_record_payload_sizes (rng ?pkt) (st_padding st) ?pkt"
    obtain sk1 q where loop: "pad_loop ?specs payload sk = (sk1, q)" by (cases "pad_loop ?specs payload sk")
    note proper = generate_sizes_proper [OF assms(2,3), of ?pkt ?pkt]
    show ?thesis
    proof (cases q)
      case (Inl e')
      with True assms(1) loop \<open>r = Inl e\<close> have "sk' = sk1"
        by (auto simp: write_conn_def writer_state_defs payload_def split: if_splits)
      with pad_loop_prefix [OF proper, of payload sk] loop show ?thesis by (simp add: payload_def)
    next
      case (Inr rest)
      with True assms(1) loop \<open>r = Inl e\<close> obtain n where "write_rest rest n sk1 = (sk', Inl e)"
        by (auto simp: write_conn_def writer_state_defs payload_def split: if_splits)
      then obtain t where "delivered sk' @ t = delivered sk1 @ rest"
        using write_rest_prefix [of rest n sk1] by auto
      with pad_loop_Inr [OF _ proper] loop Inr show ?thesis by (metis payload_def append.assoc)
    qed
  qed
qed

section \<open>The whole task\<close>

lemma flush_delivered [simp]: "delivered (fst (flush sk)) = delivered sk"
  by (simp add: delivered_def)

lemma writer_frame_Inr:
  assumes "writer_frame rng st f ws sk = (ws', sk', Inr ())"
    and "\<And>pkt. rng_ok (rng pkt)" "scheme_small (pf_scheme (st_padding st))"
  shows "\<exists>vs. list_all waste_ok vs \<and> ws_buffering ws' = ws_buffering ws \<and>
    delivered sk' @ ws_buffer ws' = delivered sk @ ws_buffer ws @ concat (map frame_to_bytes (f # vs))"
proof -
  obtain sk1 n where w: "write_conn rng (frame_to_bytes f) st ws sk = (ws', sk1, Inr n)"
    and fl: "flush sk1 = (sk', Inr ())"
    using assms(1) by (auto simp: writer_frame_def split: prod.splits sum.splits)
  from fl flush_delivered [of sk1] have "delivered sk' = delivered sk1" by simp
  with write_conn_Inr [OF w assms(2,3)] show ?thesis by simp
qed

lemma writer_frame_prefix:
  assumes "writer_frame rng st f ws sk = (ws', sk', r)"
    and "\<And>pkt. rng_ok (rng pkt)" "scheme_small (pf_scheme (st_padding st))"
  shows "\<exists>vs t. list_all waste_ok vs \<and>
    delivered sk' @ t = delivered sk @ ws_buffer ws @ concat (map frame_to_bytes (f # vs))"
proof -
  obtain ws1 sk1 q where w: "write_conn rng (frame_to_bytes f) st ws sk = (ws1, sk1, q)"
    by (cases "write_conn rng (frame_to_bytes f) st ws sk") auto
  have "delivered sk' = delivered sk1"
    using assms(1) w flush_delivered [of sk1]
    by (auto simp: writer_frame_def simp del: flush_delivered split: sum.splits)
  with write_conn_prefix [OF w assms(2,3)] show ?thesis by simp
qed

text \<open>
  The frames on the wire are the frames sent with waste frames in between; a task that
  stopped on an error has delivered a prefix of such a sequence.
\<close>

definition item_ok :: "state \<times> frame \<times> bool \<Rightarrow> bool" where
  "item_ok it \<longleftrightarrow>
     scheme_small (pf_scheme (st_padding (fst it))) \<and>
     frame_ok (fst (snd it)) \<and> \<not> is_waste (fst (snd it))"

abbreviation item_frame :: "state \<times> frame \<times> bool \<Rightarrow> frame" where
  "item_frame it \<equiv> fst (snd it)"

definition carries :: "frame list \<Rightarrow> frame list \<Rightarrow> bool" where
  "carries gs fs \<longleftrightarrow> list_all frame_ok gs \<and> filter (\<lambda>g. \<not> is_waste g) gs = fs"

lemma carries_Cons:
  assumes "frame_ok f" "\<not> is_waste f" "list_all waste_ok vs" "carries gs fs"
  shows "carries (f # vs @ gs) (f # fs)"
  using assms by (induction vs) (auto simp: carries_def waste_ok_def)

lemma carries_self: "list_all item_ok items \<Longrightarrow> carries (map item_frame items) (map item_frame items)"
  by (induction items) (auto simp: carries_def item_ok_def)

lemma writer_task_wire:
  assumes "writer_task rng items ws sk = (ws', sk', acks, alive)"
    and "\<And>pkt. rng_ok (rng pkt)" "list_all item_ok items" "\<not> ws_buffering ws"
  shows "\<exists>gs t. carries gs (map item_frame items) \<and>
    delivered sk' @ t = delivered sk @ ws_buffer ws @ concat (map frame_to_bytes gs) \<and>
    (alive \<longrightarrow> t = ws_buffer ws')"
  using assms
proof (induction items arbitrary: ws sk ws' sk' acks alive)
  case Nil
  then show ?case by (intro exI [of _ "[]"] exI [of _ "ws_buffer ws"]) (auto simp: carries_def)
next
  case (Cons it items)
  obtain st f a where it: "it = (st, f, a)" by (cases it)
  have ok: "frame_ok f" "\<not> is_waste f" "scheme_small (pf_scheme (st_padding st))"
    using Cons.prems(3) by (auto simp: it item_ok_def)
  obtain ws1 sk1 r where w: "writer_frame rng st f ws sk = (ws1, sk1, r)"
    by (cases "writer_frame rng st f ws sk") auto
  show ?case
  proof (cases r)
    case (Inl e)
    then have sk': "sk' = sk1" "\<not> alive" using Cons.prems(1) w by (simp_all add: it)
    obtain vs t where vs: "list_all waste_ok vs"
      "delivered sk1 @ t = delivered sk @ ws_buffer ws @ concat (map frame_to_bytes (f # vs))"
      using writer_frame_prefix [OF w Cons.prems(2) ok(3)] by blast
    let ?gs = "f # vs @ map item_frame items"
    have "carries ?gs (map item_frame (it # items))"
      using carries_Cons [OF ok(1,2) vs(1) carries_self] Cons.prems(3) by (simp add: it)
    moreover have "delivered sk1 @ t @ concat (map frame_to_bytes (map item_frame items)) =
        delivered sk @ ws_buffer ws @ concat (map frame_to_bytes ?gs)"
      using arg_cong [OF vs(2), of "\<lambda>x. x @ concat (map frame_to_bytes (map item_frame items))"]
      by simp
    ultimately show ?thesis using sk' by blast
  next
    case (Inr u)
    then obtain acks' where rec: "writer_task rng items ws1 sk1 = (ws', sk', acks', alive)"
      using Cons.prems(1) w by (auto simp: it split: prod.splits)
    obtain vs where vs: "list_all waste_ok vs" "ws_buffering ws1 = ws_buffering ws"
      "delivered sk1 @ ws_buffer ws1 = delivered sk @ ws_buffer ws @ concat (map frame_to_bytes (f # vs))"
      using writer_frame_Inr [OF _ Cons.prems(2) ok(3)] w Inr by fastforce
    obtain gs t where gs: "carries gs (map item_frame items)"
      "delivered sk' @ t = delivered sk1 @ ws_buffer ws1 @ concat (map frame_to_bytes gs)"
      "alive \<longrightarrow> t = ws_buffer ws'"
      using Cons.IH [OF rec Cons.prems(2)] Cons.prems(3,4) vs(2) by auto
    have "delivered sk' @ t = delivered sk @ ws_buffer ws @ concat (map frame_to_bytes (f # vs @ gs))"
      using gs(2) arg_cong [OF vs(3), of "\<lambda>x. x @ concat (map frame_to_bytes gs)"] by simp
    with gs(3) carries_Cons [OF ok(1,2) vs(1) gs(1)] show ?thesis
      by (intro exI [of _ "f # vs @ gs"] exI [of _ t]) (simp add: it)
  qed
qed

section \<open>The sizes an observer sees\<close>

text \<open>
  A written chunk conforms to a size of the scheme: it has that size, or it is a waste frame
  carrying that many bytes, or it is a payload less than a header short of it.
\<close>

definition conforms :: "int \<Rightarrow> byte list \<Rightarrow> bool" where
  "conforms s c \<longleftrightarrow>
     (let n = int (length c) in n = s \<or> n = s + int HEADER_OVERHEAD_SIZE \<or> s - int HEADER_OVERHEAD_SIZE \<le> n \<and> n \<le> s)"

lemma pad_chunk_conforms:
  assumes "proper_size spec" "spec \<noteq> CHECK_MARK"
  shows "conforms spec (fst (pad_chunk spec bs))"
  using assms by (auto simp: conforms_def pad_chunk_def Let_def proper_size_def)

abbreviation record_sizes :: "int list \<Rightarrow> int list" where
  "record_sizes specs \<equiv> filter (\<lambda>s. s \<noteq> CHECK_MARK) specs"

lemma pad_loop_conforms:
  assumes "pad_loop specs bs sk = (sk', Inr rest)" "list_all proper_size specs"
  shows "\<exists>cs. sk_written sk' = sk_written sk @ cs \<and>
    list_all2 conforms (take (length cs) (record_sizes specs)) cs \<and>
    (rest \<noteq> [] \<longrightarrow> length cs = length (record_sizes specs))"
  using assms
proof (induction specs arbitrary: bs sk)
  case Nil
  then show ?case by simp
next
  case (Cons spec specs)
  from Cons.prems(1) show ?case
  proof (cases rule: pad_loop_ConsE)
    case stop
    then show ?thesis by simp
  next
    case skip
    with Cons show ?thesis by simp
  next
    case (step sk1)
    let ?c = "fst (pad_chunk spec bs)"
    obtain cs where cs: "sk_written sk' = sk_written sk1 @ cs"
      "list_all2 conforms (take (length cs) (record_sizes specs)) cs"
      "rest \<noteq> [] \<longrightarrow> length cs = length (record_sizes specs)"
      using Cons.IH [OF step(3)] Cons.prems(2) by auto
    with step pad_chunk_conforms [of spec bs] Cons.prems(2) show ?thesis
      by (intro exI [of _ "?c # cs"]) simp
  qed
qed

section \<open>Writer invariant\<close>

text \<open>
  Nothing turns buffering on, nothing stays in the buffer, and while padding is enabled the
  packet counter is below its largest value, so that counting the next packet cannot wrap.
\<close>

definition writer_inv :: "writer_state \<Rightarrow> bool" where
  "writer_inv ws \<longleftrightarrow>
     \<not> ws_buffering ws \<and> ws_buffer ws = [] \<and>
     (ws_send_padding ws \<longrightarrow> unat (ws_pkt_counter ws) + 1 < 2 ^ 32)"

lemma writer_inv_new [inv_intros]: "writer_inv (writer_state_new c)"
  by (simp add: writer_inv_def writer_state_defs)

lemma writer_inv_write_conn [inv_intros]:
  assumes "writer_inv ws"
  shows "writer_inv (fst (write_conn rng bytes st ws sk))"
proof -
  have lt: "unat c + 1 < 2 ^ 32" if "c < s" for c s :: u32
    using that unat_u32_less [of s] by (simp add: word_less_nat_alt)
  show ?thesis
    using assms lt
    by (auto simp: writer_inv_def write_conn_def writer_state_defs split: prod.splits sum.splits)
qed

lemma writer_inv_task [inv_intros]:
  "writer_inv ws \<Longrightarrow> writer_inv (fst (writer_task rng items ws sk))"
proof (induction rng items ws sk rule: writer_task.induct)
  case (1 rng ws sk)
  then show ?case by simp
next
  case (2 rng st f ack items ws sk)
  obtain ws1 sk1 r where w: "writer_frame rng st f ws sk = (ws1, sk1, r)"
    by (cases "writer_frame rng st f ws sk") auto
  have "ws1 = fst (write_conn rng (frame_to_bytes f) st ws sk)"
    using w by (auto simp: writer_frame_def split: prod.splits sum.splits)
  with "2.prems" have "writer_inv ws1" by (simp add: writer_inv_write_conn)
  with "2.IH" [OF w [symmetric] refl refl] w show ?case
    by (cases r) (auto simp: case_prod_beta)
qed

section \<open>Progress and acknowledgements\<close>

lemma write_all_plain: "sk_script sk = [] \<Longrightarrow> write_all bs sk = (sk\<lparr>sk_written := sk_written sk @ [bs]\<rparr>, Inr ())"
  by (simp add: write_all_def)

lemma pad_loop_plain:
  "sk_script sk = [] \<Longrightarrow> \<exists>sk' rest. pad_loop specs bs sk = (sk', Inr rest) \<and> sk_script sk' = []"
proof (induction specs arbitrary: bs sk)
  case Nil
  then show ?case by simp
next
  case (Cons spec specs)
  then show ?case
    by (cases "spec = CHECK_MARK") (simp_all add: pad_loop_check pad_loop_step write_all_plain)
qed

lemma write_conn_plain:
  assumes "sk_script sk = []"
  shows "\<exists>ws' sk' n. write_conn rng bytes st ws sk = (ws', sk', Inr n) \<and> sk_script sk' = []"
proof -
  have rest: "\<exists>sk'. write_rest bs n sk = (sk', Inr n) \<and> sk_script sk' = []"
    if "sk_script sk = []" for bs n and sk :: sink
    using that by (simp add: write_rest_def write_all_plain)
  let ?pkt = "ws_pkt_counter ws + 1"
  obtain sk1 r where "pad_loop (generate_record_payload_sizes (rng ?pkt) (st_padding st) ?pkt)
      (ws_buffer ws @ bytes) sk = (sk1, Inr r)" "sk_script sk1 = []"
    using pad_loop_plain [OF assms] by blast
  with rest [OF assms, of "ws_buffer ws @ bytes" "length (ws_buffer ws @ bytes)"]
    rest [of sk1 r "length (ws_buffer ws @ bytes)"] assms show ?thesis
    by (auto simp: write_conn_def writer_state_defs)
qed

lemma writer_frame_plain:
  assumes "sk_script sk = []"
  shows "\<exists>ws' sk'. writer_frame rng st f ws sk = (ws', sk', Inr ()) \<and> sk_script sk' = []"
proof -
  obtain ws' sk' n where "write_conn rng (frame_to_bytes f) st ws sk = (ws', sk', Inr n)" "sk_script sk' = []"
    using write_conn_plain [OF assms] by blast
  then show ?thesis by (simp add: writer_frame_def flush_def)
qed

lemma writer_task_plain:
  "sk_script sk = [] \<Longrightarrow>
   \<exists>ws' sk'. writer_task rng items ws sk =
     (ws', sk', replicate (length (filter (\<lambda>it. snd (snd it)) items)) (Inr ()), True)"
proof (induction items arbitrary: ws sk)
  case Nil
  then show ?case by simp
next
  case (Cons it items)
  obtain st f a where it: "it = (st, f, a)" by (cases it)
  obtain ws1 sk1 where w: "writer_frame rng st f ws sk = (ws1, sk1, Inr ())" "sk_script sk1 = []"
    using writer_frame_plain [OF Cons.prems] by blast
  with Cons.IH [OF w(2), of ws1] show ?case by (auto simp: it ack_result_def)
qed

lemma writer_inv_frame [inv_intros]:
  "writer_inv ws \<Longrightarrow> writer_frame rng st f ws sk = (ws', sk', r) \<Longrightarrow> writer_inv ws'"
  using writer_inv_write_conn [of ws rng "frame_to_bytes f" st sk]
  by (auto simp: writer_frame_def split: prod.splits sum.splits)

text \<open>What was written stays written.\<close>

definition grows :: "sink \<Rightarrow> sink \<Rightarrow> bool" where
  "grows sk sk' \<longleftrightarrow> (\<exists>cs. sk_written sk' = sk_written sk @ cs)"

lemma grows_refl [simp]: "grows sk sk"
  by (simp add: grows_def)

lemma grows_trans: "grows a b \<Longrightarrow> grows b c \<Longrightarrow> grows a c"
  by (auto simp: grows_def)

lemma grows_write_all: "write_all bs sk = (sk', r) \<Longrightarrow> grows sk sk'"
  using write_all_cases [of bs sk] by (auto simp: grows_def)

lemma grows_flush: "flush sk = (sk', r) \<Longrightarrow> grows sk sk'"
  using flush_written [of sk] by (simp add: grows_def)

lemma grows_write_rest: "write_rest bs n sk = (sk', r) \<Longrightarrow> grows sk sk'"
  by (auto simp: write_rest_def dest: grows_write_all split: prod.splits sum.splits)

lemma grows_pad_loop: "pad_loop specs bs sk = (sk', r) \<Longrightarrow> grows sk sk'"
proof (induction specs arbitrary: bs sk)
  case Nil
  then show ?case by simp
next
  case (Cons spec specs)
  then show ?case
    by (cases "spec = CHECK_MARK")
      (auto simp: pad_loop_check pad_loop_step dest!: grows_write_all
        intro: grows_trans split: if_splits prod.splits sum.splits)
qed

lemma grows_write_conn: "write_conn rng bytes st ws sk = (ws', sk', r) \<Longrightarrow> grows sk sk'"
  by (auto simp: write_conn_def writer_state_defs dest: grows_pad_loop grows_write_rest
      intro: grows_trans split: if_splits prod.splits sum.splits)

lemma grows_writer_frame: "writer_frame rng st f ws sk = (ws', sk', r) \<Longrightarrow> grows sk sk'"
  by (auto simp: writer_frame_def dest!: grows_write_conn grows_flush
      intro: grows_trans split: prod.splits sum.splits)

text \<open>
  The first \<open>k\<close> items were written and flushed; the acknowledgements are those of these
  items, and a failed one for the item the task stopped at, if its sender waits for one.
\<close>

lemma writer_task_acks:
  assumes "writer_task rng items ws sk = (ws', sk', acks, alive)"
    and "\<And>pkt. rng_ok (rng pkt)" "list_all item_ok items" "writer_inv ws"
  shows "\<exists>k gs t. k \<le> length items \<and> (alive \<longleftrightarrow> k = length items) \<and>
    acks = replicate (length (filter (\<lambda>it. snd (snd it)) (take k items))) (Inr ()) @
      (if \<not> alive \<and> snd (snd (items ! k)) then [Inl write_failed] else []) \<and>
    carries gs (map item_frame (take k items)) \<and>
    delivered sk' = delivered sk @ concat (map frame_to_bytes gs) @ t"
  using assms
proof (induction items arbitrary: ws sk ws' sk' acks alive)
  case Nil
  then show ?case
    by (intro exI [of _ 0] exI [of _ "[]"] exI [of _ "[]"]) (auto simp: carries_def)
next
  case (Cons it items)
  obtain st f a where it: "it = (st, f, a)" by (cases it)
  have ok: "frame_ok f" "\<not> is_waste f" "scheme_small (pf_scheme (st_padding st))"
    using Cons.prems(3) by (auto simp: it item_ok_def)
  have buf: "ws_buffer ws = []" using Cons.prems(4) by (simp add: writer_inv_def)
  obtain ws1 sk1 r where w: "writer_frame rng st f ws sk = (ws1, sk1, r)"
    by (cases "writer_frame rng st f ws sk") auto
  show ?case
  proof (cases r)
    case (Inl e)
    then have "sk' = sk1" "\<not> alive" "acks = (if a then [Inl write_failed] else [])"
      using Cons.prems(1) w by (auto simp: it ack_result_def)
    moreover obtain t where "delivered sk1 = delivered sk @ t"
      using grows_writer_frame [OF w] by (auto simp: grows_def delivered_def)
    ultimately show ?thesis
      by (intro exI [of _ 0] exI [of _ "[]"] exI [of _ t]) (simp add: it carries_def)
  next
    case (Inr u)
    then obtain acks' where rec: "writer_task rng items ws1 sk1 = (ws', sk', acks', alive)"
      and acks: "acks = (if a then [Inr ()] else []) @ acks'"
      using Cons.prems(1) w by (auto simp: it ack_result_def split: prod.splits)
    have inv: "writer_inv ws1" by (rule writer_inv_frame [OF Cons.prems(4) w])
    obtain vs where vs: "list_all waste_ok vs"
      "delivered sk1 = delivered sk @ concat (map frame_to_bytes (f # vs))"
      using writer_frame_Inr [OF _ Cons.prems(2) ok(3)] w Inr buf inv
      by (fastforce simp: writer_inv_def)
    obtain k gs t where k: "k \<le> length items" "alive \<longleftrightarrow> k = length items"
      "acks' = replicate (length (filter (\<lambda>it. snd (snd it)) (take k items))) (Inr ()) @
        (if \<not> alive \<and> snd (snd (items ! k)) then [Inl write_failed] else [])"
      "carries gs (map item_frame (take k items))"
      "delivered sk' = delivered sk1 @ concat (map frame_to_bytes gs) @ t"
      using Cons.IH [OF rec Cons.prems(2) _ inv] Cons.prems(3) by auto
    show ?thesis
      using k acks vs(2) carries_Cons [OF ok(1,2) vs(1) k(4)]
      by (intro exI [of _ "Suc k"] exI [of _ "f # vs @ gs"] exI [of _ t]) (simp add: it)
  qed
qed

section \<open>Properties\<close>

text \<open>
  A list of channel items used by the witnesses: three frames sent while the default scheme
  is active, with a random source that always draws the lower bound.
\<close>

definition sample_rng :: "u32 \<Rightarrow> rng_fun" where
  "sample_rng pkt i lo hi = lo"

definition sample_factory :: padding_factory where
  "sample_factory =
     \<lparr>pf_scheme = [(''stop'', ''3''), (''1'', ''12-12,c,20-30''), (''2'', ''c,40-60'')],
      pf_raw_scheme = as_bytes ''stop=3'', pf_stop = 3, pf_md5 = ''d''\<rparr>"

definition sample_items :: "(state \<times> frame \<times> bool) list" where
  "sample_items =
     [(state_new sample_factory, frame_with_data Settings 0 [1, 2, 3], False),
      (state_new sample_factory, frame_new Syn 1, True),
      (state_new sample_factory, frame_with_data Psh 1 [7, 8], False)]"

lemma sample_rng_ok: "rng_ok (sample_rng pkt)"
  by (simp add: rng_ok_def sample_rng_def)

lemma sample_items_ok: "list_all item_ok sample_items"
  by (simp add: sample_items_def item_ok_def sample_factory_def state_new_def scheme_small_def
      range_small_def parse_i64_def parse_nat_def digit_val_def is_waste_def frame_with_data_def
      frame_new_def frame_ok_def command_ok_def command_of_u8_def)

lemma writer_task_decoded:
  assumes "\<And>pkt. rng_ok (rng pkt)" and "list_all item_ok items"
    and "writer_task rng items (writer_state_new is_client) \<lparr>sk_written = [], sk_script = script\<rparr> =
      (ws', sk', acks, alive)"
    and "concat chunks = delivered sk'"
  shows "\<exists>lost. map item_frame items =
      filter (\<lambda>f. \<not> is_waste f) (fst (decode_reads frame_decode [] chunks)) @ lost \<and>
      (alive \<longrightarrow> lost = [] \<and> snd (decode_reads frame_decode [] chunks) = [])"
proof -
  have inv: "writer_inv ws'"
    using writer_inv_task [OF writer_inv_new] assms(3) by (metis fst_conv)
  obtain gs t where gs: "carries gs (map item_frame items)"
    "delivered sk' @ t = concat (map frame_to_bytes gs)" "alive \<longrightarrow> t = ws_buffer ws'"
    using writer_task_wire [OF assms(3,1,2)]
    by (auto simp: writer_state_defs delivered_def)
  have ok: "list_all frame_ok gs" using gs(1) by (simp add: carries_def)
  have none: "frame_decode [] = None" by code_simp
  have reads: "decode_reads frame_decode [] chunks = decode_all frame_decode (delivered sk')"
    using frame_wire.decode_reads_concat [OF none] assms(4) by simp
  obtain ys where ys: "gs = fst (decode_all frame_decode (delivered sk')) @ ys"
    using frame_wire.decode_all_prefix [OF gs(2) ok] by blast
  have "alive \<longrightarrow> decode_all frame_decode (delivered sk') = (gs, [])"
    using gs inv frame_wire.decode_all_concat [OF ok, of "[]"] none by (auto simp: writer_inv_def)
  then have all: "alive \<longrightarrow> ys = [] \<and> snd (decode_all frame_decode (delivered sk')) = []"
    using ys by (metis append_self_conv fst_conv snd_conv)
  show ?thesis
    using gs(1) ys all unfolding reads carries_def
    by (intro exI [of _ "filter (\<lambda>f. \<not> is_waste f) ys"]) auto
qed

text \<open>
  C7. Padding is transparent. Whatever the connection does, and however the bytes are cut
  into reads, the peer's frame decoder sees, once the waste frames are dropped, a prefix of
  the frames handed to the writer task, in order; when no write failed it sees all of them
  and no byte is left over.
\<close>

theorem writer_transparent:
  assumes "\<And>pkt. rng_ok (rng pkt)" and "list_all item_ok items"
    and "writer_task rng items (writer_state_new is_client) \<lparr>sk_written = [], sk_script = script\<rparr> =
      (ws', sk', acks, alive)"
    and "concat chunks = delivered sk'"
  shows "\<exists>lost. map item_frame items =
      filter (\<lambda>f. \<not> is_waste f) (fst (decode_reads frame_decode [] chunks)) @ lost \<and>
      (alive \<longrightarrow> lost = [] \<and> snd (decode_reads frame_decode [] chunks) = [])"
  by (rule writer_task_decoded [OF assms])

theorem writer_transparent_witness:
  "map item_frame sample_items =
     filter (\<lambda>f. \<not> is_waste f) (fst (decode_reads frame_decode []
       (sk_written (fst (snd (writer_task sample_rng sample_items (writer_state_new True)
         \<lparr>sk_written = [], sk_script = []\<rparr>))))))"
proof -
  let ?run = "writer_task sample_rng sample_items (writer_state_new True) \<lparr>sk_written = [], sk_script = []\<rparr>"
  obtain ws' sk' acks where run: "?run = (ws', sk', acks, True)"
    using writer_task_plain [of "\<lparr>sk_written = [], sk_script = []\<rparr>"] by fastforce
  show ?thesis
    using writer_transparent [OF sample_rng_ok sample_items_ok run, of "sk_written sk'"] run
    by (auto simp: delivered_def)
qed

text \<open>
  C9. A synchronous write that reports success has been delivered. If the writer task
  answered the acknowledgement of some frame with success, then that frame and every frame
  queued before it are decoded by the peer: the acknowledgements are one success for each of
  the first \<open>k\<close> frames that asked for one, followed by at most one failure, and the peer
  decodes at least these \<open>k\<close> frames.
\<close>

theorem writer_acks_sound:
  assumes "\<And>pkt. rng_ok (rng pkt)" and "list_all item_ok items"
    and "writer_task rng items (writer_state_new is_client) \<lparr>sk_written = [], sk_script = script\<rparr> =
      (ws', sk', acks, alive)"
  shows "\<exists>k \<le> length items. (alive \<longleftrightarrow> k = length items) \<and>
    acks = replicate (length (filter (\<lambda>it. snd (snd it)) (take k items))) (Inr ()) @
      (if \<not> alive \<and> snd (snd (items ! k)) then [Inl write_failed] else []) \<and>
    (\<exists>more. filter (\<lambda>f. \<not> is_waste f) (fst (decode_all frame_decode (delivered sk'))) =
      map item_frame (take k items) @ more)"
proof -
  obtain k gs t where k: "k \<le> length items" "alive \<longleftrightarrow> k = length items"
    "acks = replicate (length (filter (\<lambda>it. snd (snd it)) (take k items))) (Inr ()) @
      (if \<not> alive \<and> snd (snd (items ! k)) then [Inl write_failed] else [])"
    "carries gs (map item_frame (take k items))"
    "delivered sk' = concat (map frame_to_bytes gs) @ t"
    using writer_task_acks [OF assms(3,1,2) writer_inv_new] by (auto simp: delivered_def)
  from k(4) have "fst (decode_all frame_decode (delivered sk')) = gs @ fst (decode_all frame_decode t)"
    using frame_wire.decode_all_concat [of gs t] k(5) by (simp add: carries_def)
  with k show ?thesis by (auto simp: carries_def)
qed

theorem writer_acks_sound_witness:
  "fst (snd (snd (writer_task sample_rng sample_items (writer_state_new True)
     \<lparr>sk_written = [], sk_script = []\<rparr>))) = [Inr ()]"
proof -
  let ?run = "writer_task sample_rng sample_items (writer_state_new True) \<lparr>sk_written = [], sk_script = []\<rparr>"
  obtain ws' sk' acks where run: "?run = (ws', sk', acks, True)"
    using writer_task_plain [of "\<lparr>sk_written = [], sk_script = []\<rparr>"] by fastforce
  show ?thesis
    using writer_acks_sound [OF sample_rng_ok sample_items_ok run] run
    by (auto simp: sample_items_def)
qed


lemma sample_sizes:
  "generate_record_payload_sizes (sample_rng 1) sample_factory 1 = [12, CHECK_MARK, 20]"
proof -
  have "show_u32 1 = ''1''" by code_simp
  then show ?thesis
    by (simp add: generate_record_payload_sizes_def sample_factory_def sm_get_def range_sizes_def
        parse_i64_def parse_nat_def digit_val_def sample_rng_def as_i32_id)
qed


text \<open>
  Padding ends. A packet whose number has reached the scheme's \<open>stop\<close>, like every packet
  of a writer that does not pad, is written unchanged in a single write, and the writer never
  pads again.
\<close>

theorem unpadded_packet:
  assumes "writer_inv ws" "\<not> ws_send_padding ws \<or> pf_stop (st_padding st) \<le> ws_pkt_counter ws + 1"
    and "sk_script sk = []"
  shows "\<exists>ws'. write_conn rng bytes st ws sk =
      (ws', sk\<lparr>sk_written := sk_written sk @ [bytes]\<rparr>, Inr (length bytes)) \<and> \<not> ws_send_padding ws'"
  using assms
  by (auto simp: writer_inv_def write_conn_def writer_state_defs write_rest_def write_all_plain)

theorem unpadded_packet_witness:
  "\<exists>ws'. write_conn sample_rng [1, 2, 3] (state_new sample_factory) (writer_state_new False)
     \<lparr>sk_written = [], sk_script = []\<rparr> = (ws', \<lparr>sk_written = [[1, 2, 3]], sk_script = []\<rparr>, Inr 3)"
  using unpadded_packet [OF writer_inv_new, of False "state_new sample_factory"
      "\<lparr>sk_written = [], sk_script = []\<rparr>" sample_rng "[1, 2, 3]"]
  by (auto simp: writer_state_defs)

text \<open>
  The writer's invariant holds whenever the task has processed any frames under any
  outcome of its writes: buffering is off, no bytes are held back, and while padding is
  enabled incrementing the packet counter does not wrap around.
\<close>

theorem writer_task_invariant:
  "let ws = fst (writer_task rng items (writer_state_new is_client) sk) in
     \<not> ws_buffering ws \<and> ws_buffer ws = [] \<and>
     (ws_send_padding ws \<longrightarrow> unat (ws_pkt_counter ws + 1) = unat (ws_pkt_counter ws) + 1)"
  using writer_inv_task [OF writer_inv_new, of rng items is_client sk]
  by (auto simp: writer_inv_def unat_word_ariths Let_def)

theorem writer_task_invariant_witness:
  "unat (ws_pkt_counter (fst (writer_task sample_rng [] (writer_state_new True)
     \<lparr>sk_written = [], sk_script = []\<rparr>)) + 1) = 1"
  using writer_task_invariant [of sample_rng "[]" True "\<lparr>sk_written = [], sk_script = []\<rparr>"]
  by (simp add: writer_state_defs)

end
