(* ===== verification/Session.thy ===== *)
theory Session
  imports Host Pipe Writer
begin

text \<open>
  \<open>src/src/proxy/session/stream.rs\<close> and \<open>src/src/proxy/session/inner.rs\<close>: a session carries
  many streams over one connection. Streams are shared objects (\<open>Arc<Stream>\<close>): they live in a
  heap, the list of all streams the session created, and the session's map takes a stream
  identifier to an address, so that a stream closed and removed from the map is still read by
  whoever holds it.

  The channel to the writer task is the list of the frames it accepted, with a flag for each
  whether its sender waits for the acknowledgement; the script \<open>se_acks\<close> says how the
  acknowledgements of synchronous writes end (an empty script stands for success, \<open>None\<close> for
  a writer task that ended first). A send that waits for room in the bounded channel is a send
  that happens later. Each operation runs without interruption.
\<close>

section \<open>State\<close>

record stream =
  sm_id :: u32
  sm_pipe :: pipe_inner
  sm_closed :: bool
  sm_close_task :: bool

record session =
  se_is_client :: bool
  se_streams :: "(u32 \<times> nat) list"
  se_heap :: "stream list"
  se_next_stream_id :: u32
  se_closed :: bool
  se_started :: bool
  se_idle :: bool
  se_state :: state
  se_writer :: writer_state
  se_has_callback :: bool
  se_callbacks :: "nat list"
  se_frames :: "(frame \<times> bool) list"
  se_tx_closed :: bool
  se_acks :: "unit io_result option list"

definition session_closed :: io_error where
  "session_closed = IoError BrokenPipe ''Session closed''"

definition stream_closed :: io_error where
  "stream_closed = IoError BrokenPipe ''Stream closed''"

definition session_new_with_protocol ::
    "bool \<Rightarrow> bool \<Rightarrow> state \<Rightarrow> writer_state \<Rightarrow> session" where
  "session_new_with_protocol is_client has_callback st ws =
     \<lparr>se_is_client = is_client, se_streams = [], se_heap = [], se_next_stream_id = 0,
      se_closed = False, se_started = False, se_idle = True, se_state = st, se_writer = ws,
      se_has_callback = has_callback, se_callbacks = [], se_frames = [], se_tx_closed = False,
      se_acks = []\<rparr>"

definition new_client_session :: "padding_factory \<Rightarrow> session" where
  "new_client_session pf = session_new_with_protocol True False (state_new pf) (writer_state_new True)"

definition new_server_session :: "padding_factory \<Rightarrow> session" where
  "new_server_session pf = session_new_with_protocol False True (state_new pf) (writer_state_new False)"

definition is_terminated :: "session \<Rightarrow> bool" where
  "is_terminated s \<longleftrightarrow> se_closed s \<or> se_tx_closed s"

definition is_stream_open :: "session \<Rightarrow> bool" where
  "is_stream_open s \<longleftrightarrow> se_streams s \<noteq> []"

definition has_stream_capacity :: "nat \<Rightarrow> session \<Rightarrow> bool" where
  "has_stream_capacity max_streams s \<longleftrightarrow> length (se_streams s) < max_streams"

section \<open>Sending frames\<close>

text \<open>Handing a frame to the channel fails when the writer task has ended.\<close>

definition channel_frame :: "frame \<Rightarrow> bool \<Rightarrow> session \<Rightarrow> session \<times> unit io_result" where
  "channel_frame f ack s =
     (if se_tx_closed s then (s, Inl session_closed)
      else (s\<lparr>se_frames := se_frames s @ [(f, ack)]\<rparr>, Inr ()))"

definition write_frame :: "frame \<Rightarrow> session \<Rightarrow> session \<times> nat io_result" where
  "write_frame f s =
     (case channel_frame f False s of
        (s', Inl e) \<Rightarrow> (s', Inl e) | (s', Inr _) \<Rightarrow> (s', Inr (length (fdata f))))"

definition write_frame_sync :: "frame \<Rightarrow> session \<Rightarrow> session \<times> nat io_result" where
  "write_frame_sync f s =
     (case channel_frame f True s of
        (s', Inl e) \<Rightarrow> (s', Inl e)
      | (s', Inr _) \<Rightarrow>
          (case se_acks s' of
             [] \<Rightarrow> (s', Inr (length (fdata f)))
           | a # as \<Rightarrow>
               (s'\<lparr>se_acks := as\<rparr>,
                case a of
                  None \<Rightarrow> Inl (IoError BrokenPipe ''Writer dropped'')
                | Some (Inl e) \<Rightarrow> Inl e
                | Some (Inr _) \<Rightarrow> Inr (length (fdata f)))))"

section \<open>Streams\<close>

definition stream_new :: "u32 \<Rightarrow> stream" where
  "stream_new sid = \<lparr>sm_id = sid, sm_pipe = pipe, sm_closed = False, sm_close_task = False\<rparr>"

definition upd_stream :: "nat \<Rightarrow> (stream \<Rightarrow> stream) \<Rightarrow> session \<Rightarrow> session" where
  "upd_stream a g s = s\<lparr>se_heap := (se_heap s)[a := g (se_heap s ! a)]\<rparr>"

abbreviation stream_at :: "session \<Rightarrow> nat \<Rightarrow> stream" where
  "stream_at s a \<equiv> se_heap s ! a"

definition stream_read :: "nat \<Rightarrow> nat \<Rightarrow> bool \<Rightarrow> session \<Rightarrow> session \<times> byte list io_result option" where
  "stream_read a n deadline s =
     (case pipe_get n deadline (sm_pipe (stream_at s a)) of
        (p, r) \<Rightarrow> (upd_stream a (\<lambda>x. x\<lparr>sm_pipe := p\<rparr>) s, r))"

definition stream_write :: "nat \<Rightarrow> byte list \<Rightarrow> session \<Rightarrow> session \<times> nat io_result" where
  "stream_write a bs s =
     (if sm_closed (stream_at s a) then (s, Inl stream_closed)
      else
        (case channel_frame (frame_with_data Psh (sm_id (stream_at s a)) bs) False s of
           (s', Inl e) \<Rightarrow> (s', Inl e) | (s', Inr _) \<Rightarrow> (s', Inr (length bs))))"

definition stream_push_data :: "nat \<Rightarrow> byte list \<Rightarrow> session \<Rightarrow> session \<times> nat io_result" where
  "stream_push_data a bs s =
     (if sm_closed (stream_at s a) then (s, Inl stream_closed)
      else
        (case pipe_write bs (sm_pipe (stream_at s a)) of
           (p, r) \<Rightarrow> (upd_stream a (\<lambda>x. x\<lparr>sm_pipe := p\<rparr>) s, r)))"

text \<open>\<open>compare_exchange(false, true)\<close>: whether this call is the one that closed the stream.\<close>

definition mark_closed :: "nat \<Rightarrow> session \<Rightarrow> session \<times> bool" where
  "mark_closed a s =
     (if sm_closed (stream_at s a) then (s, False)
      else (upd_stream a (\<lambda>x. x\<lparr>sm_closed := True\<rparr>) s, True))"

definition remove_from_session :: "nat \<Rightarrow> session \<Rightarrow> session" where
  "remove_from_session a s =
     (let streams = AList.delete (sm_id (stream_at s a)) (se_streams s);
          s1 = s\<lparr>se_streams := streams\<rparr>
      in if streams = [] then s1\<lparr>se_idle := True\<rparr> else s1)"

text \<open>
  Closing locally: the pipe is closed by a task of its own, \<open>sm_close_task\<close>, which runs at some
  later time as \<open>run_close_task\<close>.
\<close>

definition stream_close :: "nat \<Rightarrow> session \<Rightarrow> session \<times> unit io_result" where
  "stream_close a s =
     (case mark_closed a s of
        (s1, False) \<Rightarrow> (s1, Inr ())
      | (s1, True) \<Rightarrow>
          (let s2 = remove_from_session a s1;
               s3 = upd_stream a (\<lambda>x. x\<lparr>sm_close_task := True\<rparr>) s2
           in channel_frame (frame_new Fin (sm_id (stream_at s a))) False s3))"

definition run_close_task :: "nat \<Rightarrow> session \<Rightarrow> session" where
  "run_close_task a s =
     (if sm_close_task (stream_at s a)
      then upd_stream a (\<lambda>x. x\<lparr>sm_pipe := close_with_error None (sm_pipe x), sm_close_task := False\<rparr>) s
      else s)"

definition close_from_peer :: "io_error option \<Rightarrow> nat \<Rightarrow> session \<Rightarrow> session" where
  "close_from_peer error a s =
     (case mark_closed a s of
        (s1, False) \<Rightarrow> s1
      | (s1, True) \<Rightarrow> upd_stream a (\<lambda>x. x\<lparr>sm_pipe := finish_stream error (sm_pipe x)\<rparr>) s1)"

definition close_from_session :: "io_error option \<Rightarrow> nat \<Rightarrow> session \<Rightarrow> session" where
  "close_from_session error a s =
     (case mark_closed a s of
        (s1, False) \<Rightarrow> s1
      | (s1, True) \<Rightarrow> upd_stream a (\<lambda>x. x\<lparr>sm_pipe := finish_stream error (sm_pipe x)\<rparr>) s1)"

definition handshake_failure :: "nat \<Rightarrow> string \<Rightarrow> session \<Rightarrow> session \<times> unit io_result" where
  "handshake_failure a error s =
     (if MIN_PROTOCOL_VERSION \<le> st_peer_version (se_state s)
      then channel_frame (frame_with_data SynAck (sm_id (stream_at s a)) (as_bytes error)) False s
      else (s, Inr ()))"

definition handshake_success :: "nat \<Rightarrow> session \<Rightarrow> session \<times> unit io_result" where
  "handshake_success a s =
     (if MIN_PROTOCOL_VERSION \<le> st_peer_version (se_state s)
      then channel_frame (frame_new SynAck (sm_id (stream_at s a))) False s
      else (s, Inr ()))"

section \<open>The session's map of streams\<close>

definition stream_for_sid :: "u32 \<Rightarrow> session \<Rightarrow> nat option" where
  "stream_for_sid sid s = map_of (se_streams s) sid"

definition remove_stream :: "u32 \<Rightarrow> session \<Rightarrow> session \<times> nat option" where
  "remove_stream sid s =
     (let stream = map_of (se_streams s) sid;
          streams = AList.delete sid (se_streams s);
          s1 = s\<lparr>se_streams := streams\<rparr>
      in (if streams = [] then s1\<lparr>se_idle := True\<rparr> else s1, stream))"

text \<open>Allocate a stream, enter it under its identifier, and leave the idle state.\<close>

definition insert_stream :: "u32 \<Rightarrow> session \<Rightarrow> session \<times> nat" where
  "insert_stream sid s =
     (s\<lparr>se_heap := se_heap s @ [stream_new sid],
        se_streams := AList.update sid (length (se_heap s)) (se_streams s),
        se_idle := False\<rparr>, length (se_heap s))"

definition open_stream :: "nat \<Rightarrow> session \<Rightarrow> session \<times> nat io_result" where
  "open_stream max_streams s =
     (if is_terminated s then (s, Inl session_closed)
      else if se_closed s then (s, Inl session_closed)
      else if max_streams \<le> length (se_streams s)
        then (s, Inl (IoError WouldBlock ''Session stream limit reached''))
      else
        (let sid = se_next_stream_id s + 1; s1 = s\<lparr>se_next_stream_id := sid\<rparr> in
         if sid = 0 then (s1, Inl (error_other ''Stream identifier exhausted''))
         else
           (case insert_stream sid s1 of (s2, a) \<Rightarrow>
            case write_frame (frame_new Syn sid) s2 of
              (s3, Inl e) \<Rightarrow>
                (close_from_session (Some (error_other (message e))) a (fst (remove_stream sid s3)), Inl e)
            | (s3, Inr _) \<Rightarrow> (s3, Inr a))))"

definition create_incoming_stream :: "u32 \<Rightarrow> session \<Rightarrow> session \<times> nat option" where
  "create_incoming_stream sid s =
     (if sid = 0 \<or> is_terminated s then (s, None)
      else
        (case map_of (se_streams s) sid of
           Some a \<Rightarrow> (s, Some a)
         | None \<Rightarrow>
             (case insert_stream sid s of (s1, a) \<Rightarrow>
                (if se_has_callback s1 then s1\<lparr>se_callbacks := se_callbacks s1 @ [a]\<rparr> else s1, Some a))))"

section \<open>The session as a protocol host\<close>

definition push_stream_data :: "u32 \<Rightarrow> byte list \<Rightarrow> session \<Rightarrow> session \<times> unit io_result" where
  "push_stream_data sid bs s =
     (case stream_for_sid sid s of
        None \<Rightarrow> (s, Inr ())
      | Some a \<Rightarrow>
          if sm_closed (stream_at s a) then (s, Inr ())
          else
            (case stream_push_data a bs s of
               (s', Inl e) \<Rightarrow> (s', if sm_closed (stream_at s' a) then Inr () else Inl e)
             | (s', Inr _) \<Rightarrow> (s', Inr ())))"

definition ensure_incoming_stream :: "u32 \<Rightarrow> session \<Rightarrow> session \<times> unit io_result" where
  "ensure_incoming_stream sid s =
     (if sid = 0 then (s, Inl (IoError InvalidData ''SYN cannot use control sid 0''))
      else (fst (create_incoming_stream sid s), Inr ()))"

definition close_logical_stream :: "u32 \<Rightarrow> session \<Rightarrow> session \<times> unit io_result" where
  "close_logical_stream sid s =
     (case remove_stream sid s of
        (s1, Some a) \<Rightarrow> (close_from_peer None a s1, Inr ())
      | (s1, None) \<Rightarrow> (s1, Inr ()))"

definition terminate_session :: "u32 \<Rightarrow> string option \<Rightarrow> session \<Rightarrow> session \<times> unit io_result" where
  "terminate_session sid msg s =
     (case remove_stream sid s of
        (s1, Some a) \<Rightarrow>
          (close_from_peer (map_option (\<lambda>m. error_other (''remote: '' @ m)) msg) a s1, Inr ())
      | (s1, None) \<Rightarrow> (s1, Inr ()))"

definition release_write_buffering :: "session \<Rightarrow> session" where
  "release_write_buffering s = s\<lparr>se_writer := set_buffering False (se_writer s)\<rparr>"

definition session_host :: "session protocol_host" where
  "session_host =
     \<lparr>h_is_client = se_is_client, h_protocol_state = se_state,
      h_put_state = (\<lambda>st s. s\<lparr>se_state := st\<rparr>),
      h_send_frame = write_frame, h_send_frame_sync = write_frame_sync,
      h_push_stream_data = push_stream_data, h_ensure_incoming_stream = ensure_incoming_stream,
      h_close_logical_stream = close_logical_stream, h_terminate_session = terminate_session,
      h_release_write_buffering = release_write_buffering\<rparr>"

section \<open>Starting, receiving, terminating\<close>

definition ensure_started :: "(stringmap \<Rightarrow> stringmap) \<Rightarrow> session \<Rightarrow> session \<times> unit io_result" where
  "ensure_started ord s =
     (if se_started s then (s, Inr ())
      else
        (case protocol_on_session_start ord session_host (s\<lparr>se_started := True\<rparr>) of
           (s', Inl e) \<Rightarrow> (s'\<lparr>se_started := False\<rparr>, Inl e)
         | (s', Inr _) \<Rightarrow> (s', Inr ())))"

fun close_streams :: "nat list \<Rightarrow> session \<Rightarrow> session" where
  "close_streams [] s = s"
| "close_streams (a # as) s = close_streams as (close_from_session None a s)"

definition terminate :: "session \<Rightarrow> session \<times> unit io_result" where
  "terminate s =
     (if se_closed s then (s, Inr ())
      else (close_streams (map snd (se_streams s))
              (s\<lparr>se_closed := True, se_streams := [], se_idle := True\<rparr>), Inr ()))"

text \<open>The inner loop: handle the frames that are complete in the buffer.\<close>

function handle_pending ::
    "(stringmap \<Rightarrow> stringmap) \<Rightarrow> hash_fun \<Rightarrow> byte list \<Rightarrow> session \<Rightarrow>
     session \<times> byte list \<times> unit io_result" where
  "handle_pending ord md5 pending s =
     (case frame_from_bytes pending of
        None \<Rightarrow> (s, pending, Inr ())
      | Some f \<Rightarrow>
          (let pending' = drop (HEADER_OVERHEAD_SIZE + length (fdata f)) pending in
           case handle_frame ord md5 session_host f s of
             (s', Inl e) \<Rightarrow> (s', pending', Inl e)
           | (s', Inr _) \<Rightarrow> handle_pending ord md5 pending' s'))"
  by pat_completeness auto
termination
  by (relation "measure (\<lambda>(ord, md5, pending, s). length pending)")
    (auto dest: frame_from_bytes_SomeD(1))

declare handle_pending.simps [simp del]

text \<open>
  What the receive loop waits for: bytes (none at the end of the connection), an error of the
  read, or the notification that the session was terminated. With no event left it still waits.
\<close>

datatype read_event = ReadBytes "byte list" | ReadFailed io_error | CloseNotified

fun recv_loop ::
    "(stringmap \<Rightarrow> stringmap) \<Rightarrow> hash_fun \<Rightarrow> read_event list \<Rightarrow> byte list \<Rightarrow> session \<Rightarrow>
     session \<times> unit io_result option" where
  "recv_loop ord md5 [] pending s = (s, if se_closed s then Some (Inl session_closed) else None)"
| "recv_loop ord md5 (ev # evs) pending s =
     (if se_closed s then (s, Some (Inl session_closed))
      else case ev of
        CloseNotified \<Rightarrow> (s, Some (Inl session_closed))
      | ReadFailed e \<Rightarrow> (s, Some (Inl e))
      | ReadBytes bs \<Rightarrow>
          if length bs = 0 then (s, Some (Inl (IoError UnexpectedEof ''Connection closed'')))
          else
            (case handle_pending ord md5 (pending @ bs) s of
               (s', _, Inl e) \<Rightarrow> (s', Some (Inl e))
             | (s', pending', Inr _) \<Rightarrow> recv_loop ord md5 evs pending' s'))"

definition run ::
    "(stringmap \<Rightarrow> stringmap) \<Rightarrow> hash_fun \<Rightarrow> read_event list \<Rightarrow> session \<Rightarrow>
     session \<times> unit io_result option" where
  "run ord md5 evs s =
     (case ensure_started ord s of
        (s1, Inl e) \<Rightarrow> (s1, Some (Inl e))
      | (s1, Inr _) \<Rightarrow>
          (case recv_loop ord md5 evs [] s1 of
             (s2, None) \<Rightarrow> (s2, None)
           | (s2, Some r) \<Rightarrow> (fst (terminate s2), Some r)))"

text \<open>\<open>wait_for_idle\<close> returns in exactly the states where this holds.\<close>

definition idle_or_terminated :: "session \<Rightarrow> bool" where
  "idle_or_terminated s \<longleftrightarrow> se_idle s \<or> is_terminated s"

end
