(* ===== verification/Session_Inv.thy ===== *)
theory Session_Inv
  imports Session
begin

text \<open>
  The invariant of a session and the proof that every operation keeps it: one preservation
  lemma per operation, the interpretation of the host contract on the session, which extends
  preservation to the handling of received frames, and the states a session can reach.
\<close>

section \<open>The invariant\<close>

text \<open>A stream that is not closed has a pipe that takes data, and no task that will close it.\<close>

definition stream_inv :: "stream \<Rightarrow> bool" where
  "stream_inv x \<longleftrightarrow>
     pipe_inv (sm_pipe x) \<and> no_empty_data (sm_pipe x) \<and>
     (\<not> sm_closed x \<longrightarrow>
        \<not> pi_closed (sm_pipe x) \<and> \<not> pi_stream_end_queued (sm_pipe x) \<and> \<not> sm_close_task x)"

text \<open>
  The map has one entry per identifier and per stream; an entry leads to an open stream with
  that identifier, which is not the control identifier 0.
\<close>

definition entry_inv :: "stream list \<Rightarrow> u32 \<Rightarrow> nat \<Rightarrow> bool" where
  "entry_inv h k a \<longleftrightarrow> a < length h \<and> sm_id (h ! a) = k \<and> k \<noteq> 0 \<and> \<not> sm_closed (h ! a)"

definition streams_inv :: "(u32 \<times> nat) list \<Rightarrow> stream list \<Rightarrow> bool" where
  "streams_inv ss h \<longleftrightarrow> distinct (map fst ss) \<and> (\<forall>(k, a) \<in> set ss. entry_inv h k a)"

definition session_inv :: "session \<Rightarrow> bool" where
  "session_inv s \<longleftrightarrow>
     streams_inv (se_streams s) (se_heap s) \<and> list_all stream_inv (se_heap s) \<and>
     se_idle s = (se_streams s = []) \<and> (se_closed s \<longrightarrow> se_streams s = [])"

section \<open>Updates of the map and of the heap\<close>

lemma streams_invI:
  "distinct (map fst ss) \<Longrightarrow> (\<And>k a. (k, a) \<in> set ss \<Longrightarrow> entry_inv h k a) \<Longrightarrow> streams_inv ss h"
  by (auto simp: streams_inv_def)

lemma streams_inv_Nil [simp]: "streams_inv [] h"
  by (simp add: streams_inv_def)

lemma streams_invD:
  assumes "streams_inv ss h"
  shows "distinct (map fst ss)" "(k, a) \<in> set ss \<Longrightarrow> entry_inv h k a"
  using assms by (auto simp: streams_inv_def)

lemma entry_inv_upd:
  "entry_inv h k b \<Longrightarrow> (a = b \<Longrightarrow> sm_id x = k \<and> \<not> sm_closed x) \<Longrightarrow> entry_inv (h[a := x]) k b"
  by (cases "a = b") (auto simp: entry_inv_def)

lemma entry_inv_append: "entry_inv h k a \<Longrightarrow> entry_inv (h @ xs) k a"
  by (simp add: entry_inv_def nth_append)

lemma streams_inv_SomeD:
  assumes "streams_inv ss h" "map_of ss k = Some a"
  shows "a < length h" "sm_id (h ! a) = k" "k \<noteq> 0" "\<not> sm_closed (h ! a)"
  using streams_invD(2) [OF assms(1)] map_of_SomeD [OF assms(2)] by (auto simp: entry_inv_def)

lemma streams_inv_distinct_snd:
  assumes "streams_inv ss h"
  shows "distinct (map snd ss)"
proof -
  have "inj_on snd (set ss)"
  proof (rule inj_onI)
    fix x y
    assume "x \<in> set ss" "y \<in> set ss" "snd x = snd y"
    moreover obtain k a l b where "x = (k, a)" "y = (l, b)" by (cases x, cases y)
    ultimately show "x = y"
      using streams_invD(2) [OF assms, of k a] streams_invD(2) [OF assms, of l b]
      by (auto simp: entry_inv_def)
  qed
  then show ?thesis using streams_invD(1) [OF assms] by (simp add: distinct_map)
qed

lemma alist_update_new: "k \<notin> fst ` set ss \<Longrightarrow> AList.update k v ss = ss @ [(k, v)]"
  by (induction ss) auto

lemma set_alist_delete: "set (AList.delete k ss) = {e \<in> set ss. fst e \<noteq> k}"
  by (auto simp: AList.delete_eq)

lemma streams_inv_delete:
  "streams_inv ss h \<Longrightarrow> streams_inv (AList.delete k ss) h"
  by (auto simp: streams_inv_def distinct_delete set_alist_delete)

lemma streams_inv_upd_closed:
  assumes "streams_inv ss h" "sm_id (h ! a) \<notin> fst ` set ss"
  shows "streams_inv ss (h[a := x])"
proof (rule streams_invI)
  show "distinct (map fst ss)" using assms(1) by (rule streams_invD)
  fix k b
  assume e: "(k, b) \<in> set ss"
  note inv = streams_invD(2) [OF assms(1) e]
  then have "a \<noteq> b" using assms(2) e by (force simp: entry_inv_def)
  with inv show "entry_inv (h[a := x]) k b" by (simp add: entry_inv_upd)
qed

lemma streams_inv_upd_same:
  assumes "streams_inv ss h" "a < length h \<Longrightarrow> sm_id x = sm_id (h ! a) \<and> sm_closed x = sm_closed (h ! a)"
  shows "streams_inv ss (h[a := x])"
proof (rule streams_invI)
  show "distinct (map fst ss)" using assms(1) by (rule streams_invD)
  fix k b
  assume "(k, b) \<in> set ss"
  from streams_invD(2) [OF assms(1) this] assms(2) show "entry_inv (h[a := x]) k b"
    by (intro entry_inv_upd) (auto simp: entry_inv_def)
qed

lemma set_alist_update: "set (AList.update k v ss) \<subseteq> insert (k, v) (set ss)"
  by (induction ss) auto

lemma streams_inv_insert:
  assumes "streams_inv ss h" "sid \<noteq> 0"
  shows "streams_inv (AList.update sid (length h) ss) (h @ [stream_new sid])"
proof (rule streams_invI)
  show "distinct (map fst (AList.update sid (length h) ss))"
    using assms(1) by (simp add: distinct_update streams_inv_def)
  fix k a
  assume "(k, a) \<in> set (AList.update sid (length h) ss)"
  then have "(k, a) = (sid, length h) \<or> (k, a) \<in> set ss" using set_alist_update by fastforce
  then show "entry_inv (h @ [stream_new sid]) k a"
    using streams_invD(2) [OF assms(1)] assms(2)
    by (auto simp: entry_inv_append) (simp add: entry_inv_def stream_new_def)
qed

lemma stream_inv_new [simp]: "stream_inv (stream_new sid)"
  by (simp add: stream_inv_def stream_new_def pipe_def pipe_inv_def end_last_def no_empty_data_def)

lemma list_all_upd:
  assumes "list_all P h" "a < length h \<Longrightarrow> P x"
  shows "list_all P (h[a := x])"
  using assms by (cases "a < length h") (auto simp: list_all_length nth_list_update)

lemma list_all_at: "list_all P h \<Longrightarrow> a < length h \<Longrightarrow> P (h ! a)"
  by (simp add: list_all_length)

section \<open>Preservation\<close>

lemma session_inv_new [inv_intros]: "session_inv (session_new_with_protocol c cb st ws)"
  by (simp add: session_inv_def session_new_with_protocol_def streams_inv_def)

text \<open>Operations that touch only the channel keep the rest.\<close>

definition same_streams :: "session \<Rightarrow> session \<Rightarrow> bool" where
  "same_streams s s' \<longleftrightarrow>
     se_streams s' = se_streams s \<and> se_heap s' = se_heap s \<and> se_idle s' = se_idle s \<and>
     se_closed s' = se_closed s"

lemma session_inv_same: "same_streams s s' \<Longrightarrow> session_inv s \<Longrightarrow> session_inv s'"
  by (simp add: same_streams_def session_inv_def)

lemma same_channel_frame: "same_streams s (fst (channel_frame f ack s))"
  by (simp add: same_streams_def channel_frame_def)

lemma same_write_frame: "same_streams s (fst (write_frame f s))"
  by (simp add: same_streams_def write_frame_def channel_frame_def)

lemma same_write_frame_sync: "same_streams s (fst (write_frame_sync f s))"
  by (simp add: same_streams_def write_frame_sync_def channel_frame_def split: list.split)

lemma same_handshake:
  "same_streams s (fst (handshake_success a s))" "same_streams s (fst (handshake_failure a e s))"
  by (simp_all add: same_streams_def handshake_success_def handshake_failure_def channel_frame_def)

lemma same_stream_write: "same_streams s (fst (stream_write a bs s))"
  by (simp add: same_streams_def stream_write_def channel_frame_def)

lemmas same_channel_ops =
  same_channel_frame same_write_frame same_write_frame_sync same_handshake same_stream_write

lemma session_inv_upd_same [inv_intros]:
  assumes "session_inv s"
    and "a < length (se_heap s) \<Longrightarrow> stream_inv (g (stream_at s a)) \<and>
      sm_id (g (stream_at s a)) = sm_id (stream_at s a) \<and>
      sm_closed (g (stream_at s a)) = sm_closed (stream_at s a)"
  shows "session_inv (upd_stream a g s)"
  using assms
  by (auto simp: session_inv_def upd_stream_def intro!: streams_inv_upd_same list_all_upd)

lemma session_inv_upd_closed:
  assumes "session_inv s" "sm_id (stream_at s a) \<notin> fst ` set (se_streams s)"
    and "a < length (se_heap s) \<Longrightarrow> stream_inv (g (stream_at s a))"
  shows "session_inv (upd_stream a g s)"
  using assms
  by (auto simp: session_inv_def upd_stream_def intro!: streams_inv_upd_closed list_all_upd)

lemma stream_inv_at: "session_inv s \<Longrightarrow> a < length (se_heap s) \<Longrightarrow> stream_inv (stream_at s a)"
  by (simp add: session_inv_def list_all_at)

lemma streams_inv_session: "session_inv s \<Longrightarrow> streams_inv (se_streams s) (se_heap s)"
  by (simp add: session_inv_def)

text \<open>Closing a stream that is no longer in the map.\<close>

lemma no_empty_data_finish: "no_empty_data p \<Longrightarrow> no_empty_data (finish_stream e p)"
  by (simp add: no_empty_data_def finish_stream_def channel_send_def Let_def)

lemma stream_inv_finish:
  "stream_inv x \<Longrightarrow> stream_inv (x\<lparr>sm_closed := True, sm_pipe := finish_stream e (sm_pipe x)\<rparr>)"
  by (simp add: stream_inv_def pipe_inv_finish no_empty_data_finish)

lemma close_from_peer_upd:
  "close_from_peer e a s =
     (if sm_closed (stream_at s a) then s
      else upd_stream a (\<lambda>x. x\<lparr>sm_closed := True, sm_pipe := finish_stream e (sm_pipe x)\<rparr>) s)"
  by (cases "a < length (se_heap s)")
    (simp_all add: close_from_peer_def mark_closed_def upd_stream_def list_update_beyond)

lemma close_from_session_eq: "close_from_session = close_from_peer"
  by (intro ext) (simp add: close_from_session_def close_from_peer_def)

lemma session_inv_close_from_peer [inv_intros]:
  assumes "session_inv s" "sm_id (stream_at s a) \<notin> fst ` set (se_streams s)"
  shows "session_inv (close_from_peer e a s)"
  using assms stream_inv_at [OF assms(1)] unfolding close_from_peer_upd
  by (auto intro!: session_inv_upd_closed stream_inv_finish)

text \<open>Removing an entry.\<close>

lemma session_inv_remove_stream [inv_intros]: "session_inv s \<Longrightarrow> session_inv (fst (remove_stream sid s))"
  by (auto simp: session_inv_def remove_stream_def Let_def intro: streams_inv_delete)

lemma remove_stream_fields:
  "se_heap (fst (remove_stream sid s)) = se_heap s"
  "se_streams (fst (remove_stream sid s)) = AList.delete sid (se_streams s)"
  "snd (remove_stream sid s) = map_of (se_streams s) sid"
  by (simp_all add: remove_stream_def Let_def)

lemma session_inv_remove_close:
  assumes "session_inv s" "map_of (se_streams s) sid = Some a"
  shows "session_inv (close_from_peer e a (fst (remove_stream sid s)))"
  using assms streams_inv_SomeD(2) [OF streams_inv_session [OF assms(1)] assms(2)]
  by (intro session_inv_close_from_peer session_inv_remove_stream)
    (auto simp: remove_stream_fields set_alist_delete)

lemma session_inv_close_logical [inv_intros]:
  "session_inv s \<Longrightarrow> session_inv (fst (close_logical_stream sid s))"
  using session_inv_remove_stream [of s sid] session_inv_remove_close [of s sid]
  by (auto simp: close_logical_stream_def remove_stream_fields split: prod.split option.split)
    (metis fst_conv option.distinct(1) option.inject remove_stream_fields(3) snd_conv)+

lemma session_inv_terminate_session [inv_intros]:
  "session_inv s \<Longrightarrow> session_inv (fst (terminate_session sid m s))"
  using session_inv_remove_stream [of s sid] session_inv_remove_close [of s sid]
  by (auto simp: terminate_session_def remove_stream_fields split: prod.split option.split)
    (metis fst_conv option.distinct(1) option.inject remove_stream_fields(3) snd_conv)+

text \<open>Entering a new stream.\<close>

lemma session_inv_insert_stream [inv_intros]:
  "session_inv s \<Longrightarrow> sid \<noteq> 0 \<Longrightarrow> \<not> se_closed s \<Longrightarrow> session_inv (fst (insert_stream sid s))"
  by (auto simp: session_inv_def insert_stream_def streams_inv_insert)

lemma session_inv_next_id [simp]: "session_inv (s\<lparr>se_next_stream_id := k\<rparr>) = session_inv s"
  by (simp add: session_inv_def)

lemma session_inv_open_stream [inv_intros]:
  assumes "session_inv s"
  shows "session_inv (fst (open_stream m s))"
proof -
  define sid where "sid = se_next_stream_id s + 1"
  define s1 where "s1 = s\<lparr>se_next_stream_id := sid\<rparr>"
  have s1: "session_inv s1" using assms by (simp add: session_inv_def s1_def)
  show ?thesis
  proof (cases "is_terminated s \<or> m \<le> length (se_streams s) \<or> sid = 0")
    case True
    with assms s1 show ?thesis
      by (auto simp: open_stream_def sid_def [symmetric] s1_def [symmetric] Let_def)
  next
    case False
    then have open1: "\<not> se_closed s1" "sid \<noteq> 0" by (auto simp: s1_def is_terminated_def)
    obtain s2 a where s2: "insert_stream sid s1 = (s2, a)" by (cases "insert_stream sid s1")
    have i2: "session_inv s2" using session_inv_insert_stream [OF s1 open1(2,1)] s2 by simp
    have a: "map_of (se_streams s2) sid = Some a"
      using s2 by (auto simp: insert_stream_def update_conv)
    obtain s3 r where s3: "write_frame (frame_new Syn sid) s2 = (s3, r)"
      by (cases "write_frame (frame_new Syn sid) s2")
    have same: "same_streams s2 s3" using same_write_frame [of s2 "frame_new Syn sid"] s3 by simp
    then have i3: "session_inv s3" by (rule session_inv_same [OF _ i2])
    have "map_of (se_streams s3) sid = Some a" using a same by (simp add: same_streams_def)
    note closed = session_inv_remove_close [OF i3 this]
    have "open_stream m s = (case r of
        Inl e \<Rightarrow> (close_from_peer (Some (error_other (message e))) a (fst (remove_stream sid s3)), Inl e)
      | Inr _ \<Rightarrow> (s3, Inr a))"
      using False s2 s3
      by (simp add: open_stream_def sid_def [symmetric] s1_def [symmetric] Let_def is_terminated_def
          close_from_session_eq split: sum.split)
    with i3 closed show ?thesis by (simp split: sum.split)
  qed
qed

lemma session_inv_create_incoming [inv_intros]:
  assumes "session_inv s"
  shows "session_inv (fst (create_incoming_stream sid s))"
proof -
  have "session_inv (t\<lparr>se_callbacks := cs\<rparr>)" if "session_inv t" for t cs
    using that by (simp add: session_inv_def)
  with assms session_inv_insert_stream [OF assms, of sid] show ?thesis
    by (cases "insert_stream sid s")
      (auto simp: create_incoming_stream_def is_terminated_def split: option.split)
qed

lemma session_inv_ensure_incoming [inv_intros]:
  "session_inv s \<Longrightarrow> session_inv (fst (ensure_incoming_stream sid s))"
  by (simp add: ensure_incoming_stream_def session_inv_create_incoming)

text \<open>Payload and reads.\<close>

lemma no_empty_data_write: "no_empty_data p \<Longrightarrow> bs \<noteq> [] \<Longrightarrow> no_empty_data (fst (pipe_write bs p))"
  by (auto simp: no_empty_data_def pipe_write_def channel_send_def)

lemma pipe_write_flags:
  "pi_closed (fst (pipe_write bs p)) = pi_closed p"
  "pi_stream_end_queued (fst (pipe_write bs p)) = pi_stream_end_queued p"
  by (auto simp: pipe_write_def channel_send_def)

lemma session_inv_push_data [inv_intros]:
  assumes "session_inv s" "bs \<noteq> []"
  shows "session_inv (fst (stream_push_data a bs s))"
proof (cases "sm_closed (stream_at s a)")
  case True
  with assms show ?thesis by (simp add: stream_push_data_def)
next
  case False
  then show ?thesis
    using assms stream_inv_at [OF assms(1), of a]
    by (auto simp: stream_push_data_def stream_inv_def case_prod_beta pipe_write_flags
        intro!: session_inv_upd_same pipe_inv_write no_empty_data_write)
qed

lemma session_inv_push_stream_data [inv_intros]:
  "session_inv s \<Longrightarrow> bs \<noteq> [] \<Longrightarrow> session_inv (fst (push_stream_data sid bs s))"
  using session_inv_push_data
  by (auto simp: push_stream_data_def split: option.split prod.split sum.split)
    (metis fst_conv)+

lemma read_finish_flags:
  "pi_stream_end_queued (fst (read_finish n res p)) = pi_stream_end_queued p"
  "pi_queue (fst (read_finish n res p)) = pi_queue p"
  "pi_closed (fst (read_finish n None p)) = pi_closed p"
  "\<not> is_end ev \<Longrightarrow> pi_closed (fst (read_finish n (Some ev) p)) = pi_closed p"
  by (auto simp: read_finish_def Let_def split: option.split pipe_event.split)

lemma read_resume_flags:
  "pi_stream_end_queued (fst (read_resume n d p)) = pi_stream_end_queued p"
  "set (pi_queue (fst (read_resume n d p))) \<subseteq> set (pi_queue p)"
  "list_all (\<lambda>ev. \<not> is_end ev) (pi_queue p) \<Longrightarrow> pi_closed (fst (read_resume n d p)) = pi_closed p"
proof -
  show "pi_stream_end_queued (fst (read_resume n d p)) = pi_stream_end_queued p"
    by (cases "pi_queue p") (simp_all add: read_resume_def channel_recv_def case_prod_beta read_finish_flags)
  show "set (pi_queue (fst (read_resume n d p))) \<subseteq> set (pi_queue p)"
    by (cases "pi_queue p") (auto simp: read_resume_def channel_recv_def case_prod_beta read_finish_flags)
  show "list_all (\<lambda>ev. \<not> is_end ev) (pi_queue p) \<Longrightarrow> pi_closed (fst (read_resume n d p)) = pi_closed p"
    by (cases "pi_queue p") (simp_all add: read_resume_def channel_recv_def case_prod_beta read_finish_flags)
qed

lemma pipe_get_flags:
  assumes "pipe_inv p"
  shows "pi_stream_end_queued (fst (pipe_get n d p)) = pi_stream_end_queued p"
    and "no_empty_data p \<Longrightarrow> no_empty_data (fst (pipe_get n d p))"
    and "\<not> pi_stream_end_queued p \<Longrightarrow> pi_closed (fst (pipe_get n d p)) = pi_closed p"
proof -
  have ends: "list_all (\<lambda>ev. \<not> is_end ev) (pi_queue p)" if "\<not> pi_stream_end_queued p"
    using assms that by (simp add: pipe_inv_def)
  note resume = read_resume_flags [where p = p and n = n and d = d]
    read_resume_flags [where p = "p\<lparr>pi_receiver := Taken\<rparr>" and n = n and d = d]
  have "pi_stream_end_queued (fst (pipe_read n d p)) = pi_stream_end_queued p \<and>
      set (pi_queue (fst (pipe_read n d p))) \<subseteq> set (pi_queue p) \<and>
      (\<not> pi_stream_end_queued p \<longrightarrow> pi_closed (fst (pipe_read n d p)) = pi_closed p)"
    by (cases rule: pipe_read_cases [of p n d]) (use resume ends in auto)
  with resume ends show "pi_stream_end_queued (fst (pipe_get n d p)) = pi_stream_end_queued p"
    "no_empty_data p \<Longrightarrow> no_empty_data (fst (pipe_get n d p))"
    "\<not> pi_stream_end_queued p \<Longrightarrow> pi_closed (fst (pipe_get n d p)) = pi_closed p"
    by (auto simp: pipe_get_def no_empty_data_def)
qed

lemma session_inv_stream_read [inv_intros]:
  assumes "session_inv s"
  shows "session_inv (fst (stream_read a n d s))"
proof -
  have "stream_inv (x\<lparr>sm_pipe := fst (pipe_get n d (sm_pipe x))\<rparr>)" if "stream_inv x" for x
    using that pipe_get_flags [of "sm_pipe x" n d]
      stream_pipe.get_contents [of "sm_pipe x" n d "fst (pipe_get n d (sm_pipe x))" "snd (pipe_get n d (sm_pipe x))"]
    by (auto simp: stream_inv_def)
  then show ?thesis
    using assms stream_inv_at [OF assms, of a]
    by (auto simp: stream_read_def case_prod_beta intro!: session_inv_upd_same)
qed

lemma session_inv_read_cancel [inv_intros]:
  assumes "session_inv s"
  shows "session_inv (upd_stream a (\<lambda>x. x\<lparr>sm_pipe := read_cancel (sm_pipe x)\<rparr>) s)"
  using assms stream_inv_at [OF assms, of a]
  by (intro session_inv_upd_same)
    (auto simp: stream_inv_def read_cancel_def no_empty_data_def pipe_inv_def end_last_def)

text \<open>Closing a stream locally, and the task that closes its pipe.\<close>

lemma stream_close_eq:
  assumes "\<not> sm_closed (stream_at s a)"
  shows "stream_close a s =
    channel_frame (frame_new Fin (sm_id (stream_at s a))) False
      (upd_stream a (\<lambda>x. x\<lparr>sm_closed := True, sm_close_task := True\<rparr>)
        (fst (remove_stream (sm_id (stream_at s a)) s)))"
  using assms
  by (cases "a < length (se_heap s)")
    (auto simp: stream_close_def mark_closed_def remove_from_session_def remove_stream_def
      upd_stream_def list_update_beyond Let_def)

lemma session_inv_stream_close [inv_intros]:
  assumes "session_inv s" "a < length (se_heap s)"
  shows "session_inv (fst (stream_close a s))"
proof (cases "sm_closed (stream_at s a)")
  case True
  with assms show ?thesis by (simp add: stream_close_def mark_closed_def)
next
  case False
  let ?s1 = "fst (remove_stream (sm_id (stream_at s a)) s)"
  have "session_inv (upd_stream a (\<lambda>x. x\<lparr>sm_closed := True, sm_close_task := True\<rparr>) ?s1)"
    using assms stream_inv_at [OF assms] session_inv_remove_stream [OF assms(1)]
    by (intro session_inv_upd_closed) (auto simp: remove_stream_fields set_alist_delete stream_inv_def)
  then show ?thesis
    unfolding stream_close_eq [OF False] by (rule session_inv_same [OF same_channel_frame])
qed

lemma session_inv_run_close_task [inv_intros]:
  assumes "session_inv s"
  shows "session_inv (run_close_task a s)"
proof (cases "sm_close_task (stream_at s a)")
  case True
  then show ?thesis
    using assms stream_inv_at [OF assms, of a]
    by (auto simp: run_close_task_def stream_inv_def no_empty_data_def close_with_error_def pipe_inv_def
        intro!: session_inv_upd_same)
next
  case False
  with assms show ?thesis by (simp add: run_close_task_def)
qed

text \<open>Termination of the session.\<close>

lemma session_inv_close_streams:
  "session_inv s \<Longrightarrow> se_streams s = [] \<Longrightarrow> session_inv (close_streams as s)"
proof (induction as s rule: close_streams.induct)
  case (1 s)
  then show ?case by simp
next
  case (2 a as s)
  have "session_inv (close_from_peer None a s)"
    by (rule session_inv_close_from_peer) (use 2 in auto)
  moreover have "se_streams (close_from_peer None a s) = []"
    using 2(3) by (simp add: close_from_peer_upd upd_stream_def)
  ultimately show ?case using 2(1) by (simp add: close_from_session_eq)
qed

lemma session_inv_terminate [inv_intros]: "session_inv s \<Longrightarrow> session_inv (fst (terminate s))"
  by (auto simp: terminate_def session_inv_def intro!: session_inv_close_streams [unfolded session_inv_def])

section \<open>Received frames\<close>

interpretation session_contract: host_contract session_host session_inv
proof
  fix s st f bs sid m
  assume inv: "session_inv s"
  show "h_is_client session_host (h_put_state session_host st s) = h_is_client session_host s"
    by (simp add: session_host_def)
  show "session_inv (h_put_state session_host st s)"
    using inv by (simp add: session_host_def session_inv_def)
  show "session_inv (fst (h_send_frame session_host f s))"
    using inv by (simp add: session_host_def session_inv_same [OF same_write_frame])
  show "session_inv (fst (h_send_frame_sync session_host f s))"
    using inv by (simp add: session_host_def session_inv_same [OF same_write_frame_sync])
  show "bs \<noteq> [] \<Longrightarrow> session_inv (fst (h_push_stream_data session_host sid bs s))"
    using inv by (simp add: session_host_def session_inv_push_stream_data)
  show "session_inv (fst (h_ensure_incoming_stream session_host sid s))"
    using inv by (simp add: session_host_def session_inv_ensure_incoming)
  show "session_inv (fst (h_close_logical_stream session_host sid s))"
    using inv by (simp add: session_host_def session_inv_close_logical)
  show "session_inv (fst (h_terminate_session session_host sid m s))"
    using inv by (simp add: session_host_def session_inv_terminate_session)
  show "session_inv (h_release_write_buffering session_host s)"
    using inv by (simp add: session_host_def release_write_buffering_def session_inv_def)
qed

lemma session_inv_ensure_started [inv_intros]:
  assumes "session_inv s"
  shows "session_inv (fst (ensure_started ord s))"
proof -
  have started: "session_inv (t\<lparr>se_started := b\<rparr>) = session_inv t" for t b
    by (simp add: session_inv_def)
  have "session_inv (fst (protocol_on_session_start ord session_host (s\<lparr>se_started := True\<rparr>)))"
    using assms by (intro session_contract.on_session_start_inv) (simp add: started)
  with assms show ?thesis
    by (auto simp: ensure_started_def started split: prod.split sum.split)
qed

lemma session_inv_handle_pending [inv_intros]:
  "session_inv s \<Longrightarrow> session_inv (fst (handle_pending ord md5 pending s))"
proof (induction ord md5 pending s rule: handle_pending.induct)
  case (1 ord md5 pending s)
  show ?case
  proof (cases "frame_from_bytes pending")
    case None
    with "1.prems" show ?thesis by (simp add: handle_pending.simps [of ord md5 pending])
  next
    case (Some f)
    obtain s' r where h: "handle_frame ord md5 session_host f s = (s', r)"
      by (cases "handle_frame ord md5 session_host f s")
    have "session_inv s'" using session_contract.handle_frame_inv [OF "1.prems", of ord md5 f] h by simp
    with "1.IH" [OF Some refl h [symmetric]] Some h show ?thesis
      by (cases r) (simp_all add: handle_pending.simps [of ord md5 pending] Let_def)
  qed
qed

lemma session_inv_recv_loop [inv_intros]:
  "session_inv s \<Longrightarrow> session_inv (fst (recv_loop ord md5 evs pending s))"
proof (induction ord md5 evs pending s rule: recv_loop.induct)
  case (1 ord md5 pending s)
  then show ?case by simp
next
  case (2 ord md5 ev evs pending s)
  show ?case
  proof (cases "se_closed s \<or> (\<forall>bs. ev = ReadBytes bs \<longrightarrow> bs = [])")
    case True
    with "2.prems" show ?thesis by (auto split: read_event.split)
  next
    case False
    then obtain bs where ev: "\<not> se_closed s" "ev = ReadBytes bs" "length bs \<noteq> 0" by auto
    obtain s' p' r where h: "handle_pending ord md5 (pending @ bs) s = (s', p', r)"
      by (cases "handle_pending ord md5 (pending @ bs) s") auto
    have "session_inv s'" using session_inv_handle_pending [OF "2.prems", of ord md5 "pending @ bs"] h by simp
    with "2.IH" [OF ev h [symmetric] refl] ev h show ?thesis by (cases r) simp_all
  qed
qed

lemma session_inv_run [inv_intros]: "session_inv s \<Longrightarrow> session_inv (fst (run ord md5 evs s))"
  using session_inv_ensure_started [of s ord] session_inv_recv_loop session_inv_terminate
  by (auto simp: run_def split: prod.split sum.split option.split) (metis fst_conv)+

section \<open>Reachable sessions\<close>

text \<open>
  The tasks that share a session act on it in any order: the receive loop handles frames, the
  users of the session open streams and use those they hold, the spawned close tasks run, the
  writer task may end, and somebody terminates the session.
\<close>

inductive session_event :: "(stringmap \<Rightarrow> stringmap) \<Rightarrow> hash_fun \<Rightarrow> session \<Rightarrow> session \<Rightarrow> bool"
  for ord md5 where
  start: "session_event ord md5 s (fst (ensure_started ord s))"
| receive: "session_event ord md5 s (fst (handle_frame ord md5 session_host f s))"
| read: "a < length (se_heap s) \<Longrightarrow> session_event ord md5 s (fst (stream_read a n d s))"
| cancel: "a < length (se_heap s) \<Longrightarrow>
    session_event ord md5 s (upd_stream a (\<lambda>x. x\<lparr>sm_pipe := read_cancel (sm_pipe x)\<rparr>) s)"
| "write": "a < length (se_heap s) \<Longrightarrow> session_event ord md5 s (fst (stream_write a bs s))"
| close: "a < length (se_heap s) \<Longrightarrow> session_event ord md5 s (fst (stream_close a s))"
| close_task: "a < length (se_heap s) \<Longrightarrow> session_event ord md5 s (run_close_task a s)"
| handshake_ok: "a < length (se_heap s) \<Longrightarrow> session_event ord md5 s (fst (handshake_success a s))"
| handshake_error: "a < length (se_heap s) \<Longrightarrow> session_event ord md5 s (fst (handshake_failure a e s))"
| writer_ends: "session_event ord md5 s (s\<lparr>se_tx_closed := True\<rparr>)"
| terminate: "session_event ord md5 s (fst (terminate s))"

inductive session_step :: "(stringmap \<Rightarrow> stringmap) \<Rightarrow> hash_fun \<Rightarrow> session \<Rightarrow> session \<Rightarrow> bool"
  for ord md5 where
  event: "session_event ord md5 s s' \<Longrightarrow> session_step ord md5 s s'"
| open_stream: "session_step ord md5 s (fst (open_stream m s))"

inductive session_reachable :: "(stringmap \<Rightarrow> stringmap) \<Rightarrow> hash_fun \<Rightarrow> session \<Rightarrow> session \<Rightarrow> bool"
  for ord md5 s0 where
  init: "session_reachable ord md5 s0 s0"
| step: "session_reachable ord md5 s0 s \<Longrightarrow> session_step ord md5 s s' \<Longrightarrow> session_reachable ord md5 s0 s'"

lemma session_inv_event: "session_event ord md5 s s' \<Longrightarrow> session_inv s \<Longrightarrow> session_inv s'"
proof (induction rule: session_event.induct)
  case (writer_ends s)
  then show ?case by (simp add: session_inv_def)
qed (auto intro: inv_intros session_contract.handle_frame_inv session_inv_same same_channel_ops)

lemma session_inv_step: "session_step ord md5 s s' \<Longrightarrow> session_inv s \<Longrightarrow> session_inv s'"
  by (induction rule: session_step.induct) (auto intro: inv_intros session_inv_event)

lemma session_inv_reachable:
  "session_reachable ord md5 s0 s \<Longrightarrow> session_inv s0 \<Longrightarrow> session_inv s"
  by (induction rule: session_reachable.induct) (auto intro: session_inv_step)

end
