(* ===== verification/Session_Props.thy ===== *)
theory Session_Props
  imports Session_Inv
begin

text \<open>
  What a session does with received frames: the exact effect of a frame on the pipes of the
  session's streams, the delivery of payload over whole runs of the receive loop, the end of a
  stream, the rejection of early streams, and the allocation of stream identifiers.
\<close>

section \<open>The effect of one frame\<close>

abbreviation pipe_of :: "session \<Rightarrow> nat \<Rightarrow> pipe_inner" where
  "pipe_of s a \<equiv> sm_pipe (stream_at s a)"

lemma upd_stream_fields [simp]:
  "se_streams (upd_stream a g s) = se_streams s"
  "se_closed (upd_stream a g s) = se_closed s"
  "se_state (upd_stream a g s) = se_state s"
  "se_is_client (upd_stream a g s) = se_is_client s"
  "se_tx_closed (upd_stream a g s) = se_tx_closed s"
  "se_frames (upd_stream a g s) = se_frames s"
  "length (se_heap (upd_stream a g s)) = length (se_heap s)"
  by (simp_all add: upd_stream_def)

lemma stream_at_upd:
  "b < length (se_heap s) \<Longrightarrow>
   stream_at (upd_stream a g s) b = (if a = b then g (stream_at s a) else stream_at s b)"
  by (simp add: upd_stream_def nth_list_update)

text \<open>The session after a payload frame.\<close>

definition deliver :: "frame \<Rightarrow> session \<Rightarrow> session" where
  "deliver f s =
     (case map_of (se_streams s) (fsid f) of
        None \<Rightarrow> s
      | Some a \<Rightarrow>
          if fdata f = [] then s
          else upd_stream a (\<lambda>x. x\<lparr>sm_pipe := (sm_pipe x)
                 \<lparr>pi_queue := pi_queue (sm_pipe x) @ [PipeData (fdata f)]\<rparr>\<rparr>) s)"

text \<open>No stream has lost the receiver of its pipe.\<close>

definition none_lost :: "session \<Rightarrow> bool" where
  "none_lost s \<longleftrightarrow> list_all (\<lambda>x. pi_receiver (sm_pipe x) \<noteq> Dropped) (se_heap s)"

lemma put_same_state [simp]: "h_put_state session_host (h_protocol_state session_host s) s = s"
  by (simp add: session_host_def)

lemma pipe_write_open:
  "stream_inv x \<Longrightarrow> \<not> sm_closed x \<Longrightarrow> pi_receiver (sm_pipe x) \<noteq> Dropped \<Longrightarrow>
   pipe_write bs (sm_pipe x) =
     ((sm_pipe x)\<lparr>pi_queue := pi_queue (sm_pipe x) @ [PipeData bs]\<rparr>, Inr (length bs))"
  by (auto simp: stream_inv_def pipe_inv_def pipe_write_def channel_send_def)

lemma push_stream_data_deliver:
  assumes "session_inv s" "none_lost s" "fdata f \<noteq> []"
  shows "push_stream_data (fsid f) (fdata f) s = (deliver f s, Inr ())"
proof (cases "map_of (se_streams s) (fsid f)")
  case None
  then show ?thesis by (simp add: push_stream_data_def stream_for_sid_def deliver_def)
next
  case (Some a)
  note a = streams_inv_SomeD [OF streams_inv_session [OF assms(1)] Some]
  have "pi_receiver (pipe_of s a) \<noteq> Dropped"
    using assms(2) a(1) list_all_at by (fastforce simp: none_lost_def)
  from pipe_write_open [OF stream_inv_at [OF assms(1) a(1)] a(4) this] Some a assms(3) show ?thesis
    by (simp add: push_stream_data_def stream_for_sid_def deliver_def stream_push_data_def upd_stream_def)
qed

lemma handle_psh:
  assumes "session_inv s" "none_lost s" "fcmd f = Psh"
  shows "handle_frame ord md5 session_host f s = (deliver f s, Inr ())"
proof (cases "fdata f = []")
  case True
  then show ?thesis
    using assms(3) by (simp add: handle_frame_def on_frame_def deliver_def split: option.split)
next
  case False
  with assms push_stream_data_deliver [OF assms(1,2) False] show ?thesis
    by (simp add: handle_frame_def on_frame_def) (simp add: session_host_def)
qed

lemma handle_waste: "is_waste f \<Longrightarrow> handle_frame ord md5 session_host f s = (s, Inr ())"
  by (simp add: handle_frame_def on_frame_def is_waste_def)

lemma session_inv_deliver:
  assumes "session_inv s" "none_lost s"
  shows "session_inv (deliver f s)" "none_lost (deliver f s)"
proof -
  let ?f = "frame_with_data Psh (fsid f) (fdata f)"
  have "handle_frame id (\<lambda>_. []) session_host ?f s = (deliver ?f s, Inr ())"
    by (rule handle_psh [OF assms]) (simp add: frame_with_data_def)
  moreover have "deliver ?f s = deliver f s" by (simp add: deliver_def frame_with_data_def split: option.split)
  ultimately show "session_inv (deliver f s)"
    using session_contract.handle_frame_inv [OF assms(1), of id "\<lambda>_. []" ?f] by simp
  show "none_lost (deliver f s)"
    using assms(2) list_all_at [OF assms(2) [unfolded none_lost_def]]
    by (auto simp: none_lost_def deliver_def upd_stream_def intro!: list_all_upd split: option.split)
qed

lemma deliver_fields [simp]:
  "se_streams (deliver f s) = se_streams s" "se_closed (deliver f s) = se_closed s"
  "length (se_heap (deliver f s)) = length (se_heap s)"
  by (simp_all add: deliver_def split: option.split)

lemma deliver_data:
  assumes "a < length (se_heap s)"
  shows "pipe_data (pipe_of (deliver f s) a) =
    pipe_data (pipe_of s a) @ (if map_of (se_streams s) (fsid f) = Some a then fdata f else [])"
  using assms by (auto simp: deliver_def stream_at_upd pipe_data_def split: option.split)

section \<open>Runs of the receive loop\<close>

fun handle_frames ::
    "(stringmap \<Rightarrow> stringmap) \<Rightarrow> hash_fun \<Rightarrow> frame list \<Rightarrow> session \<Rightarrow> session \<times> unit io_result" where
  "handle_frames ord md5 [] s = (s, Inr ())"
| "handle_frames ord md5 (f # fs) s =
     and_then (handle_frame ord md5 session_host f s) (handle_frames ord md5 fs)"

text \<open>Frames do not terminate the session by themselves; the loop does when handling fails.\<close>

lemma close_from_peer_closed [simp]: "se_closed (close_from_peer e a s) = se_closed s"
  by (simp add: close_from_peer_upd)

lemma remove_stream_closed [simp]: "se_closed (fst (remove_stream sid s)) = se_closed s"
  by (simp add: remove_stream_def Let_def)

interpretation closed_contract: host_contract session_host "\<lambda>s. se_closed s = c" for c
proof
  fix s :: session and st f sid m and bs :: "byte list"
  assume c: "se_closed s = c"
  show "h_is_client session_host (h_put_state session_host st s) = h_is_client session_host s"
    by (simp add: session_host_def)
  show "se_closed (h_put_state session_host st s) = c"
    using c by (simp add: session_host_def)
  show "se_closed (fst (h_send_frame session_host f s)) = c"
    "se_closed (fst (h_send_frame_sync session_host f s)) = c"
    using c same_write_frame [of s f] same_write_frame_sync [of s f]
    by (simp_all add: session_host_def same_streams_def)
  show "se_closed (fst (h_push_stream_data session_host sid bs s)) = c"
    using c by (auto simp: session_host_def push_stream_data_def stream_push_data_def
        split: option.split prod.split sum.split)
  show "se_closed (fst (h_ensure_incoming_stream session_host sid s)) = c"
    using c by (simp add: session_host_def ensure_incoming_stream_def create_incoming_stream_def
        insert_stream_def split: option.split)
  obtain s1 ao where r: "remove_stream sid s = (s1, ao)" "se_closed s1 = c"
    using c remove_stream_closed [of sid s] by (cases "remove_stream sid s") simp
  show "se_closed (fst (h_close_logical_stream session_host sid s)) = c"
    "se_closed (fst (h_terminate_session session_host sid m s)) = c"
    using r by (simp_all add: session_host_def close_logical_stream_def terminate_session_def split: option.split)
  show "se_closed (h_release_write_buffering session_host s) = c"
    using c by (simp add: session_host_def release_write_buffering_def)
qed

lemma handle_frames_closed: "handle_frames ord md5 fs s = (t, r) \<Longrightarrow> se_closed t = se_closed s"
proof (induction fs arbitrary: s)
  case Nil
  then show ?case by simp
next
  case (Cons f fs)
  obtain s1 q where h: "handle_frame ord md5 session_host f s = (s1, q)"
    by (cases "handle_frame ord md5 session_host f s")
  have "se_closed s1 = se_closed s"
    using closed_contract.handle_frame_inv [of s "se_closed s" ord md5 f] h by simp
  with Cons h show ?case by (cases q) auto
qed

text \<open>The loop handles the frames its decoder finds, in order.\<close>

lemma handle_pending_frames:
  assumes "handle_frames ord md5 (fst (decode_all frame_decode pending)) s = (s', Inr ())"
  shows "handle_pending ord md5 pending s = (s', snd (decode_all frame_decode pending), Inr ())"
  using assms
proof (induction pending arbitrary: s rule: measure_induct_rule [of length])
  case (less pending)
  show ?case
  proof (cases "frame_from_bytes pending")
    case None
    then have "frame_decode pending = None" by (simp add: frame_decode_def)
    with None less.prems show ?thesis
      by (simp add: handle_pending.simps [of ord md5 pending] frame_wire.decode_all_None)
  next
    case (Some f)
    define r where "r = drop (7 + length (fdata f)) pending"
    have dec: "frame_decode pending = Some (f, r)" using Some by (simp add: frame_decode_def r_def)
    note all = frame_wire.decode_all_Some [OF dec]
    obtain s1 where s1: "handle_frame ord md5 session_host f s = (s1, Inr ())"
      "handle_frames ord md5 (fst (decode_all frame_decode r)) s1 = (s', Inr ())"
      using less.prems by (auto simp: all and_then_def split: prod.splits sum.splits)
    have "length r < length pending" by (rule frame_wire.dec_shrinks [OF dec])
    from less.IH [OF this s1(2)] Some s1(1) all show ?thesis
      by (simp add: handle_pending.simps [of ord md5 pending] r_def [symmetric] Let_def)
  qed
qed

lemma handle_frames_append:
  "handle_frames ord md5 (fs @ gs) s = and_then (handle_frames ord md5 fs s) (handle_frames ord md5 gs)"
proof (induction fs arbitrary: s)
  case Nil
  then show ?case by simp
next
  case (Cons f fs)
  then show ?case
    by (cases "handle_frame ord md5 session_host f s"; cases "snd (handle_frame ord md5 session_host f s)") auto
qed

lemma recv_loop_frames:
  assumes "frame_decode pending = None" "list_all (\<lambda>c. c \<noteq> []) chunks"
    and "handle_frames ord md5 (fst (decode_reads frame_decode pending chunks)) s = (s', Inr ())"
    and "\<not> se_closed s"
  shows "recv_loop ord md5 (map ReadBytes chunks) pending s = (s', None)"
  using assms
proof (induction chunks arbitrary: pending s)
  case Nil
  then show ?case by simp
next
  case (Cons c cs)
  let ?d = "decode_all frame_decode (pending @ c)"
  have reads: "decode_reads frame_decode pending (c # cs) =
      (fst ?d @ fst (decode_reads frame_decode (snd ?d) cs), snd (decode_reads frame_decode (snd ?d) cs))"
    by (simp add: case_prod_beta)
  then obtain s1 where s1: "handle_frames ord md5 (fst ?d) s = (s1, Inr ())"
    "handle_frames ord md5 (fst (decode_reads frame_decode (snd ?d) cs)) s1 = (s', Inr ())"
    using Cons.prems(3) by (auto simp: handle_frames_append and_then_def split: prod.splits sum.splits)
  have "\<not> se_closed s1" using handle_frames_closed [OF s1(1)] Cons.prems(4) by simp
  then have "recv_loop ord md5 (map ReadBytes cs) (snd ?d) s1 = (s', None)"
    using Cons.IH [OF frame_wire.decode_all_rest _ s1(2)] Cons.prems(2) by auto
  with handle_pending_frames [OF s1(1)] Cons.prems(2,4) show ?case by simp
qed

section \<open>Delivery\<close>

text \<open>The payload a sequence of frames carries for one stream.\<close>

definition payload_for :: "u32 \<Rightarrow> frame list \<Rightarrow> byte list" where
  "payload_for sid fs = concat (map fdata (filter (\<lambda>f. fcmd f = Psh \<and> fsid f = sid) fs))"

definition data_frame :: "frame \<Rightarrow> bool" where
  "data_frame f \<longleftrightarrow> fcmd f = Psh \<or> is_waste f"

lemma handle_data_frames:
  assumes "session_inv s" "none_lost s" "list_all data_frame fs"
  shows "\<exists>s'. handle_frames ord md5 fs s = (s', Inr ()) \<and> session_inv s' \<and> none_lost s' \<and>
    se_streams s' = se_streams s \<and> se_closed s' = se_closed s \<and> length (se_heap s') = length (se_heap s) \<and>
    (\<forall>a < length (se_heap s). pipe_data (pipe_of s' a) = pipe_data (pipe_of s a) @
       (if map_of (se_streams s) (sm_id (stream_at s a)) = Some a
        then payload_for (sm_id (stream_at s a)) fs else []))"
  using assms
proof (induction fs arbitrary: s)
  case Nil
  then show ?case by (simp add: payload_for_def)
next
  case (Cons f fs)
  show ?case
  proof (cases "is_waste f")
    case True
    then have p: "payload_for sid (f # fs) = payload_for sid fs" for sid
      by (simp add: payload_for_def is_waste_def)
    have h: "handle_frames ord md5 (f # fs) s = handle_frames ord md5 fs s"
      by (simp add: handle_waste [OF True])
    have "list_all data_frame fs" using Cons.prems(3) by simp
    from Cons.IH [OF Cons.prems(1,2) this] show ?thesis by (simp only: h p)
  next
    case False
    with Cons.prems(3) have psh: "fcmd f = Psh" by (simp add: data_frame_def)
    let ?s1 = "deliver f s"
    note h = handle_psh [OF Cons.prems(1,2) psh, of ord md5]
    obtain s' where s': "handle_frames ord md5 fs ?s1 = (s', Inr ())" "session_inv s'" "none_lost s'"
      "se_streams s' = se_streams s" "se_closed s' = se_closed s" "length (se_heap s') = length (se_heap s)"
      "\<forall>a < length (se_heap s). pipe_data (pipe_of s' a) = pipe_data (pipe_of ?s1 a) @
         (if map_of (se_streams s) (sm_id (stream_at ?s1 a)) = Some a
          then payload_for (sm_id (stream_at ?s1 a)) fs else [])"
      using Cons.IH [OF session_inv_deliver [OF Cons.prems(1,2), of f]] Cons.prems(3) by auto
    have "pipe_data (pipe_of s' a) = pipe_data (pipe_of s a) @
         (if map_of (se_streams s) (sm_id (stream_at s a)) = Some a
          then payload_for (sm_id (stream_at s a)) (f # fs) else [])" if a: "a < length (se_heap s)" for a
    proof -
      have id: "sm_id (stream_at ?s1 a) = sm_id (stream_at s a)"
        using a by (simp add: deliver_def stream_at_upd split: option.split)
      let ?k = "sm_id (stream_at s a)"
      have "map_of (se_streams s) (fsid f) = Some a \<longleftrightarrow> map_of (se_streams s) ?k = Some a \<and> fsid f = ?k"
        using streams_inv_SomeD(2) [OF streams_inv_session [OF Cons.prems(1)], of "fsid f" a] by auto
      moreover have "payload_for ?k (f # fs) = (if fsid f = ?k then fdata f else []) @ payload_for ?k fs"
        by (simp add: payload_for_def psh)
      ultimately show ?thesis
        using s'(7) [rule_format, OF a] deliver_data [OF a, of f] by (simp add: id)
    qed
    with s' h show ?thesis by auto
  qed
qed

section \<open>Properties\<close>

text \<open>A server session with two open streams, for the witnesses.\<close>

definition sample_session :: session where
  "sample_session =
     fst (ensure_incoming_stream 7 (fst (ensure_incoming_stream 5 (new_server_session sample_server))))"

lemma sample_session_eq:
  "se_streams sample_session = [(5, 0), (7, 1)]" "se_heap sample_session = [stream_new 5, stream_new 7]"
  "\<not> se_closed sample_session" "\<not> se_tx_closed sample_session"
  "se_state sample_session = state_new sample_server" "\<not> se_is_client sample_session"
  "se_next_stream_id sample_session = 0" "se_frames sample_session = []" "se_acks sample_session = []"
  by (simp_all add: sample_session_def ensure_incoming_stream_def create_incoming_stream_def
      insert_stream_def is_terminated_def new_server_session_def session_new_with_protocol_def)

lemma sample_session_inv: "session_inv sample_session" "none_lost sample_session"
  unfolding sample_session_def none_lost_def new_server_session_def
  by (intro inv_intros)
    (simp add: ensure_incoming_stream_def create_incoming_stream_def insert_stream_def is_terminated_def
      session_new_with_protocol_def stream_new_def pipe_def)





section \<open>Ends of streams and of sessions\<close>

lemma close_from_peer_at:
  assumes "b < length (se_heap s)" "\<not> sm_closed (stream_at s a)"
  shows "stream_at (close_from_peer e a s) b =
    (if a = b then (stream_at s a)\<lparr>sm_closed := True, sm_pipe := finish_stream e (pipe_of s a)\<rparr> else stream_at s b)"
  using assms by (simp add: close_from_peer_upd stream_at_upd)

lemma map_of_delete_self: "map_of (AList.delete k ss) k = None"
  by (simp add: delete_conv')

text \<open>Frames that end one stream: the peer's \<open>Fin\<close>, and a \<open>SynAck\<close> that carries a message.\<close>

definition end_of_stream :: "frame \<Rightarrow> io_error option option" where
  "end_of_stream f =
     (case fcmd f of
        Fin \<Rightarrow> Some None
      | SynAck \<Rightarrow>
          if fdata f = [] then None
          else Some (Some (error_other (''remote: '' @ from_utf8_lossy (fdata f))))
      | _ \<Rightarrow> None)"

lemma handle_end:
  assumes "end_of_stream f = Some e"
  shows "handle_frame ord md5 session_host f s =
    (case map_of (se_streams s) (fsid f) of
       None \<Rightarrow> (fst (remove_stream (fsid f) s), Inr ())
     | Some a \<Rightarrow> (close_from_peer e a (fst (remove_stream (fsid f) s)), Inr ()))"
proof -
  obtain s1 ao where r: "remove_stream (fsid f) s = (s1, ao)" by (cases "remove_stream (fsid f) s")
  then have ao: "ao = map_of (se_streams s) (fsid f)" using remove_stream_fields(3) [of "fsid f" s] by simp
  from assms have cases: "fcmd f = Fin \<and> e = None \<or>
      fcmd f = SynAck \<and> fdata f \<noteq> [] \<and> e = Some (error_other (''remote: '' @ from_utf8_lossy (fdata f)))"
    by (auto simp: end_of_stream_def split: command.splits if_splits)
  have s: "s\<lparr>se_state := se_state s\<rparr> = s" by simp
  from cases show ?thesis
    by (auto simp: handle_frame_def on_frame_def session_host_def close_logical_stream_def
        terminate_session_def r ao split: option.split)
qed

text \<open>
  The end of one stream. A \<open>Fin\<close>, or a \<open>SynAck\<close> with a message, for an open stream removes
  that stream from the session and queues the end (with the message as an error) behind the
  payload its reader has not read yet; every other stream and the session itself go on, and
  later payload for the removed identifier is ignored.
\<close>

theorem stream_end_is_local:
  assumes "session_inv s" "map_of (se_streams s) (fsid f) = Some a" "end_of_stream f = Some e"
  shows "\<exists>s'. handle_frame ord md5 session_host f s = (s', Inr ()) \<and>
    pipe_of s' a = finish_stream e (pipe_of s a) \<and> sm_closed (stream_at s' a) \<and>
    (\<forall>b < length (se_heap s). b \<noteq> a \<longrightarrow> stream_at s' b = stream_at s b) \<and>
    se_streams s' = AList.delete (fsid f) (se_streams s) \<and> se_closed s' = se_closed s \<and>
    (\<forall>bs. push_stream_data (fsid f) bs s' = (s', Inr ()))"
proof -
  note a = streams_inv_SomeD [OF streams_inv_session [OF assms(1)] assms(2)]
  let ?s1 = "fst (remove_stream (fsid f) s)"
  let ?s' = "close_from_peer e a ?s1"
  have h: "handle_frame ord md5 session_host f s = (?s', Inr ())"
    by (simp add: handle_end [OF assms(3)] assms(2))
  have heap: "se_heap ?s1 = se_heap s" by (simp add: remove_stream_fields)
  have streams: "se_streams ?s' = AList.delete (fsid f) (se_streams s)"
    using a by (simp add: close_from_peer_upd heap remove_stream_fields)
  then have "push_stream_data (fsid f) bs ?s' = (?s', Inr ())" for bs
    by (simp add: push_stream_data_def stream_for_sid_def map_of_delete_self)
  with h streams a show ?thesis
    by (intro exI [of _ ?s']) (simp add: close_from_peer_at heap)
qed

theorem stream_end_is_local_witness:
  "\<exists>s'. handle_frame id sample_md5 session_host (frame_new Fin 5) sample_session = (s', Inr ()) \<and>
     se_streams s' = [(7, 1)] \<and> stream_at s' 1 = stream_new 7"
proof -
  have "map_of (se_streams sample_session) (fsid (frame_new Fin 5)) = Some 0"
    "end_of_stream (frame_new Fin 5) = Some None"
    by (simp_all add: sample_session_eq frame_new_def end_of_stream_def)
  from stream_end_is_local [OF sample_session_inv(1) this, of id sample_md5] show ?thesis
    by (auto simp: sample_session_eq frame_new_def)
qed

text \<open>
  A stream opened before the settings ends the session: a server that has not seen the
  client's settings answers a \<open>Syn\<close> with an \<open>Alert\<close> frame carrying the reason, opens no stream,
  and the handling fails with that reason.
\<close>

theorem syn_before_settings_fails:
  assumes "\<not> se_is_client s" "\<not> st_received_settings (se_state s)" "fcmd f = Syn" "\<not> se_tx_closed s"
  shows "\<exists>s'. handle_frame ord md5 session_host f s =
      (s', Inl (error_other ''client did not send its settings'')) \<and>
    se_streams s' = se_streams s \<and> se_heap s' = se_heap s \<and>
    se_frames s' = se_frames s @
      [(frame_with_data Alert 0 (as_bytes ''client did not send its settings''), True)]"
  using assms
  by (auto simp: handle_frame_def on_frame_def session_host_def write_frame_sync_def channel_frame_def
      split: list.split)

theorem syn_before_settings_fails_witness:
  "\<exists>s'. handle_frame id sample_md5 session_host (frame_new Syn 9) sample_session =
     (s', Inl (error_other ''client did not send its settings'')) \<and> se_streams s' = [(5, 0), (7, 1)]"
  using syn_before_settings_fails [OF sample_session_eq(6), of "frame_new Syn 9" id sample_md5]
  by (auto simp: sample_session_eq state_new_def frame_new_def)

lemma close_streams_fields [simp]:
  "se_closed (close_streams as s) = se_closed s" "se_streams (close_streams as s) = se_streams s"
  by (induction as s rule: close_streams.induct) (simp_all add: close_from_session_eq close_from_peer_upd)

lemma close_streams_at:
  "distinct as \<Longrightarrow> b < length (se_heap s) \<Longrightarrow> \<forall>a \<in> set as. \<not> sm_closed (stream_at s a) \<Longrightarrow>
   stream_at (close_streams as s) b =
     (if b \<in> set as then (stream_at s b)\<lparr>sm_closed := True, sm_pipe := finish_stream None (pipe_of s b)\<rparr>
      else stream_at s b)"
proof (induction as arbitrary: s)
  case Nil
  then show ?case by simp
next
  case (Cons a as)
  let ?s1 = "close_from_peer None a s"
  have len: "length (se_heap ?s1) = length (se_heap s)" by (simp add: close_from_peer_upd)
  have "\<not> sm_closed (stream_at ?s1 c)" if c: "c \<in> set as" for c
  proof -
    have "a \<noteq> c" "\<not> sm_closed (stream_at s c)" using c Cons.prems by auto
    then show ?thesis by (simp add: close_from_peer_upd upd_stream_def)
  qed
  moreover have "stream_at ?s1 b = (if a = b
      then (stream_at s a)\<lparr>sm_closed := True, sm_pipe := finish_stream None (pipe_of s a)\<rparr> else stream_at s b)"
    using Cons.prems by (intro close_from_peer_at) auto
  ultimately show ?case
    using Cons.IH [of ?s1] Cons.prems by (auto simp: len close_from_session_eq)
qed

text \<open>
  Termination. Terminating a session marks it closed, empties it of streams and queues the
  end for the reader of each stream it had; terminating again changes nothing, and no stream
  can be opened afterwards.
\<close>

theorem terminate_spec:
  assumes "session_inv s" "\<not> se_closed s"
  shows "\<exists>s'. terminate s = (s', Inr ()) \<and> se_closed s' \<and> se_streams s' = [] \<and> se_idle s' \<and>
    (\<forall>b < length (se_heap s). stream_at s' b =
       (if b \<in> snd ` set (se_streams s)
        then (stream_at s b)\<lparr>sm_closed := True, sm_pipe := finish_stream None (pipe_of s b)\<rparr>
        else stream_at s b)) \<and>
    terminate s' = (s', Inr ()) \<and> (\<forall>m. open_stream m s' = (s', Inl session_closed))"
proof -
  define s1 where "s1 = s\<lparr>se_closed := True, se_streams := [], se_idle := True\<rparr>"
  define s' where "s' = close_streams (map snd (se_streams s)) s1"
  have t: "terminate s = (s', Inr ())" using assms(2) by (simp add: terminate_def s'_def s1_def)
  have inv': "session_inv s'" using session_inv_terminate [OF assms(1)] t by simp
  note ss = streams_inv_session [OF assms(1)]
  have dist: "distinct (map snd (se_streams s))" by (rule streams_inv_distinct_snd [OF ss])
  have live: "\<forall>a \<in> set (map snd (se_streams s)). \<not> sm_closed (stream_at s1 a)"
    using streams_invD(2) [OF ss] by (fastforce simp: s1_def entry_inv_def)
  have at: "stream_at s' b = (if b \<in> snd ` set (se_streams s)
        then (stream_at s b)\<lparr>sm_closed := True, sm_pipe := finish_stream None (pipe_of s b)\<rparr>
        else stream_at s b)" if "b < length (se_heap s)" for b
    using close_streams_at [OF dist, of b s1] live that by (simp add: s'_def s1_def)
  have c: "se_closed s'" "se_streams s' = []" by (simp_all add: s'_def s1_def)
  then have "se_idle s'" using inv' by (simp add: session_inv_def)
  with t at c show ?thesis
    by (intro exI [of _ s']) (simp add: terminate_def open_stream_def is_terminated_def)
qed

theorem terminate_spec_witness:
  "\<exists>s'. terminate sample_session = (s', Inr ()) \<and> se_streams s' = [] \<and> sm_closed (stream_at s' 1)"
  using terminate_spec [OF sample_session_inv(1) sample_session_eq(3)]
  by (auto simp: sample_session_eq)

section \<open>Opening streams\<close>

text \<open>
  Identifiers of a client's streams do not exceed the last one handed out. The invariant is
  kept by every step in which the counter does not wrap around.
\<close>

definition ids_inv :: "session \<Rightarrow> bool" where
  "ids_inv s \<longleftrightarrow> (\<forall>k \<in> fst ` set (se_streams s). k \<le> se_next_stream_id s)"

lemma open_stream_success:
  assumes "\<not> is_terminated s" "length (se_streams s) < m" "se_next_stream_id s + 1 \<noteq> 0"
  shows "open_stream m s =
    (s\<lparr>se_next_stream_id := se_next_stream_id s + 1,
       se_heap := se_heap s @ [stream_new (se_next_stream_id s + 1)],
       se_streams := AList.update (se_next_stream_id s + 1) (length (se_heap s)) (se_streams s),
       se_idle := False,
       se_frames := se_frames s @ [(frame_new Syn (se_next_stream_id s + 1), False)]\<rparr>,
     Inr (length (se_heap s)))"
  using assms
  by (simp add: open_stream_def is_terminated_def insert_stream_def write_frame_def channel_frame_def Let_def)

text \<open>
  Opening a stream. On a session that is neither terminated nor full and has not used up
  its identifiers, \<open>open_stream\<close> returns a new stream whose pipe is empty, under an identifier
  one above the last and different from those of all open streams, leaves the other streams
  alone, and queues exactly the \<open>Syn\<close> of that identifier.
\<close>

theorem open_stream_fresh:
  assumes "\<not> is_terminated s" "length (se_streams s) < m"
    and "unat (se_next_stream_id s) + 1 < 2 ^ 32" "ids_inv s"
  shows "\<exists>s' sid. open_stream m s = (s', Inr (length (se_heap s))) \<and>
    unat sid = unat (se_next_stream_id s) + 1 \<and> sid \<notin> fst ` set (se_streams s) \<and>
    se_heap s' = se_heap s @ [stream_new sid] \<and> se_streams s' = se_streams s @ [(sid, length (se_heap s))] \<and>
    se_frames s' = se_frames s @ [(frame_new Syn sid, False)] \<and> ids_inv s'"
proof -
  let ?sid = "se_next_stream_id s + 1"
  have sid: "unat ?sid = unat (se_next_stream_id s) + 1"
    using assms(3) by (simp add: unat_word_ariths)
  then have nz: "?sid \<noteq> 0" by (metis Suc_eq_plus1 nat.distinct(1) unsigned_0)
  have fresh: "?sid \<notin> fst ` set (se_streams s)"
  proof
    assume "?sid \<in> fst ` set (se_streams s)"
    with assms(4) have "?sid \<le> se_next_stream_id s" by (auto simp: ids_inv_def)
    with sid show False by (simp add: word_le_nat_alt)
  qed
  then have upd: "AList.update ?sid (length (se_heap s)) (se_streams s) = se_streams s @ [(?sid, length (se_heap s))]"
    by (rule alist_update_new)
  have le: "se_next_stream_id s \<le> ?sid" using sid by (simp add: word_le_nat_alt)
  have "k \<le> ?sid" if "k \<in> fst ` set (se_streams s)" for k
    using that assms(4) le by (auto simp: ids_inv_def intro: order_trans)
  then show ?thesis
    using open_stream_success [OF assms(1,2) nz] sid fresh upd
    by (intro exI [of _ "fst (open_stream m s)"] exI [of _ ?sid]) (auto simp: ids_inv_def)
qed

theorem open_stream_fresh_witness:
  "\<exists>s'. open_stream 3 (new_client_session sample_client) = (s', Inr 0) \<and> se_streams s' = [(1, 0)] \<and>
     se_frames s' = [(frame_new Syn 1, False)]"
proof -
  let ?s = "new_client_session sample_client"
  have "\<not> is_terminated ?s" "length (se_streams ?s) < 3" "unat (se_next_stream_id ?s) + 1 < 2 ^ 32" "ids_inv ?s"
    by (simp_all add: new_client_session_def session_new_with_protocol_def is_terminated_def ids_inv_def)
  from open_stream_fresh [OF this] obtain s' sid where s': "open_stream 3 ?s = (s', Inr 0)" "unat sid = 1"
    "se_streams s' = [(sid, 0)]" "se_frames s' = [(frame_new Syn sid, False)]"
    by (auto simp: new_client_session_def session_new_with_protocol_def)
  then have "sid = 1" by (metis unsigned_1 word_unat_eq_iff)
  with s' show ?thesis by simp
qed

text \<open>
  Errors of \<open>open_stream\<close>. A terminated session answers that it is closed, a full one that
  its stream limit is reached, and in both cases nothing changes.
\<close>

theorem open_stream_refused:
  "(is_terminated s \<longrightarrow> open_stream m s = (s, Inl session_closed)) \<and>
   (\<not> is_terminated s \<longrightarrow> \<not> has_stream_capacity m s \<longrightarrow>
     open_stream m s = (s, Inl (IoError WouldBlock ''Session stream limit reached'')))"
  by (auto simp: open_stream_def is_terminated_def has_stream_capacity_def)

theorem open_stream_refused_witness:
  "open_stream 2 sample_session = (sample_session, Inl (IoError WouldBlock ''Session stream limit reached''))"
  using open_stream_refused [of sample_session 2]
  by (simp add: is_terminated_def has_stream_capacity_def sample_session_eq)

text \<open>
  Stream identifiers start over. The call that wraps the counter around reports exhaustion,
  but the one after it succeeds with identifier 1 again, and takes over the entry of a stream
  that is still open under it.
\<close>

theorem stream_ids_restart:
  assumes "\<not> is_terminated s" "length (se_streams s) < m" "se_next_stream_id s = - 1"
  shows "\<exists>s1 s2. open_stream m s = (s1, Inl (error_other ''Stream identifier exhausted'')) \<and>
    open_stream m s1 = (s2, Inr (length (se_heap s))) \<and>
    map_of (se_streams s2) 1 = Some (length (se_heap s)) \<and> se_heap s2 = se_heap s @ [stream_new 1]"
proof -
  let ?s1 = "s\<lparr>se_next_stream_id := 0\<rparr>"
  have one: "open_stream m s = (?s1, Inl (error_other ''Stream identifier exhausted''))"
    using assms by (simp add: open_stream_def is_terminated_def)
  have "open_stream m ?s1 = (?s1\<lparr>se_next_stream_id := 1, se_heap := se_heap s @ [stream_new 1],
      se_streams := AList.update 1 (length (se_heap s)) (se_streams s), se_idle := False,
      se_frames := se_frames s @ [(frame_new Syn 1, False)]\<rparr>, Inr (length (se_heap s)))"
    using open_stream_success [of ?s1 m] assms by (simp add: is_terminated_def)
  with one show ?thesis by (simp add: update_conv')
qed

theorem stream_ids_restart_witness:
  "\<exists>s1 s2. open_stream 9 (sample_session\<lparr>se_next_stream_id := - 1, se_streams := [(1, 0)]\<rparr>) =
      (s1, Inl (error_other ''Stream identifier exhausted'')) \<and>
     open_stream 9 s1 = (s2, Inr 2) \<and> map_of (se_streams s2) 1 = Some 2"
  using stream_ids_restart [of "sample_session\<lparr>se_next_stream_id := - 1, se_streams := [(1, 0)]\<rparr>" 9]
  by (auto simp: is_terminated_def sample_session_eq)

text \<open>
  C18. One abandoned read ends the whole session. If the read of a stream was dropped while it
  waited, the next payload for that stream makes the receive loop fail, and with it every other
  stream of the session is closed.
\<close>

theorem abandoned_read_ends_session:
  assumes "session_inv s" "map_of (se_streams s) (fsid f) = Some a" "carries_data f"
    and "pi_receiver (pipe_of s a) = Dropped"
    and "frame_from_bytes bs = Some f" "\<not> se_closed s" "se_started s"
  shows "\<exists>s' e. run ord md5 [ReadBytes bs] s = (s', Some (Inl e)) \<and> kind e = BrokenPipe \<and>
    se_closed s' \<and> se_streams s' = []"
proof -
  note a = streams_inv_SomeD [OF streams_inv_session [OF assms(1)] assms(2)]
  let ?e = "IoError BrokenPipe ''Channel closed: channel closed''"
  have "pipe_write (fdata f) (pipe_of s a) = (pipe_of s a, Inl ?e)"
    using stream_inv_at [OF assms(1) a(1)] a(4) assms(4)
    by (auto simp: stream_inv_def pipe_inv_def pipe_write_def channel_send_def)
  moreover have "upd_stream a (\<lambda>x. x\<lparr>sm_pipe := pipe_of s a\<rparr>) s = s"
    by (simp add: upd_stream_def)
  ultimately have "handle_frame ord md5 session_host f s = (s, Inl ?e)"
    using assms(2,3) a(4)
    by (simp add: handle_frame_def on_frame_def carries_data_def session_host_def push_stream_data_def
        stream_for_sid_def stream_push_data_def)
  moreover have "bs \<noteq> []" using frame_from_bytes_SomeD(1) [OF assms(5)] by auto
  ultimately have "recv_loop ord md5 [ReadBytes bs] [] s = (s, Some (Inl ?e))"
    using assms(5,6)
    by (simp add: handle_pending.simps [of ord md5 bs] Let_def)
  then have "run ord md5 [ReadBytes bs] s = (fst (terminate s), Some (Inl ?e))"
    using assms(7) by (simp add: run_def ensure_started_def)
  then show ?thesis using assms(6) by (auto simp: terminate_def)
qed

theorem abandoned_read_ends_session_witness:
  "\<exists>s' e. run id sample_md5 [ReadBytes [2, 0, 0, 0, 5, 0, 1, 65]]
      ((upd_stream 0 (\<lambda>x. x\<lparr>sm_pipe := read_cancel (fst (pipe_read 4 False (sm_pipe x)))\<rparr>) sample_session)
        \<lparr>se_started := True\<rparr>) = (s', Some (Inl e)) \<and> se_streams s' = []"
proof -
  let ?u = "upd_stream 0 (\<lambda>x. x\<lparr>sm_pipe := read_cancel (fst (pipe_read 4 False (sm_pipe x)))\<rparr>) sample_session"
  let ?s = "?u\<lparr>se_started := True\<rparr>"
  let ?f = "frame_with_data Psh 5 [65]"
  have dropped: "pi_receiver (read_cancel (fst (pipe_read 4 False pipe))) = Dropped"
    by (simp add: pipe_defs)
  have "pipe_inv (read_cancel (fst (pipe_read 4 False pipe)))"
    "no_empty_data (read_cancel (fst (pipe_read 4 False pipe)))"
    "\<not> pi_closed (read_cancel (fst (pipe_read 4 False pipe)))"
    "\<not> pi_stream_end_queued (read_cancel (fst (pipe_read 4 False pipe)))"
    by (simp_all add: pipe_defs pipe_inv_def end_last_def no_empty_data_def)
  then have "session_inv ?u"
    using sample_session_inv(1)
    by (intro session_inv_upd_same) (simp_all add: sample_session_eq stream_new_def stream_inv_def)
  then have inv: "session_inv ?s" by (simp add: session_inv_def)
  have f: "frame_from_bytes [2, 0, 0, 0, 5, 0, 1, 65] = Some ?f" by code_simp
  have "map_of (se_streams ?s) (fsid ?f) = Some 0" "carries_data ?f" "pi_receiver (pipe_of ?s 0) = Dropped"
    "\<not> se_closed ?s" "se_started ?s"
    using dropped by (simp_all add: sample_session_eq frame_with_data_def carries_data_def upd_stream_def stream_new_def)
  from abandoned_read_ends_session [OF inv this(1-3) f this(4,5), of id sample_md5] show ?thesis by blast
qed

end
