(* ===== verification/Client_Pool.thy ===== *)
theory Client_Pool
  imports Session_Props
begin

text \<open>
  \<open>src/src/proxy/session/client.rs\<close>: the client keeps its sessions in a pool, opens streams on
  idle sessions first, then on active ones with room, then on a new connection, and terminates
  sessions that stay idle for too long.

  Sessions are shared (\<open>Arc<Session>\<close>): they live in a heap, and the two maps of the client take
  a sequence number to an address. An \<open>IndexMap\<close> is the list of its entries in index order.
  Instants are numbers and the current time is an argument. The outcomes of dialling are a
  script (an empty one stands for success).
\<close>

section \<open>Index maps\<close>

text \<open>\<open>swap_remove_index\<close> fills the gap with the last entry.\<close>

definition swap_remove_index :: "nat \<Rightarrow> 'a list \<Rightarrow> 'a list \<times> 'a option" where
  "swap_remove_index i xs =
     (if i < length xs then ((butlast xs)[i := last xs], Some (xs ! i)) else (xs, None))"

definition index_of_key :: "'k \<Rightarrow> ('k \<times> 'v) list \<Rightarrow> nat option" where
  "index_of_key k xs =
     (case filter (\<lambda>i. fst (xs ! i) = k) [0..<length xs] of [] \<Rightarrow> None | i # _ \<Rightarrow> Some i)"

definition swap_remove_key :: "'k \<Rightarrow> ('k \<times> 'v) list \<Rightarrow> ('k \<times> 'v) list" where
  "swap_remove_key k xs =
     (case index_of_key k xs of None \<Rightarrow> xs | Some i \<Rightarrow> fst (swap_remove_index i xs))"

section \<open>State\<close>

type_synonym idle_entry = "u64 \<times> nat \<times> nat"

text \<open>Where the task that returns a session to the pool stands, between two of its awaits.\<close>

datatype waiter_phase = Spawned | Waiting | Woken | Returning | Ended

record client =
  cl_sessions :: "session list"
  cl_active :: "(u64 \<times> nat) list"
  cl_idle :: "idle_entry list"
  cl_seq :: u64
  cl_closed :: bool
  cl_padding :: padding_factory
  cl_idle_timeout :: nat
  cl_min_idle :: nat
  cl_max_streams :: nat
  cl_waiters :: "(waiter_phase \<times> u64 \<times> nat) list"
  cl_dials :: "unit io_result list"

definition client_new :: "padding_factory \<Rightarrow> nat \<Rightarrow> nat \<Rightarrow> nat \<Rightarrow> client" where
  "client_new pf idle_timeout min_idle max_streams =
     \<lparr>cl_sessions = [], cl_active = [], cl_idle = [], cl_seq = 0, cl_closed = False, cl_padding = pf,
      cl_idle_timeout = idle_timeout, cl_min_idle = min_idle, cl_max_streams = max max_streams 1,
      cl_waiters = [], cl_dials = []\<rparr>"

abbreviation session_at :: "client \<Rightarrow> nat \<Rightarrow> session" where
  "session_at c a \<equiv> cl_sessions c ! a"

definition upd_session :: "nat \<Rightarrow> session \<Rightarrow> client \<Rightarrow> client" where
  "upd_session a s c = c\<lparr>cl_sessions := (cl_sessions c)[a := s]\<rparr>"

definition terminate_at :: "nat \<Rightarrow> client \<Rightarrow> client" where
  "terminate_at a c = upd_session a (fst (terminate (session_at c a))) c"

fun terminate_all :: "nat list \<Rightarrow> client \<Rightarrow> client" where
  "terminate_all [] c = c"
| "terminate_all (a # as) c = terminate_all as (terminate_at a c)"

definition client_closed :: io_error where
  "client_closed = IoError BrokenPipe ''Client closed''"

section \<open>The pool of idle sessions\<close>

text \<open>
  Take the last entry; skip it when its session has ended, and terminate it when it has been
  idle for too long, unless the pool held no more than the minimum.
\<close>

function take_reusable :: "nat \<Rightarrow> client \<Rightarrow> client \<times> (nat \<times> u64) option" where
  "take_reusable now c =
     (if cl_idle c = [] then (c, None)
      else
        (let last_index = length (cl_idle c) - 1;
             protected = (length (cl_idle c) \<le> cl_min_idle c)
         in case swap_remove_index last_index (cl_idle c) of
              (_, None) \<Rightarrow> (c, None)
            | (idle, Some (seq, a, idle_since)) \<Rightarrow>
                (let c1 = c\<lparr>cl_idle := idle\<rparr> in
                 if is_terminated (session_at c1 a) then take_reusable now c1
                 else if \<not> protected \<and> cl_idle_timeout c1 \<le> now - idle_since
                   then take_reusable now (terminate_at a c1)
                 else (c1, Some (a, seq)))))"
  by pat_completeness auto
termination
  by (relation "measure (\<lambda>(now, c). length (cl_idle c))")
    (auto simp: swap_remove_index_def terminate_at_def upd_session_def split: if_splits)

declare take_reusable.simps [simp del]

definition return_session :: "nat \<Rightarrow> u64 \<Rightarrow> nat \<Rightarrow> client \<Rightarrow> client" where
  "return_session now seq a c =
     (if seq \<in> fst ` set (cl_idle c) then c else c\<lparr>cl_idle := cl_idle c @ [(seq, a, now)]\<rparr>)"

fun swap_remove_indices :: "nat list \<Rightarrow> 'a list \<Rightarrow> 'a list \<times> 'a list" where
  "swap_remove_indices [] xs = (xs, [])"
| "swap_remove_indices (i # is) xs =
     (case swap_remove_index i xs of
        (xs', None) \<Rightarrow> swap_remove_indices is xs'
      | (xs', Some x) \<Rightarrow> (case swap_remove_indices is xs' of (ys, removed) \<Rightarrow> (ys, x # removed)))"

definition timed_out :: "nat \<Rightarrow> nat \<Rightarrow> idle_entry \<Rightarrow> bool" where
  "timed_out now timeout e \<longleftrightarrow> timeout \<le> now - snd (snd e)"

definition cleanup_stale :: "nat \<Rightarrow> client \<Rightarrow> client" where
  "cleanup_stale now c =
     (if length (cl_idle c) \<le> cl_min_idle c then c
      else
        (let timed_out_indices =
               filter (\<lambda>i. timed_out now (cl_idle_timeout c) (cl_idle c ! i)) [0..<length (cl_idle c)]
         in if timed_out_indices = [] then c
            else
              (let max_removable = length (cl_idle c) - cl_min_idle c;
                   remove_count = min max_removable (length timed_out_indices);
                   to_remove = take remove_count timed_out_indices
               in case swap_remove_indices (rev to_remove) (cl_idle c) of
                    (idle, removed) \<Rightarrow>
                      terminate_all (map (\<lambda>e. fst (snd e)) removed) (c\<lparr>cl_idle := idle\<rparr>))))"

definition drain :: "client \<Rightarrow> client \<times> nat list" where
  "drain c = (c\<lparr>cl_idle := []\<rparr>, map (\<lambda>e. fst (snd e)) (cl_idle c))"

section \<open>Sessions and streams of the client\<close>

definition next_dial :: "client \<Rightarrow> client \<times> unit io_result" where
  "next_dial c =
     (case cl_dials c of [] \<Rightarrow> (c, Inr ()) | d # ds \<Rightarrow> (c\<lparr>cl_dials := ds\<rparr>, d))"

definition create_session ::
    "(stringmap \<Rightarrow> stringmap) \<Rightarrow> client \<Rightarrow> client \<times> (nat \<times> u64) io_result" where
  "create_session ord c =
     (case next_dial c of
        (c1, Inl e) \<Rightarrow> (c1, Inl e)
      | (c1, Inr _) \<Rightarrow>
          (case ensure_started ord (new_client_session (cl_padding c1)) of
             (s, Inl e) \<Rightarrow> (c1, Inl e)
           | (s, Inr _) \<Rightarrow>
               if cl_closed c1 then (c1, Inl client_closed)
               else
                 (let seq = cl_seq c1; a = length (cl_sessions c1) in
                  (c1\<lparr>cl_seq := seq + 1, cl_sessions := cl_sessions c1 @ [s],
                      cl_active := AList.update seq a (cl_active c1)\<rparr>, Inr (a, seq)))))"

text \<open>The task that runs a session removes it from the active ones when it has ended.\<close>

definition session_ended :: "u64 \<Rightarrow> client \<Rightarrow> client" where
  "session_ended seq c = c\<lparr>cl_active := swap_remove_key seq (cl_active c)\<rparr>"

definition find_or_create_session ::
    "(stringmap \<Rightarrow> stringmap) \<Rightarrow> nat \<Rightarrow> client \<Rightarrow> client \<times> (nat \<times> u64) io_result" where
  "find_or_create_session ord now c =
     (if cl_closed c then (c, Inl client_closed)
      else
        (case take_reusable now c of
           (c1, Some (a, seq)) \<Rightarrow> (c1, Inr (a, seq))
         | (c1, None) \<Rightarrow>
             (case filter (\<lambda>(seq, a). \<not> is_terminated (session_at c1 a) \<and>
                       has_stream_capacity (cl_max_streams c1) (session_at c1 a)) (cl_active c1) of
                (seq, a) # _ \<Rightarrow> (c1, Inr (a, seq))
              | [] \<Rightarrow>
                  if cl_closed c1 then (c1, Inl client_closed) else create_session ord c1)))"

text \<open>
  The task that returns a session to the pool runs once more between any two of its awaits;
  its checks of the session and its entry into the pool are separate steps.
\<close>

definition spawn_idle_return_task :: "u64 \<Rightarrow> nat \<Rightarrow> client \<Rightarrow> client" where
  "spawn_idle_return_task seq a c = c\<lparr>cl_waiters := cl_waiters c @ [(Spawned, seq, a)]\<rparr>"

definition set_phase :: "nat \<Rightarrow> waiter_phase \<Rightarrow> client \<Rightarrow> client" where
  "set_phase i ph c = c\<lparr>cl_waiters := (cl_waiters c)[i := (ph, snd (cl_waiters c ! i))]\<rparr>"

definition waiter_step :: "nat \<Rightarrow> nat \<Rightarrow> client \<Rightarrow> client" where
  "waiter_step now i c =
     (case cl_waiters c ! i of (ph, seq, a) \<Rightarrow>
      let s = session_at c a in
      case ph of
        Spawned \<Rightarrow>
          if is_terminated s then set_phase i Ended c
          else if \<not> is_stream_open s then set_phase i Returning c
          else set_phase i Waiting c
      | Waiting \<Rightarrow> if idle_or_terminated s then set_phase i Woken c else c
      | Woken \<Rightarrow>
          if is_terminated s then set_phase i Ended c
          else if is_stream_open s then set_phase i Ended c
          else set_phase i Returning c
      | Returning \<Rightarrow> return_session now seq a (set_phase i Ended c)
      | Ended \<Rightarrow> c)"

fun create_stream_loop ::
    "nat \<Rightarrow> (stringmap \<Rightarrow> stringmap) \<Rightarrow> nat \<Rightarrow> io_error option \<Rightarrow> client \<Rightarrow>
     client \<times> (nat \<times> nat) io_result" where
  "create_stream_loop 0 ord now last_error c =
     (c, Inl (case last_error of Some e \<Rightarrow> e | None \<Rightarrow> error_other ''Failed to create stream''))"
| "create_stream_loop (Suc n) ord now last_error c =
     (if cl_closed c then (c, Inl client_closed)
      else
        (case find_or_create_session ord now c of
           (c1, Inl e) \<Rightarrow> (c1, Inl e)
         | (c1, Inr (a, seq)) \<Rightarrow>
             (case open_stream (cl_max_streams c1) (session_at c1 a) of
                (s, Inr x) \<Rightarrow> (spawn_idle_return_task seq a (upd_session a s c1), Inr (a, x))
              | (s, Inl e) \<Rightarrow>
                  (let c2 = upd_session a s c1 in
                   if kind e = WouldBlock then create_stream_loop n ord now (Some e) c2
                   else create_stream_loop n ord now (Some e) (terminate_at a c2)))))"

definition create_stream ::
    "(stringmap \<Rightarrow> stringmap) \<Rightarrow> nat \<Rightarrow> client \<Rightarrow> client \<times> (nat \<times> nat) io_result" where
  "create_stream ord now c =
     (if cl_closed c then (c, Inl client_closed) else create_stream_loop 3 ord now None c)"

definition client_close :: "client \<Rightarrow> client" where
  "client_close c =
     (if cl_closed c then c
      else
        (let active = map snd (cl_active c);
             (c1, idle) = drain (c\<lparr>cl_closed := True, cl_active := []\<rparr>)
         in terminate_all (active @ idle) c1))"

section \<open>Removal by index\<close>

text \<open>
  Removing the entries at ascending indices in descending order removes exactly the entries
  that stood there: the entry that fills a gap comes from behind all remaining indices.
\<close>

lemma swap_remove_index_Some:
  assumes "i < length xs"
  shows "swap_remove_index i xs = ((butlast xs)[i := last xs], Some (xs ! i))"
    "mset ((butlast xs)[i := last xs]) + {#xs ! i#} = mset xs"
    "\<And>j. j < i \<Longrightarrow> (butlast xs)[i := last xs] ! j = xs ! j"
proof -
  show "swap_remove_index i xs = ((butlast xs)[i := last xs], Some (xs ! i))"
    using assms by (simp add: swap_remove_index_def)
  obtain ys y where xs: "xs = ys @ [y]" using assms by (cases xs rule: rev_cases) auto
  show "mset ((butlast xs)[i := last xs]) + {#xs ! i#} = mset xs"
  proof (cases "i < length ys")
    case True
    then show ?thesis by (simp add: xs mset_update nth_append)
  next
    case False
    with assms have "i = length ys" by (simp add: xs)
    then show ?thesis by (simp add: xs list_update_beyond)
  qed
  show "\<And>j. j < i \<Longrightarrow> (butlast xs)[i := last xs] ! j = xs ! j"
    using assms by (simp add: nth_butlast)
qed

lemma swap_remove_indices_rev:
  assumes "sorted_wrt (<) is" "\<forall>i \<in> set is. i < length xs"
  shows "snd (swap_remove_indices (rev is) xs) = map (nth xs) (rev is) \<and>
    mset (fst (swap_remove_indices (rev is) xs)) + mset (map (nth xs) is) = mset xs"
  using assms
proof (induction "is" arbitrary: xs rule: rev_induct)
  case Nil
  then show ?case by simp
next
  case (snoc i "is")
  let ?ys = "(butlast xs)[i := last xs]"
  have i: "i < length xs" and below: "\<forall>j \<in> set is. j < i"
    using snoc.prems by (auto simp: sorted_wrt_append)
  note one = swap_remove_index_Some [OF i]
  have "?ys ! j = xs ! j" if "j \<in> set is" for j using one(3) below that by blast
  then have same: "map (nth ?ys) is = map (nth xs) is" by simp
  have "\<forall>j \<in> set is. j < length ?ys" using below i by fastforce
  with snoc.IH [of ?ys] snoc.prems(1)
  have IH: "snd (swap_remove_indices (rev is) ?ys) = map (nth ?ys) (rev is)"
    "mset (fst (swap_remove_indices (rev is) ?ys)) + mset (map (nth ?ys) is) = mset ?ys"
    by (auto simp: sorted_wrt_append)
  have step: "swap_remove_indices (rev (is @ [i])) xs =
      (fst (swap_remove_indices (rev is) ?ys), xs ! i # snd (swap_remove_indices (rev is) ?ys))"
    by (simp add: one(1) case_prod_beta)
  have "map (nth ?ys) (rev is) = map (nth xs) (rev is)" using same by (metis rev_map)
  moreover have "mset (fst (swap_remove_indices (rev is) ?ys)) + mset (map (nth xs) (is @ [i])) = mset xs"
    using IH(2) one(2) unfolding same by (simp add: add.assoc [symmetric])
  ultimately show ?case unfolding step using IH(1) by simp
qed

lemma map_nth_filter_indices:
  "map (nth xs) (filter (\<lambda>i. P (xs ! i)) [0..<length xs]) = filter P xs"
proof (induction xs rule: rev_induct)
  case Nil
  then show ?case by simp
next
  case (snoc x xs)
  have "filter (\<lambda>i. P ((xs @ [x]) ! i)) [0..<length xs] = filter (\<lambda>i. P (xs ! i)) [0..<length xs]"
    by (rule filter_cong) (simp_all add: nth_append)
  moreover have "map (nth (xs @ [x])) (filter (\<lambda>i. P (xs ! i)) [0..<length xs]) =
      map (nth xs) (filter (\<lambda>i. P (xs ! i)) [0..<length xs])"
    by (rule map_cong) (auto simp: nth_append)
  ultimately show ?case using snoc by simp
qed

section \<open>Terminating sessions of the client\<close>

lemma terminate_closed: "se_closed s \<Longrightarrow> terminate s = (s, Inr ())"
  by (simp add: terminate_def)

lemma closed_terminate [simp]: "se_closed (fst (terminate s))"
  by (simp add: terminate_def)

lemma terminate_at_fields [simp]:
  "cl_idle (terminate_at a c) = cl_idle c" "cl_active (terminate_at a c) = cl_active c"
  "cl_closed (terminate_at a c) = cl_closed c" "cl_seq (terminate_at a c) = cl_seq c"
  "cl_min_idle (terminate_at a c) = cl_min_idle c" "cl_idle_timeout (terminate_at a c) = cl_idle_timeout c"
  "cl_max_streams (terminate_at a c) = cl_max_streams c" "cl_waiters (terminate_at a c) = cl_waiters c"
  "length (cl_sessions (terminate_at a c)) = length (cl_sessions c)"
  by (simp_all add: terminate_at_def upd_session_def)

lemma terminate_all_fields [simp]:
  "cl_idle (terminate_all as c) = cl_idle c" "cl_active (terminate_all as c) = cl_active c"
  "cl_closed (terminate_all as c) = cl_closed c" "cl_seq (terminate_all as c) = cl_seq c"
  "cl_min_idle (terminate_all as c) = cl_min_idle c" "cl_idle_timeout (terminate_all as c) = cl_idle_timeout c"
  "cl_max_streams (terminate_all as c) = cl_max_streams c" "cl_waiters (terminate_all as c) = cl_waiters c"
  "length (cl_sessions (terminate_all as c)) = length (cl_sessions c)"
  by (induction as c rule: terminate_all.induct) simp_all

lemma session_at_terminate_at:
  "b < length (cl_sessions c) \<Longrightarrow>
   session_at (terminate_at a c) b = (if a = b then fst (terminate (session_at c a)) else session_at c b)"
  by (simp add: terminate_at_def upd_session_def nth_list_update)

lemma session_at_terminate_all:
  "b < length (cl_sessions c) \<Longrightarrow>
   session_at (terminate_all as c) b = (if b \<in> set as then fst (terminate (session_at c b)) else session_at c b)"
proof (induction as arbitrary: c)
  case Nil
  then show ?case by simp
next
  case (Cons a as)
  then show ?case
    using terminate_closed [OF closed_terminate, of "session_at c b"]
    by (auto simp: session_at_terminate_at)
qed

section \<open>Reuse of idle sessions\<close>

lemma take_reusable_Nil: "cl_idle c = [] \<Longrightarrow> take_reusable now c = (c, None)"
  by (simp add: take_reusable.simps [of now c])

lemma take_reusable_snoc:
  assumes "cl_idle c = xs @ [(seq, a, since)]"
  shows "take_reusable now c =
    (if is_terminated (session_at c a) then take_reusable now (c\<lparr>cl_idle := xs\<rparr>)
     else if cl_min_idle c < length (cl_idle c) \<and> cl_idle_timeout c \<le> now - since
       then take_reusable now (terminate_at a (c\<lparr>cl_idle := xs\<rparr>))
     else (c\<lparr>cl_idle := xs\<rparr>, Some (a, seq)))"
proof -
  have "swap_remove_index (length (cl_idle c) - 1) (cl_idle c) = (xs, Some (seq, a, since))"
    by (simp add: assms swap_remove_index_def list_update_beyond)
  then show ?thesis
    using assms by (subst take_reusable.simps) (simp add: Let_def not_le)
qed

abbreviation entry_address :: "idle_entry \<Rightarrow> nat" where
  "entry_address e \<equiv> fst (snd e)"

lemma is_terminated_terminate: "is_terminated (fst (terminate s))"
  by (simp add: is_terminated_def)

lemma take_reusable_induct [case_names Nil ended stale good]:
  assumes "\<And>c. cl_idle c = [] \<Longrightarrow> P c (c, None)"
    and "\<And>c xs seq a since. cl_idle c = xs @ [(seq, a, since)] \<Longrightarrow> is_terminated (session_at c a) \<Longrightarrow>
      P (c\<lparr>cl_idle := xs\<rparr>) (take_reusable now (c\<lparr>cl_idle := xs\<rparr>)) \<Longrightarrow>
      P c (take_reusable now (c\<lparr>cl_idle := xs\<rparr>))"
    and "\<And>c xs seq a since. cl_idle c = xs @ [(seq, a, since)] \<Longrightarrow>
      P (terminate_at a (c\<lparr>cl_idle := xs\<rparr>)) (take_reusable now (terminate_at a (c\<lparr>cl_idle := xs\<rparr>))) \<Longrightarrow>
      P c (take_reusable now (terminate_at a (c\<lparr>cl_idle := xs\<rparr>)))"
    and "\<And>c xs seq a since. cl_idle c = xs @ [(seq, a, since)] \<Longrightarrow> \<not> is_terminated (session_at c a) \<Longrightarrow>
      now - since < cl_idle_timeout c \<or> length xs < cl_min_idle c \<Longrightarrow>
      P c (c\<lparr>cl_idle := xs\<rparr>, Some (a, seq))"
  shows "P c (take_reusable now c)"
proof (induction "length (cl_idle c)" arbitrary: c)
  case 0
  then show ?case using assms(1) by (simp add: take_reusable_Nil)
next
  case (Suc n)
  then obtain xs e where "cl_idle c = xs @ [e]" by (cases "cl_idle c" rule: rev_cases) auto
  then obtain seq a since where idle: "cl_idle c = xs @ [(seq, a, since)]" by (cases e) auto
  with Suc.hyps(2) have n: "n = length (cl_idle (c\<lparr>cl_idle := xs\<rparr>))" by simp
  show ?case
    unfolding take_reusable_snoc [OF idle]
    using assms(2) [OF idle _ Suc.hyps(1) [OF n]] assms(4) [OF idle]
      assms(3) [OF idle Suc.hyps(1) [of "terminate_at a (c\<lparr>cl_idle := xs\<rparr>)"]] n
    by (auto simp: idle not_le)
qed

text \<open>Sessions either stay as they are or are terminated, and nothing but the pool changes.\<close>

definition client_rest :: "client \<Rightarrow> client" where
  "client_rest c = c\<lparr>cl_idle := [], cl_sessions := []\<rparr>"

definition kept_or_ended :: "session \<Rightarrow> session \<Rightarrow> bool" where
  "kept_or_ended s s' \<longleftrightarrow> s' = s \<or> s' = fst (terminate s)"

definition ends_some :: "client \<Rightarrow> client \<Rightarrow> bool" where
  "ends_some c c' \<longleftrightarrow>
     client_rest c' = client_rest c \<and> length (cl_sessions c') = length (cl_sessions c) \<and>
     (\<forall>a < length (cl_sessions c). kept_or_ended (session_at c a) (session_at c' a))"

lemma kept_or_ended_trans: "kept_or_ended s s1 \<Longrightarrow> kept_or_ended s1 s2 \<Longrightarrow> kept_or_ended s s2"
  using terminate_closed [OF closed_terminate, of s] by (auto simp: kept_or_ended_def)

lemma is_terminated_ended: "kept_or_ended s s' \<Longrightarrow> is_terminated s \<Longrightarrow> is_terminated s'"
  by (auto simp: kept_or_ended_def is_terminated_terminate)

lemma ends_some_idle: "ends_some c (c\<lparr>cl_idle := xs\<rparr>)"
  by (simp add: ends_some_def client_rest_def kept_or_ended_def)

lemma ends_some_refl: "ends_some c c"
  by (simp add: ends_some_def kept_or_ended_def)

lemma ends_some_terminate: "ends_some c (terminate_at a (c\<lparr>cl_idle := xs\<rparr>))"
proof -
  have "kept_or_ended (session_at c b) (session_at (terminate_at a (c\<lparr>cl_idle := xs\<rparr>)) b)"
    if "b < length (cl_sessions c)" for b
    using that by (simp add: session_at_terminate_at kept_or_ended_def)
  then show ?thesis
    by (simp add: ends_some_def) (simp add: client_rest_def terminate_at_def upd_session_def)
qed

lemma ends_some_trans: "ends_some c c1 \<Longrightarrow> ends_some c1 c2 \<Longrightarrow> ends_some c c2"
  unfolding ends_some_def by (metis kept_or_ended_trans)

lemma ends_some_fields:
  assumes "ends_some c c'"
  shows "cl_active c' = cl_active c" "cl_seq c' = cl_seq c" "cl_closed c' = cl_closed c"
    "cl_padding c' = cl_padding c" "cl_idle_timeout c' = cl_idle_timeout c" "cl_min_idle c' = cl_min_idle c"
    "cl_max_streams c' = cl_max_streams c" "cl_waiters c' = cl_waiters c" "cl_dials c' = cl_dials c"
  using assms by (cases c; cases c'; simp add: ends_some_def client_rest_def)+

lemma ends_some_take_reusable: "ends_some c (fst (take_reusable now c))"
proof (rule take_reusable_induct [where P = "\<lambda>c r. ends_some c (fst r)"], goal_cases)
  case (1 c)
  show ?case by (simp add: ends_some_refl)
next
  case (2 c xs seq a since)
  show ?case by (rule ends_some_trans [OF ends_some_idle 2(3)])
next
  case (3 c xs seq a since)
  show ?case by (rule ends_some_trans [OF ends_some_terminate 3(2)])
next
  case (4 c xs seq a since)
  show ?case by (simp add: ends_some_idle)
qed

lemma take_reusable_fields:
  assumes "take_reusable now c = (c', r)"
  shows "ends_some c c'" using ends_some_take_reusable [of c now] assms by simp

text \<open>Entries skipped by \<open>take_reusable\<close> belong to sessions that have ended afterwards.\<close>

definition taken :: "nat \<Rightarrow> client \<Rightarrow> client \<times> (nat \<times> u64) option \<Rightarrow> bool" where
  "taken now c p \<longleftrightarrow>
     (case p of
        (c', None) \<Rightarrow>
          cl_idle c' = [] \<and> (\<forall>e \<in> set (cl_idle c). is_terminated (session_at c' (entry_address e)))
      | (c', Some (a, seq)) \<Rightarrow>
          \<not> is_terminated (session_at c' a) \<and>
          (\<exists>since skipped. cl_idle c = cl_idle c' @ (seq, a, since) # skipped \<and>
             (now - since < cl_idle_timeout c \<or> length (cl_idle c') < cl_min_idle c) \<and>
             (\<forall>e \<in> set skipped. is_terminated (session_at c' (entry_address e)))))"

lemma taken_skip:
  assumes "cl_idle c = cl_idle c1 @ [(seq, a, since)]" "cl_idle_timeout c1 = cl_idle_timeout c"
    and "cl_min_idle c1 = cl_min_idle c" "taken now c1 (c', r)" "is_terminated (session_at c' a)"
  shows "taken now c (c', r)"
proof (cases r)
  case None
  with assms show ?thesis by (auto simp: taken_def)
next
  case (Some p)
  obtain b k where p: "p = (b, k)" by (cases p)
  obtain t skipped where "cl_idle c1 = cl_idle c' @ (k, b, t) # skipped"
    "now - t < cl_idle_timeout c \<or> length (cl_idle c') < cl_min_idle c"
    "\<forall>e \<in> set skipped. is_terminated (session_at c' (entry_address e))" "\<not> is_terminated (session_at c' b)"
    using assms(2-4) by (auto simp: taken_def Some p)
  with assms(1,5) show ?thesis
    by (auto simp: taken_def Some p intro!: exI [of _ t] exI [of _ "skipped @ [(seq, a, since)]"])
qed

lemma take_reusable_taken:
  "(\<forall>e \<in> set (cl_idle c). entry_address e < length (cl_sessions c)) \<longrightarrow> taken now c (take_reusable now c)"
proof (rule take_reusable_induct [where
      P = "\<lambda>c p. (\<forall>e \<in> set (cl_idle c). entry_address e < length (cl_sessions c)) \<longrightarrow> taken now c p"], goal_cases)
  case (1 c)
  then show ?case by (simp add: taken_def)
next
  case (2 c xs seq a since)
  show ?case
  proof
    assume addr: "\<forall>e \<in> set (cl_idle c). entry_address e < length (cl_sessions c)"
    let ?c1 = "c\<lparr>cl_idle := xs\<rparr>"
    obtain c' r where t: "take_reusable now ?c1 = (c', r)" by (cases "take_reusable now ?c1")
    have "ends_some ?c1 c'" by (rule take_reusable_fields [OF t])
    then have "is_terminated (session_at c' a)"
      using 2(1,2) addr by (auto simp: ends_some_def intro: is_terminated_ended)
    moreover have "taken now ?c1 (c', r)" using 2(1,3) addr t by simp
    ultimately show "taken now c (take_reusable now ?c1)"
      using 2(1) unfolding t by (intro taken_skip [of c ?c1]) auto
  qed
next
  case (3 c xs seq a since)
  show ?case
  proof
    assume addr: "\<forall>e \<in> set (cl_idle c). entry_address e < length (cl_sessions c)"
    let ?c1 = "terminate_at a (c\<lparr>cl_idle := xs\<rparr>)"
    obtain c' r where t: "take_reusable now ?c1 = (c', r)" by (cases "take_reusable now ?c1")
    have a: "a < length (cl_sessions c)" using addr 3(1) by auto
    then have "is_terminated (session_at ?c1 a)"
      by (simp add: session_at_terminate_at is_terminated_terminate)
    moreover have "ends_some ?c1 c'" by (rule take_reusable_fields [OF t])
    ultimately have "is_terminated (session_at c' a)"
      using a by (auto simp: ends_some_def intro: is_terminated_ended)
    moreover have "taken now ?c1 (c', r)" using 3(1,2) addr t by simp
    ultimately show "taken now c (take_reusable now ?c1)"
      using 3(1) unfolding t by (intro taken_skip [of c ?c1]) auto
  qed
next
  case (4 c xs seq a since)
  then show ?case by (auto simp: taken_def intro!: exI [of _ since] exI [of _ "[]"])
qed

end
