(* ===== verification/Client_Inv.thy ===== *)
theory Client_Inv
  imports Client_Pool
begin

text \<open>
  The invariant of the client, the states it can reach, and the properties of its operations:
  the bound on streams per session, the reuse and the cleaning of the pool, the success of
  \<open>create_stream\<close> when connections can be made, and the effect of closing the client.
\<close>

section \<open>The invariant\<close>

definition pooled :: "nat \<Rightarrow> session \<Rightarrow> bool" where
  "pooled m s \<longleftrightarrow> session_inv s \<and> se_is_client s \<and> length (se_streams s) \<le> m"

definition client_inv :: "client \<Rightarrow> bool" where
  "client_inv c \<longleftrightarrow>
     list_all (pooled (cl_max_streams c)) (cl_sessions c) \<and> 1 \<le> cl_max_streams c \<and>
     (\<forall>e \<in> set (cl_active c). snd e < length (cl_sessions c)) \<and>
     (\<forall>e \<in> set (cl_idle c). entry_address e < length (cl_sessions c)) \<and>
     (\<forall>w \<in> set (cl_waiters c). snd (snd w) < length (cl_sessions c)) \<and>
     distinct (map fst (cl_idle c))"

text \<open>Operations that enter no stream into the map, and leave the role of the session alone.\<close>

definition no_more_streams :: "session \<Rightarrow> session \<Rightarrow> bool" where
  "no_more_streams s s' \<longleftrightarrow> se_is_client s' = se_is_client s \<and> length (se_streams s') \<le> length (se_streams s)"

lemma close_streams_sizes [simp]:
  "se_is_client (close_streams as s) = se_is_client s" "se_streams (close_streams as s) = se_streams s"
  by (induction as s rule: close_streams.induct)
    (simp_all add: close_from_session_def mark_closed_def upd_stream_def)

lemma terminate_sizes:
  "se_is_client (fst (terminate s)) = se_is_client s" "length (se_streams (fst (terminate s))) \<le> length (se_streams s)"
  by (simp_all add: terminate_def)

lemma pooled_no_more: "session_inv s' \<Longrightarrow> no_more_streams s s' \<Longrightarrow> pooled m s \<Longrightarrow> pooled m s'"
  by (simp add: pooled_def no_more_streams_def)

lemma pooled_terminate: "pooled m s \<Longrightarrow> pooled m (fst (terminate s))"
  using session_inv_terminate [of s] terminate_sizes [of s] by (simp add: pooled_def)

lemma pooled_kept: "kept_or_ended s s' \<Longrightarrow> pooled m s \<Longrightarrow> pooled m s'"
  by (auto simp: kept_or_ended_def pooled_terminate)

lemma length_alist_update: "length (AList.update k v xs) \<le> Suc (length xs)"
  by (induction xs) auto

lemma length_alist_delete: "length (AList.delete k xs) \<le> length xs"
  by (simp add: AList.delete_eq)

lemma pooled_open_stream:
  assumes "pooled m s"
  shows "pooled m (fst (open_stream m s))"
proof -
  have "length (se_streams (fst (open_stream m s))) \<le> m"
  proof (cases "\<not> is_terminated s \<and> length (se_streams s) < m \<and> se_next_stream_id s + 1 \<noteq> 0")
    case True
    with length_alist_update [of "se_next_stream_id s + 1" "length (se_heap s)" "se_streams s"]
    show ?thesis by (simp add: open_stream_success)
  next
    case False
    with assms show ?thesis
      by (auto simp: pooled_def open_stream_def is_terminated_def not_less Let_def)
  qed
  moreover have "se_is_client (fst (open_stream m s)) = se_is_client s"
    by (auto simp: open_stream_def insert_stream_def write_frame_def channel_frame_def
        close_from_session_def mark_closed_def remove_stream_def upd_stream_def Let_def)
  ultimately show ?thesis using assms by (simp add: pooled_def session_inv_open_stream)
qed

lemma ensure_started_new:
  "ensure_started ord (new_client_session pf) =
     ((new_client_session pf)\<lparr>se_started := True,
        se_frames := [(client_hello ord pf PROGRAM_VERSION_NAME, False)]\<rparr>, Inr ())"
  by (simp add: ensure_started_def protocol_on_session_start_def on_session_start_def session_host_def
      new_client_session_def session_new_with_protocol_def write_frame_def channel_frame_def
      state_new_def client_hello_def)

lemma pooled_new: "pooled m (fst (ensure_started ord (new_client_session pf)))"
  unfolding ensure_started_new
  by (simp add: pooled_def session_inv_def new_client_session_def session_new_with_protocol_def)

section \<open>Preservation\<close>

lemma client_inv_new [inv_intros]: "client_inv (client_new pf t mi ms)"
  by (simp add: client_inv_def client_new_def)

lemma client_inv_ends_some:
  assumes "client_inv c" "ends_some c c'" "set (cl_idle c') \<subseteq> set (cl_idle c)" "distinct (map fst (cl_idle c'))"
  shows "client_inv c'"
proof -
  note f = ends_some_fields [OF assms(2)]
  have "pooled (cl_max_streams c) (session_at c' a)" if "a < length (cl_sessions c)" for a
    using assms(1,2) that pooled_kept by (auto simp: client_inv_def ends_some_def list_all_length)
  moreover have "length (cl_sessions c') = length (cl_sessions c)" using assms(2) by (simp add: ends_some_def)
  ultimately show ?thesis
    using assms(1,3,4) by (auto simp: client_inv_def f list_all_length)
qed

lemma taken_idle:
  assumes "taken now c (c', r)" "distinct (map fst (cl_idle c))"
  shows "set (cl_idle c') \<subseteq> set (cl_idle c) \<and> distinct (map fst (cl_idle c'))"
  using assms by (auto simp: taken_def split: option.splits)

lemma take_reusable_inv:
  assumes "client_inv c" "take_reusable now c = (c', r)"
  shows "client_inv c'" "taken now c (c', r)" "ends_some c c'"
proof -
  show t: "taken now c (c', r)"
    using take_reusable_taken [of c now] assms by (simp add: client_inv_def)
  show e: "ends_some c c'" by (rule take_reusable_fields [OF assms(2)])
  show "client_inv c'"
    using client_inv_ends_some [OF assms(1) e] taken_idle [OF t] assms(1) by (simp add: client_inv_def)
qed

lemma client_inv_upd_session [inv_intros]:
  assumes "client_inv c" "a < length (cl_sessions c) \<Longrightarrow> pooled (cl_max_streams c) s"
  shows "client_inv (upd_session a s c)"
  using assms by (auto simp: client_inv_def upd_session_def intro!: list_all_upd)

lemma client_inv_terminate_at [inv_intros]: "client_inv c \<Longrightarrow> client_inv (terminate_at a c)"
  unfolding terminate_at_def
  by (intro client_inv_upd_session pooled_terminate) (auto simp: client_inv_def list_all_at)

lemma client_inv_terminate_all [inv_intros]: "client_inv c \<Longrightarrow> client_inv (terminate_all as c)"
  by (induction as c rule: terminate_all.induct) (simp_all add: client_inv_terminate_at)

lemma client_inv_cleanup [inv_intros]:
  assumes "client_inv c"
  shows "client_inv (cleanup_stale now c)"
proof (cases "cl_min_idle c < length (cl_idle c)")
  case False
  with assms show ?thesis by (simp add: cleanup_stale_def)
next
  case True
  define idx where "idx = filter (\<lambda>i. timed_out now (cl_idle_timeout c) (cl_idle c ! i)) [0..<length (cl_idle c)]"
  define js where "js = take (min (length (cl_idle c) - cl_min_idle c) (length idx)) idx"
  obtain ys zs where rem: "swap_remove_indices (rev js) (cl_idle c) = (ys, zs)"
    by (cases "swap_remove_indices (rev js) (cl_idle c)")
  have srt: "sorted_wrt (<) js" unfolding js_def idx_def by (intro sorted_wrt_take sorted_wrt_filter) simp
  have bound: "\<forall>i \<in> set js. i < length (cl_idle c)" by (auto simp: js_def idx_def dest!: in_set_takeD)
  have m: "mset ys + mset (map (nth (cl_idle c)) js) = mset (cl_idle c)"
    using swap_remove_indices_rev [OF srt bound] rem by simp
  then have "set ys \<subseteq> set (cl_idle c)" by (metis mset_subset_eq_add_left set_mset_mono set_mset_mset)
  moreover have "mset (map fst (ys @ map (nth (cl_idle c)) js)) = mset (map fst (cl_idle c))"
    using m by (metis mset_append mset_map)
  from mset_eq_imp_distinct_iff [OF this] have "distinct (map fst ys)"
    using assms by (simp add: client_inv_def)
  ultimately have "client_inv (c\<lparr>cl_idle := ys\<rparr>)" using assms by (auto simp: client_inv_def)
  moreover have "cleanup_stale now c =
      (if idx = [] then c else terminate_all (map (\<lambda>e. fst (snd e)) zs) (c\<lparr>cl_idle := ys\<rparr>))"
    using True rem by (simp add: cleanup_stale_def idx_def [symmetric] js_def [symmetric] Let_def)
  ultimately show ?thesis using assms by (simp add: client_inv_terminate_all)
qed

lemma create_session_eq:
  "create_session ord c =
     (case next_dial c of
        (c1, Inl e) \<Rightarrow> (c1, Inl e)
      | (c1, Inr _) \<Rightarrow>
          if cl_closed c1 then (c1, Inl client_closed)
          else
            (c1\<lparr>cl_seq := cl_seq c1 + 1,
                cl_sessions := cl_sessions c1 @ [fst (ensure_started ord (new_client_session (cl_padding c1)))],
                cl_active := AList.update (cl_seq c1) (length (cl_sessions c1)) (cl_active c1)\<rparr>,
             Inr (length (cl_sessions c1), cl_seq c1)))"
  unfolding create_session_def ensure_started_new
  by (cases "next_dial c"; cases "snd (next_dial c)") (simp_all add: Let_def)

lemma client_inv_next_dial:
  "client_inv c \<Longrightarrow> client_inv (fst (next_dial c))"
  by (simp add: next_dial_def client_inv_def split: list.split)

lemma client_inv_create_session [inv_intros]:
  assumes "client_inv c"
  shows "client_inv (fst (create_session ord c))"
proof -
  obtain c1 r where d: "next_dial c = (c1, r)" by (cases "next_dial c")
  then have c1: "client_inv c1" using client_inv_next_dial [OF assms] by simp
  have mem: "e \<in> set (AList.update k a xs) \<Longrightarrow> e = (k, a) \<or> e \<in> set xs" for e k a and xs :: "(u64 \<times> nat) list"
    using set_alist_update [of k a xs] by auto
  have "client_inv (c1\<lparr>cl_seq := cl_seq c1 + 1,
      cl_sessions := cl_sessions c1 @ [fst (ensure_started ord (new_client_session (cl_padding c1)))],
      cl_active := AList.update (cl_seq c1) (length (cl_sessions c1)) (cl_active c1)\<rparr>)"
    using c1 by (auto simp: client_inv_def pooled_new dest!: mem intro: less_SucI)
  with c1 d show ?thesis by (cases r) (simp_all add: create_session_eq)
qed

lemma create_session_Inr:
  assumes "create_session ord c = (c', Inr (a, seq))"
  shows "a < length (cl_sessions c')" "cl_max_streams c' = cl_max_streams c"
    "session_at c' a = fst (ensure_started ord (new_client_session (cl_padding c)))"
  using assms
  by (auto simp: create_session_eq next_dial_def split: list.splits prod.splits sum.splits if_splits)

lemma find_or_create_inv:
  assumes "client_inv c" "find_or_create_session ord now c = (c', r)"
  shows "client_inv c'" "r = Inr (a, seq) \<Longrightarrow> a < length (cl_sessions c')"
proof -
  obtain c1 t where t: "take_reusable now c = (c1, t)" by (cases "take_reusable now c")
  note c1 = take_reusable_inv [OF assms(1) t]
  have len: "length (cl_sessions c1) = length (cl_sessions c)" using c1(3) by (simp add: ends_some_def)
  show "client_inv c'"
    using assms c1(1) t client_inv_create_session [OF c1(1), of ord]
    by (auto simp: find_or_create_session_def split: if_splits option.splits list.splits prod.splits)
  show "a < length (cl_sessions c')" if r: "r = Inr (a, seq)"
  proof (cases t)
    case (Some p)
    obtain b k where p: "p = (b, k)" by (cases p)
    have "b < length (cl_sessions c1)"
      using c1(2) assms(1) by (auto simp: taken_def Some p client_inv_def len)
    with assms(2) r t show ?thesis by (auto simp: find_or_create_session_def Some p split: if_splits)
  next
    case None
    let ?ok = "\<lambda>(seq, a). \<not> is_terminated (session_at c1 a) \<and> has_stream_capacity (cl_max_streams c1) (session_at c1 a)"
    show ?thesis
    proof (cases "filter ?ok (cl_active c1)")
      case Nil
      with assms(2) r t None have "create_session ord c1 = (c', Inr (a, seq))"
        by (auto simp: find_or_create_session_def split: if_splits)
      from create_session_Inr(1) [OF this] show ?thesis .
    next
      case (Cons e es)
      then have "e \<in> set (cl_active c1)" by (metis filter_is_subset list.set_intros(1) subsetD)
      with c1(1) have "snd e < length (cl_sessions c1)" by (simp add: client_inv_def)
      with assms(2) r t None Cons show ?thesis
        by (cases e) (auto simp: find_or_create_session_def split: if_splits)
    qed
  qed
qed

lemma client_inv_spawn [inv_intros]:
  "client_inv c \<Longrightarrow> a < length (cl_sessions c) \<Longrightarrow> client_inv (spawn_idle_return_task seq a c)"
  by (auto simp: client_inv_def spawn_idle_return_task_def)

lemma pooled_at: "client_inv c \<Longrightarrow> a < length (cl_sessions c) \<Longrightarrow> pooled (cl_max_streams c) (session_at c a)"
  by (simp add: client_inv_def list_all_at)

lemma client_inv_create_stream_loop:
  "client_inv c \<Longrightarrow> client_inv (fst (create_stream_loop n ord now err c))"
proof (induction n arbitrary: err c)
  case 0
  then show ?case by simp
next
  case (Suc n)
  obtain c1 r where f: "find_or_create_session ord now c = (c1, r)" by (cases "find_or_create_session ord now c")
  note c1 = find_or_create_inv [OF Suc.prems f]
  show ?case
  proof (cases "cl_closed c \<or> \<not> is_ok r")
    case True
    with Suc.prems c1(1) f show ?thesis by (cases r) auto
  next
    case False
    then obtain a seq where r: "r = Inr (a, seq)" by (cases r) auto
    obtain s q where o: "open_stream (cl_max_streams c1) (session_at c1 a) = (s, q)"
      by (cases "open_stream (cl_max_streams c1) (session_at c1 a)")
    have "pooled (cl_max_streams c1) s"
      using pooled_open_stream [OF pooled_at [OF c1(1) c1(2) [OF r]]] o by (metis fst_conv)
    then have c2: "client_inv (upd_session a s c1)" using c1(1) by (simp add: client_inv_upd_session)
    have "a < length (cl_sessions (upd_session a s c1))" using c1(2) [OF r] by (simp add: upd_session_def)
    with c2 False f r o show ?thesis
      by (cases q) (auto simp: Let_def intro!: Suc.IH client_inv_spawn client_inv_terminate_at)
  qed
qed

lemma client_inv_create_stream [inv_intros]: "client_inv c \<Longrightarrow> client_inv (fst (create_stream ord now c))"
  by (simp add: create_stream_def client_inv_create_stream_loop)

lemma client_inv_close [inv_intros]: "client_inv c \<Longrightarrow> client_inv (client_close c)"
  by (auto simp: client_close_def drain_def Let_def intro!: client_inv_terminate_all) (simp add: client_inv_def)

lemma set_swap_remove_index: "set (fst (swap_remove_index i xs)) \<subseteq> set xs"
proof (cases "i < length xs")
  case True
  from swap_remove_index_Some(2) [OF True] have "mset ((butlast xs)[i := last xs]) \<subseteq># mset xs"
    by (metis mset_subset_eq_add_left)
  then show ?thesis
    unfolding swap_remove_index_Some(1) [OF True] by (simp add: set_mset_mono [THEN subset_trans, of _ _ "set xs"])
      (metis set_mset_mono set_mset_mset)
qed (simp add: swap_remove_index_def)

lemma client_inv_session_ended [inv_intros]: "client_inv c \<Longrightarrow> client_inv (session_ended seq c)"
  using set_swap_remove_index
  by (fastforce simp: client_inv_def session_ended_def swap_remove_key_def split: option.split)

lemma client_inv_set_phase: "client_inv c \<Longrightarrow> i < length (cl_waiters c) \<Longrightarrow> client_inv (set_phase i ph c)"
  by (auto simp: client_inv_def set_phase_def dest!: set_update_subset_insert [THEN subsetD])

lemma client_inv_return:
  "client_inv c \<Longrightarrow> a < length (cl_sessions c) \<Longrightarrow> client_inv (return_session now seq a c)"
  by (auto simp: client_inv_def return_session_def)

lemma client_inv_waiter_step [inv_intros]:
  assumes "client_inv c" "i < length (cl_waiters c)"
  shows "client_inv (waiter_step now i c)"
proof -
  obtain ph seq a where w: "cl_waiters c ! i = (ph, seq, a)" by (cases "cl_waiters c ! i")
  then have a: "a < length (cl_sessions c)" using assms nth_mem [OF assms(2)] by (auto simp: client_inv_def)
  have "client_inv (return_session now seq a (set_phase i Ended c))"
    using client_inv_set_phase [OF assms] a by (intro client_inv_return) (simp_all add: set_phase_def)
  then show ?thesis
    using assms client_inv_set_phase [OF assms] by (cases ph) (auto simp: waiter_step_def w Let_def)
qed

section \<open>Reachable clients\<close>

text \<open>No frame from the server makes a session of the client hold more streams.\<close>

abbreviation bounded_client :: "nat \<Rightarrow> session \<Rightarrow> bool" where
  "bounded_client m s \<equiv> se_is_client s \<and> length (se_streams s) \<le> m"

lemma bounded_close_from_peer: "bounded_client m s \<Longrightarrow> bounded_client m (close_from_peer e a s)"
  by (simp add: close_from_peer_def mark_closed_def upd_stream_def)

lemma bounded_remove_stream: "bounded_client m s \<Longrightarrow> bounded_client m (fst (remove_stream sid s))"
  using length_alist_delete [of sid "se_streams s"] by (auto simp: remove_stream_def Let_def)

lemma bounded_write:
  "bounded_client m s \<Longrightarrow> bounded_client m (fst (channel_frame f b s))"
  "bounded_client m s \<Longrightarrow> bounded_client m (fst (write_frame f s))"
  "bounded_client m s \<Longrightarrow> bounded_client m (fst (write_frame_sync f s))"
  by (auto simp: write_frame_def write_frame_sync_def channel_frame_def split: list.split)

interpretation bounded_contract: host_contract session_host "bounded_client m" for m
proof
  fix s :: session and st f sid msg and bs :: "byte list"
  assume b: "bounded_client m s"
  show "h_is_client session_host (h_put_state session_host st s) = h_is_client session_host s"
    by (simp add: session_host_def)
  show "bounded_client m (h_put_state session_host st s)" using b by (simp add: session_host_def)
  show "bounded_client m (fst (h_send_frame session_host f s))"
    "bounded_client m (fst (h_send_frame_sync session_host f s))"
    using bounded_write(2,3) [OF b] by (simp_all add: session_host_def)
  show "bounded_client m (fst (h_push_stream_data session_host sid bs s))"
    using b by (auto simp: session_host_def push_stream_data_def stream_push_data_def upd_stream_def
        split: option.split prod.split sum.split)
  show "\<not> h_is_client session_host s \<Longrightarrow> bounded_client m (fst (h_ensure_incoming_stream session_host sid s))"
    using b by (simp add: session_host_def)
  show "bounded_client m (fst (h_close_logical_stream session_host sid s))"
    "bounded_client m (fst (h_terminate_session session_host sid msg s))"
    using bounded_remove_stream [OF b, of sid] bounded_close_from_peer [of "fst (remove_stream sid s)" m]
    by (auto simp: session_host_def close_logical_stream_def terminate_session_def
        split: prod.split option.split)
  show "bounded_client m (h_release_write_buffering session_host s)"
    using b by (simp add: session_host_def release_write_buffering_def)
qed

lemma bounded_event: "session_event ord md5 s s' \<Longrightarrow> bounded_client m s \<Longrightarrow> bounded_client m s'"
proof (induction rule: session_event.induct)
  case (start s)
  have "bounded_client m (fst (protocol_on_session_start ord session_host (s\<lparr>se_started := True\<rparr>)))"
    using start by (intro bounded_contract.on_session_start_inv) simp
  with start show ?case by (auto simp: ensure_started_def split: prod.split sum.split)
next
  case (receive s f)
  then show ?case by (rule bounded_contract.handle_frame_inv)
next
  case (close a s)
  have "bounded_client m (fst (stream_close a s))" if "\<not> sm_closed (stream_at s a)"
    unfolding stream_close_eq [OF that]
    using bounded_remove_stream [OF close(2), of "sm_id (stream_at s a)"]
    by (intro bounded_write) (simp add: upd_stream_def)
  with close show ?case by (cases "sm_closed (stream_at s a)") (simp_all add: stream_close_def mark_closed_def)
next
  case (terminate s)
  then show ?case using terminate_sizes [of s] by simp
qed (auto simp: stream_read_def stream_write_def run_close_task_def handshake_success_def channel_frame_def
    handshake_failure_def upd_stream_def split: prod.split)

lemma pooled_event: "session_event ord md5 s s' \<Longrightarrow> pooled m s \<Longrightarrow> pooled m s'"
  using bounded_event [of ord md5 s s' m] session_inv_event [of ord md5 s s'] by (simp add: pooled_def)

text \<open>
  The steps of a client: streams are created, sessions act on their own, the tasks that return
  sessions take steps, sessions whose task has ended leave the active ones, the pool is cleaned,
  and the client is closed.
\<close>

inductive client_step :: "(stringmap \<Rightarrow> stringmap) \<Rightarrow> hash_fun \<Rightarrow> client \<Rightarrow> client \<Rightarrow> bool"
  for ord md5 where
  create: "client_step ord md5 c (fst (create_stream ord now c))"
| session: "a < length (cl_sessions c) \<Longrightarrow> session_event ord md5 (session_at c a) s \<Longrightarrow>
    client_step ord md5 c (upd_session a s c)"
| waiter: "i < length (cl_waiters c) \<Longrightarrow> client_step ord md5 c (waiter_step now i c)"
| ended: "client_step ord md5 c (session_ended seq c)"
| cleanup: "client_step ord md5 c (cleanup_stale now c)"
| dial: "client_step ord md5 c (c\<lparr>cl_dials := ds\<rparr>)"
| close: "client_step ord md5 c (client_close c)"

inductive client_reachable :: "(stringmap \<Rightarrow> stringmap) \<Rightarrow> hash_fun \<Rightarrow> client \<Rightarrow> client \<Rightarrow> bool"
  for ord md5 c0 where
  init: "client_reachable ord md5 c0 c0"
| step: "client_reachable ord md5 c0 c \<Longrightarrow> client_step ord md5 c c' \<Longrightarrow> client_reachable ord md5 c0 c'"

lemma client_inv_step: "client_step ord md5 c c' \<Longrightarrow> client_inv c \<Longrightarrow> client_inv c'"
proof (induction rule: client_step.induct)
  case (session a c s)
  then show ?case by (intro client_inv_upd_session pooled_event [OF session(2)] pooled_at)
next
  case (dial c ds)
  then show ?case by (simp add: client_inv_def)
qed (auto intro: inv_intros)

lemma client_inv_reachable: "client_reachable ord md5 c0 c \<Longrightarrow> client_inv c0 \<Longrightarrow> client_inv c"
  by (induction rule: client_reachable.induct) (auto intro: client_inv_step)

text \<open>The limits a client was made with do not change.\<close>

abbreviation limits :: "client \<Rightarrow> nat \<times> nat \<times> nat" where
  "limits c \<equiv> (cl_max_streams c, cl_min_idle c, cl_idle_timeout c)"

lemma limits_create_stream_loop: "limits (fst (create_stream_loop n ord now err c)) = limits c"
proof (induction n arbitrary: err c)
  case 0
  then show ?case by simp
next
  case (Suc n)
  obtain c1 r where f: "find_or_create_session ord now c = (c1, r)" by (cases "find_or_create_session ord now c")
  obtain c0 t where t: "take_reusable now c = (c0, t)" by (cases "take_reusable now c")
  have l0: "limits c0 = limits c" using ends_some_fields [OF take_reusable_fields [OF t]] by simp
  have "limits (fst (create_session ord c0)) = limits c0"
    by (auto simp: create_session_eq next_dial_def split: list.split prod.split sum.split)
  with l0 f have "limits c1 = limits c"
    by (auto simp: find_or_create_session_def t split: if_splits option.splits list.splits)
  with Suc f show ?case
    by (auto simp: Let_def upd_session_def spawn_idle_return_task_def split: prod.split sum.split)
qed

lemma limits_step: "client_step ord md5 c c' \<Longrightarrow> limits c' = limits c"
proof (induction rule: client_step.induct)
  case (create c now)
  then show ?case using limits_create_stream_loop [of 3 ord now None c] by (simp add: create_stream_def)
qed (auto simp: upd_session_def waiter_step_def set_phase_def return_session_def session_ended_def
    cleanup_stale_def client_close_def drain_def Let_def split: waiter_phase.split prod.split)

lemma limits_reachable: "client_reachable ord md5 c0 c \<Longrightarrow> limits c = limits c0"
  by (induction rule: client_reachable.induct) (simp_all add: limits_step)

end
