(* ===== verification/Client_Props.thy ===== *)
theory Client_Props
  imports Client_Inv
begin

text \<open>
  Properties of the client's pool of sessions: the limit on streams per session, the choice of a
  session to reuse, the cleaning of the pool, the success of \<open>create_stream\<close> when connections
  can be made, the effect of closing the client, and a race of the task that returns sessions.
\<close>

section \<open>A client with two idle sessions\<close>

definition sample_started :: session where
  "sample_started = fst (ensure_started id (new_client_session sample_client))"

definition sample_pool :: client where
  "sample_pool = (client_new sample_client 30 1 2)\<lparr>cl_sessions := [sample_started, sample_started],
     cl_active := [(0, 0), (1, 1)], cl_idle := [(0, 0, 5), (1, 1, 9)], cl_seq := 2\<rparr>"

lemma sample_started_fields:
  "se_streams sample_started = []" "se_heap sample_started = []" "\<not> se_closed sample_started"
  "\<not> se_tx_closed sample_started" "se_next_stream_id sample_started = 0" "\<not> is_terminated sample_started"
  unfolding sample_started_def ensure_started_new
  by (simp_all add: new_client_session_def session_new_with_protocol_def is_terminated_def)

lemma sample_pool_fields:
  "cl_sessions sample_pool = [sample_started, sample_started]" "cl_idle sample_pool = [(0, 0, 5), (1, 1, 9)]"
  "cl_active sample_pool = [(0, 0), (1, 1)]" "cl_min_idle sample_pool = 1" "cl_idle_timeout sample_pool = 30"
  "\<not> cl_closed sample_pool" "cl_dials sample_pool = []" "cl_max_streams sample_pool = 2"
  by (simp_all add: sample_pool_def client_new_def)

lemma sample_pool_inv: "client_inv sample_pool"
  using pooled_new [of 2 id sample_client]
  by (simp add: client_inv_def sample_pool_def client_new_def sample_started_def [symmetric] numeral_2_eq_2)

section \<open>The limit on streams\<close>

text \<open>
  C5. Invariant of the client. In every state a client can reach, whatever the server sends and
  however its tasks interleave, no session holds more streams than the client was configured for
  (at least one), each session satisfies the session invariant, the entries of both pools refer
  to sessions of the client, and no session number is twice in the pool of idle sessions.
\<close>

theorem client_stream_limit:
  assumes "client_reachable ord md5 (client_new pf t min_idle max_streams) c"
  shows "list_all (\<lambda>s. session_inv s \<and> length (se_streams s) \<le> max max_streams 1) (cl_sessions c) \<and>
    list_all (\<lambda>e. snd e < length (cl_sessions c)) (cl_active c) \<and>
    list_all (\<lambda>e. entry_address e < length (cl_sessions c)) (cl_idle c) \<and> distinct (map fst (cl_idle c))"
proof -
  have "client_inv c" by (rule client_inv_reachable [OF assms client_inv_new])
  moreover have "cl_max_streams c = max max_streams 1"
    using limits_reachable [OF assms] by (simp add: client_new_def)
  ultimately show ?thesis by (auto simp: client_inv_def pooled_def list_all_iff)
qed

theorem client_stream_limit_witness:
  "list_all (\<lambda>s. session_inv s \<and> length (se_streams s) \<le> 1)
     (cl_sessions (fst (create_stream id 7 (client_new sample_client 30 1 0))))"
  using client_stream_limit [OF client_reachable.step [OF client_reachable.init
        client_step.create [of id "\<lambda>_. []" "client_new sample_client 30 1 0" 7]]]
  by simp

section \<open>Reuse and cleaning\<close>

text \<open>
  Reuse of an idle session. When \<open>take_reusable\<close> returns a session, that session has not
  ended, and it is the most recently returned entry that was fit for use: everything behind it in
  the pool has been removed and its sessions have ended, everything before it is still pooled, and
  it is either fresher than the timeout or protected by the minimum pool size. When it returns
  none, the pool is empty and all its sessions have ended.
\<close>

theorem take_reusable_spec:
  assumes "client_inv c"
  shows "case take_reusable now c of
      (c', None) \<Rightarrow> cl_idle c' = [] \<and> list_all (\<lambda>e. is_terminated (session_at c' (entry_address e))) (cl_idle c)
    | (c', Some (a, seq)) \<Rightarrow>
        \<not> is_terminated (session_at c' a) \<and>
        (\<exists>since skipped. cl_idle c = cl_idle c' @ (seq, a, since) # skipped \<and>
           (now - since < cl_idle_timeout c \<or> length (cl_idle c') < cl_min_idle c) \<and>
           list_all (\<lambda>e. is_terminated (session_at c' (entry_address e))) skipped)"
  using take_reusable_inv(2) [OF assms, of now "fst (take_reusable now c)" "snd (take_reusable now c)"]
  by (simp add: taken_def list_all_iff split: prod.splits option.splits)

theorem take_reusable_spec_witness:
  "\<exists>c'. take_reusable 12 sample_pool = (c', Some (1, 1)) \<and> \<not> is_terminated (session_at c' 1) \<and>
     cl_idle c' = [(0, 0, 5)]"
proof -
  have "take_reusable 12 sample_pool = (sample_pool\<lparr>cl_idle := [(0, 0, 5)]\<rparr>, Some (1, 1))"
    using take_reusable_snoc [of sample_pool "[(0, 0, 5)]" 1 1 9 12]
    by (simp add: sample_pool_fields sample_started_fields)
  with take_reusable_spec [OF sample_pool_inv, of 12] show ?thesis by simp
qed

text \<open>
  Cleaning the pool. When more than the minimum number of sessions are idle, the sessions
  removed are the first, in pool order, of those idle for at least the timeout, as many of them
  as leave the minimum in the pool; the others all stay in the pool, in some order, and exactly
  the removed sessions are terminated.
\<close>

theorem cleanup_stale_spec:
  assumes "cl_min_idle c < length (cl_idle c)"
  shows "let removed = take (length (cl_idle c) - cl_min_idle c)
        (filter (timed_out now (cl_idle_timeout c)) (cl_idle c));
      c' = cleanup_stale now c
    in mset (cl_idle c') + mset removed = mset (cl_idle c) \<and> cl_min_idle c \<le> length (cl_idle c') \<and>
      (\<forall>a < length (cl_sessions c). session_at c' a =
         (if a \<in> (\<lambda>e. fst (snd e)) ` set removed then fst (terminate (session_at c a)) else session_at c a))"
proof -
  let ?xs = "cl_idle c"
  define stale where "stale = filter (timed_out now (cl_idle_timeout c)) (cl_idle c)"
  define removed where "removed = take (length (cl_idle c) - cl_min_idle c) stale"
  define idx where "idx = filter (\<lambda>i. timed_out now (cl_idle_timeout c) (?xs ! i)) [0..<length ?xs]"
  define k where "k = min (length ?xs - cl_min_idle c) (length idx)"
  have stale: "map (nth ?xs) idx = stale" by (simp add: idx_def stale_def map_nth_filter_indices)
  have removed: "map (nth ?xs) (take k idx) = removed"
  proof -
    have "length idx = length stale" using stale by (metis length_map)
    then show ?thesis by (simp add: take_map [symmetric] stale removed_def k_def min_def)
  qed
  have srt: "sorted_wrt (<) (take k idx)"
    unfolding idx_def by (intro sorted_wrt_take sorted_wrt_filter) simp
  have bound: "\<forall>i \<in> set (take k idx). i < length ?xs"
    by (auto simp: idx_def dest!: in_set_takeD)
  obtain ys zs where rem: "swap_remove_indices (rev (take k idx)) ?xs = (ys, zs)"
    by (cases "swap_remove_indices (rev (take k idx)) ?xs")
  have ys: "mset ys + mset removed = mset ?xs" and zs: "set zs = set removed"
    using swap_remove_indices_rev [OF srt bound] rem removed by (auto simp: rev_map [symmetric])
  have c': "cleanup_stale now c =
      (if idx = [] then c else terminate_all (map (\<lambda>e. fst (snd e)) zs) (c\<lparr>cl_idle := ys\<rparr>))"
    using assms(1) rem by (simp add: cleanup_stale_def idx_def [symmetric] k_def [symmetric] Let_def)
  have len: "length ys + length removed = length ?xs" using ys by (metis size_mset size_union)
  have "length removed \<le> length ?xs - cl_min_idle c" by (simp add: removed_def)
  then have "cl_min_idle c \<le> length ys" using len assms(1) by linarith
  moreover have "idx = [] \<Longrightarrow> removed = []" using removed by simp
  ultimately show ?thesis
    using ys zs assms(1) unfolding c' stale_def [symmetric] removed_def [symmetric]
    by (auto simp: session_at_terminate_all)
qed

theorem cleanup_stale_spec_witness:
  "mset (cl_idle (cleanup_stale 36 sample_pool)) + {#(0, 0, 5)#} = {#(0, 0, 5), (1, 1, 9)#} \<and>
   session_at (cleanup_stale 36 sample_pool) 0 = fst (terminate sample_started) \<and>
   session_at (cleanup_stale 36 sample_pool) 1 = sample_started"
  using cleanup_stale_spec [of sample_pool 36]
  by (simp add: sample_pool_fields timed_out_def Let_def less_Suc_eq numeral_2_eq_2)

section \<open>Creating streams\<close>

lemma create_session_ok:
  assumes "\<not> cl_closed c" "cl_dials c = []"
  obtains c' where "create_session ord c = (c', Inr (length (cl_sessions c), cl_seq c))"
    "cl_sessions c' = cl_sessions c @ [fst (ensure_started ord (new_client_session (cl_padding c)))]"
    "cl_max_streams c' = cl_max_streams c"
  using assms that by (simp add: create_session_eq next_dial_def)

text \<open>What \<open>find_or_create_session\<close> needs of the sessions for its answer to be usable.\<close>

definition usable :: "nat \<Rightarrow> session \<Rightarrow> bool" where
  "usable m s \<longleftrightarrow> \<not> is_terminated s \<and> has_stream_capacity m s \<and> se_next_stream_id s + 1 \<noteq> 0"

lemma usable_new: "1 \<le> m \<Longrightarrow> usable m (fst (ensure_started ord (new_client_session pf)))"
  unfolding ensure_started_new
  by (simp add: usable_def is_terminated_def has_stream_capacity_def new_client_session_def
      session_new_with_protocol_def)

lemma kept_usable: "kept_or_ended s s' \<Longrightarrow> \<not> is_terminated s' \<Longrightarrow> s' = s"
  by (auto simp: kept_or_ended_def is_terminated_terminate)

lemma find_or_create_usable:
  assumes inv: "client_inv c" and "\<not> cl_closed c" "cl_dials c = []"
    and ids: "list_all (\<lambda>s. se_next_stream_id s + 1 \<noteq> 0) (cl_sessions c)"
    and room: "list_all (\<lambda>e. has_stream_capacity (cl_max_streams c) (session_at c (entry_address e))) (cl_idle c)"
  obtains c' a seq where "find_or_create_session ord now c = (c', Inr (a, seq))"
    "a < length (cl_sessions c')" "usable (cl_max_streams c') (session_at c' a)"
proof -
  obtain c1 t where t: "take_reusable now c = (c1, t)" by (cases "take_reusable now c")
  note c1 = take_reusable_inv [OF inv t] and f = ends_some_fields [OF take_reusable_inv(3) [OF inv t]]
  have len: "length (cl_sessions c1) = length (cl_sessions c)" using c1(3) by (simp add: ends_some_def)
  have same: "session_at c1 a = session_at c a" if "a < length (cl_sessions c)" "\<not> is_terminated (session_at c1 a)" for a
    using that c1(3) kept_usable by (simp add: ends_some_def)
  have use: "usable (cl_max_streams c1) (session_at c1 a)"
    if "a < length (cl_sessions c)" "\<not> is_terminated (session_at c1 a)"
      "has_stream_capacity (cl_max_streams c1) (session_at c1 a)" for a
    using that same [OF that(1,2)] ids by (simp add: usable_def list_all_length)
  show thesis
  proof (cases t)
    case (Some p)
    obtain a seq where p: "p = (a, seq)" by (cases p)
    have a: "\<not> is_terminated (session_at c1 a)" "\<exists>since. (seq, a, since) \<in> set (cl_idle c)"
      using c1(2) by (auto simp: taken_def Some p)
    then have "a < length (cl_sessions c)" "has_stream_capacity (cl_max_streams c) (session_at c a)"
      using inv room by (auto simp: client_inv_def list_all_iff)
    with that [of c1 a seq] a(1) use [of a] same [of a] assms(2) t show thesis
      by (simp add: find_or_create_session_def Some p len f)
  next
    case None
    let ?ok = "\<lambda>(seq, a). \<not> is_terminated (session_at c1 a) \<and> has_stream_capacity (cl_max_streams c1) (session_at c1 a)"
    show thesis
    proof (cases "filter ?ok (cl_active c1)")
      case Nil
      obtain c' where "create_session ord c1 = (c', Inr (length (cl_sessions c1), cl_seq c1))"
        "cl_sessions c' = cl_sessions c1 @ [fst (ensure_started ord (new_client_session (cl_padding c1)))]"
        "cl_max_streams c' = cl_max_streams c1"
        by (rule create_session_ok [of c1 ord]) (use assms f in auto)
      moreover have "1 \<le> cl_max_streams c1" using c1(1) by (simp add: client_inv_def)
      ultimately show thesis
        using that [of c'] usable_new assms(2) t None Nil by (simp add: find_or_create_session_def f)
    next
      case (Cons e es)
      obtain seq a where e: "e = (seq, a)" by (cases e)
      have "e \<in> set (filter ?ok (cl_active c1))" by (simp add: Cons)
      then have "?ok e" "e \<in> set (cl_active c1)" by auto
      moreover from this have "a < length (cl_sessions c)" using c1(1) by (auto simp: client_inv_def e len)
      ultimately show thesis
        using that [of c1 a seq] use [of a] assms(2) t None Cons
        by (simp add: find_or_create_session_def e len)
    qed
  qed
qed



text \<open>
  Closing the client. Every session in either pool is terminated, the others are left alone,
  both pools are empty, and no stream can be created any more, at any time.
\<close>

theorem client_close_spec:
  assumes "\<not> cl_closed c"
  shows "let c' = client_close c in cl_closed c' \<and> cl_active c' = [] \<and> cl_idle c' = [] \<and>
    (\<forall>a < length (cl_sessions c). session_at c' a =
       (if a \<in> snd ` set (cl_active c) \<union> entry_address ` set (cl_idle c)
        then fst (terminate (session_at c a)) else session_at c a)) \<and>
    (\<forall>ord now. create_stream ord now c' = (c', Inl client_closed))"
  using assms
  by (auto simp: client_close_def drain_def Let_def session_at_terminate_all create_stream_def)

theorem client_close_spec_witness:
  "cl_idle (client_close sample_pool) = [] \<and>
   session_at (client_close sample_pool) 1 = fst (terminate sample_started) \<and>
   create_stream id 40 (client_close sample_pool) = (client_close sample_pool, Inl client_closed)"
  using client_close_spec [of sample_pool]
  by (simp add: sample_pool_fields Let_def less_Suc_eq numeral_2_eq_2)

section \<open>A race of the task that returns sessions\<close>

text \<open>The steps: open a stream and close it, check, open another stream, enter the pool.\<close>

definition race_1 :: "(stringmap \<Rightarrow> stringmap) \<Rightarrow> padding_factory \<Rightarrow> nat \<Rightarrow> client" where
  "race_1 ord pf t = waiter_step 0 0 (fst (create_stream ord 0 (client_new pf t 0 2)))"

definition race_2 :: "(stringmap \<Rightarrow> stringmap) \<Rightarrow> padding_factory \<Rightarrow> nat \<Rightarrow> client" where
  "race_2 ord pf t =
     (let c = upd_session 0 (fst (stream_close 0 (session_at (race_1 ord pf t) 0))) (race_1 ord pf t)
      in waiter_step 0 0 (waiter_step 0 0 c))"

definition race_3 :: "(stringmap \<Rightarrow> stringmap) \<Rightarrow> padding_factory \<Rightarrow> nat \<Rightarrow> client" where
  "race_3 ord pf t = waiter_step 0 0 (fst (create_stream ord 0 (race_2 ord pf t)))"

lemmas race_eval =
  create_stream_def numeral_3_eq_3 find_or_create_session_def take_reusable_Nil create_session_eq
  next_dial_def ensure_started_new [unfolded new_client_session_def session_new_with_protocol_def]
  client_new_def new_client_session_def session_new_with_protocol_def
  is_terminated_def has_stream_capacity_def open_stream_success upd_session_def spawn_idle_return_task_def
  waiter_step_def set_phase_def is_stream_open_def idle_or_terminated_def stream_close_eq
  remove_stream_def upd_stream_def channel_frame_def stream_new_def return_session_def Let_def

lemma race_1_eq: "race_1 ord pf t =
    (client_new pf t 0 2)\<lparr>cl_seq := 1, cl_active := [(0, 0)], cl_waiters := [(Waiting, 0, 0)],
      cl_sessions := [(new_client_session pf)\<lparr>se_started := True, se_next_stream_id := 1,
        se_heap := [stream_new 1], se_streams := [(1, 0)], se_idle := False,
        se_frames := [(client_hello ord pf PROGRAM_VERSION_NAME, False), (frame_new Syn 1, False)]\<rparr>]\<rparr>"
  unfolding race_1_def by (simp add: race_eval)

lemma race_2_eq: "race_2 ord pf t =
    (client_new pf t 0 2)\<lparr>cl_seq := 1, cl_active := [(0, 0)], cl_waiters := [(Returning, 0, 0)],
      cl_sessions := [(new_client_session pf)\<lparr>se_started := True, se_next_stream_id := 1,
        se_heap := [(stream_new 1)\<lparr>sm_closed := True, sm_close_task := True\<rparr>], se_streams := [], se_idle := True,
        se_frames := [(client_hello ord pf PROGRAM_VERSION_NAME, False), (frame_new Syn 1, False),
          (frame_new Fin 1, False)]\<rparr>]\<rparr>"
  unfolding race_2_def race_1_eq by (simp add: race_eval AList.delete_eq)

lemma race_3_fields:
  "cl_idle (race_3 ord pf t) = [(0, 0, 0)]" "cl_min_idle (race_3 ord pf t) = 0"
  "cl_idle_timeout (race_3 ord pf t) = t" "length (cl_sessions (race_3 ord pf t)) = 1"
  "\<not> is_terminated (session_at (race_3 ord pf t) 0)" "se_streams (session_at (race_3 ord pf t) 0) = [(2, 1)]"
  "stream_at (session_at (race_3 ord pf t) 0) 1 = stream_new 2"
  "length (se_heap (session_at (race_3 ord pf t) 0)) = 2"
  unfolding race_3_def race_2_eq by (simp_all add: race_eval)

lemma race_reachable: "client_reachable ord md5 (client_new pf t 0 2) (race_3 ord pf t)"
proof -
  have 1: "client_reachable ord md5 (client_new pf t 0 2) (race_1 ord pf t)"
  proof -
    have w: "0 < length (cl_waiters (fst (create_stream ord 0 (client_new pf t 0 2))))"
      by (simp add: race_eval)
    show ?thesis
      unfolding race_1_def
      using client_reachable.step [OF client_reachable.step [OF client_reachable.init client_step.create]
            client_step.waiter [OF w]] .
  qed
  let ?s = "session_at (race_1 ord pf t) 0"
  let ?c = "upd_session 0 (fst (stream_close 0 ?s)) (race_1 ord pf t)"
  have 2: "client_reachable ord md5 (client_new pf t 0 2) (race_2 ord pf t)"
  proof -
    have c: "client_step ord md5 (race_1 ord pf t) ?c"
      by (intro client_step.session session_event.close) (simp_all add: race_1_eq)
    have w: "0 < length (cl_waiters ?c)" "0 < length (cl_waiters (waiter_step 0 0 ?c))"
      by (simp_all add: race_1_eq upd_session_def waiter_step_def set_phase_def Let_def)
    show ?thesis
      unfolding race_2_def Let_def
      using client_reachable.step [OF client_reachable.step [OF client_reachable.step [OF 1 c]
            client_step.waiter [OF w(1)]] client_step.waiter [OF w(2)]] .
  qed
  have w: "0 < length (cl_waiters (fst (create_stream ord 0 (race_2 ord pf t))))"
    by (simp add: race_2_eq race_eval)
  show ?thesis
    unfolding race_3_def
    using client_reachable.step [OF client_reachable.step [OF 2 client_step.create] client_step.waiter [OF w]] .
qed

text \<open>
  C17. A session in use may enter the pool. The task that returns a session checks that no stream
  is open and enters the session into the pool in separate steps. A stream opened between the two,
  which the pool of active sessions allows, is on a session that then sits in the idle pool, and
  cleaning the pool after the timeout terminates the session under its open stream.
\<close>

theorem idle_pool_race:
  "\<exists>c. client_reachable ord md5 (client_new pf t 0 2) c \<and> cl_idle c = [(0, 0, 0)] \<and>
     \<not> is_terminated (session_at c 0) \<and> is_stream_open (session_at c 0) \<and>
     \<not> sm_closed (stream_at (session_at c 0) 1) \<and>
     is_terminated (session_at (cleanup_stale t c) 0) \<and>
     sm_closed (stream_at (session_at (cleanup_stale t c) 0) 1)"
proof (intro exI conjI)
  let ?c = "race_3 ord pf t"
  show "client_reachable ord md5 (client_new pf t 0 2) ?c" by (rule race_reachable)
  have c': "session_at (cleanup_stale t ?c) 0 = fst (terminate (session_at ?c 0))"
    by (simp add: cleanup_stale_def race_3_fields timed_out_def swap_remove_index_def
        session_at_terminate_at Let_def)
  show "is_terminated (session_at (cleanup_stale t ?c) 0)" unfolding c' by (rule is_terminated_terminate)
  show "sm_closed (stream_at (session_at (cleanup_stale t ?c) 0) 1)"
    unfolding c' using race_3_fields(5)
    by (simp add: terminate_def race_3_fields close_from_session_def mark_closed_def upd_stream_def
        stream_new_def is_terminated_def)
qed (simp_all add: race_3_fields [unfolded One_nat_def] is_stream_open_def stream_new_def)

end
