(* ===== verification/Traffic_Audit.thy ===== *)
theory Traffic_Audit
  imports Prelude "HOL-Library.AList"
begin

text \<open>
  \<open>src/src/panel_sync/traffic_audit.rs\<close>: the traffic counters and the enabled flag of the clients
  that the panel allows. A UUID is a 128-bit number; the \<open>HashMap\<close> of the clients is a list of its
  entries, without repeated keys.
\<close>

type_synonym uuid = "128 word"

record client_node =
  cn_enable :: bool
  cn_upstream_traffic :: u64
  cn_downstream_traffic :: u64

definition client_node_new :: client_node where
  "client_node_new = \<lparr>cn_enable = False, cn_upstream_traffic = 0, cn_downstream_traffic = 0\<rparr>"

definition add_upstream_traffic :: "u64 \<Rightarrow> client_node \<Rightarrow> client_node" where
  "add_upstream_traffic t n = n\<lparr>cn_upstream_traffic := saturating_add (cn_upstream_traffic n) t\<rparr>"

definition add_downstream_traffic :: "u64 \<Rightarrow> client_node \<Rightarrow> client_node" where
  "add_downstream_traffic t n = n\<lparr>cn_downstream_traffic := saturating_add (cn_downstream_traffic n) t\<rparr>"

definition get_total_traffic :: "client_node \<Rightarrow> u64" where
  "get_total_traffic n = saturating_add (cn_upstream_traffic n) (cn_downstream_traffic n)"

definition set_enable :: "bool \<Rightarrow> client_node \<Rightarrow> client_node" where
  "set_enable b n = n\<lparr>cn_enable := b\<rparr>"

definition reset_upstream_traffic :: "client_node \<Rightarrow> client_node" where
  "reset_upstream_traffic n = n\<lparr>cn_upstream_traffic := 0\<rparr>"

definition reset_downstream_traffic :: "client_node \<Rightarrow> client_node" where
  "reset_downstream_traffic n = n\<lparr>cn_downstream_traffic := 0\<rparr>"

definition reset_node :: "client_node \<Rightarrow> client_node" where
  "reset_node n = n\<lparr>cn_upstream_traffic := 0, cn_downstream_traffic := 0\<rparr>"

type_synonym traffic_audit = "(uuid \<times> client_node) list"

definition traffic_audit_new :: traffic_audit where
  "traffic_audit_new = []"

text \<open>\<open>entry(id).or_default()\<close>.\<close>

definition or_default :: "uuid \<Rightarrow> traffic_audit \<Rightarrow> traffic_audit" where
  "or_default c m = (case map_of m c of Some _ \<Rightarrow> m | None \<Rightarrow> AList.update c client_node_new m)"

definition add_client :: "uuid \<Rightarrow> traffic_audit \<Rightarrow> traffic_audit" where
  "add_client c m = or_default c m"

definition remove_client :: "uuid \<Rightarrow> traffic_audit \<Rightarrow> traffic_audit" where
  "remove_client c m = AList.delete c m"

definition get_client_list :: "traffic_audit \<Rightarrow> uuid list" where
  "get_client_list m = map fst m"

definition contain_client :: "uuid \<Rightarrow> traffic_audit \<Rightarrow> bool" where
  "contain_client c m \<longleftrightarrow> map_of m c \<noteq> None"

definition add_upstream_traffic_of :: "uuid \<Rightarrow> u64 \<Rightarrow> traffic_audit \<Rightarrow> traffic_audit" where
  "add_upstream_traffic_of c t m = AList.map_entry c (add_upstream_traffic t) m"

definition add_downstream_traffic_of :: "uuid \<Rightarrow> u64 \<Rightarrow> traffic_audit \<Rightarrow> traffic_audit" where
  "add_downstream_traffic_of c t m = AList.map_entry c (add_downstream_traffic t) m"

definition get_upstream_traffic_of :: "uuid \<Rightarrow> traffic_audit \<Rightarrow> u64" where
  "get_upstream_traffic_of c m = (case map_of m c of Some n \<Rightarrow> cn_upstream_traffic n | None \<Rightarrow> 0)"

definition get_downstream_traffic_of :: "uuid \<Rightarrow> traffic_audit \<Rightarrow> u64" where
  "get_downstream_traffic_of c m = (case map_of m c of Some n \<Rightarrow> cn_downstream_traffic n | None \<Rightarrow> 0)"

definition get_traffic_of :: "uuid \<Rightarrow> traffic_audit \<Rightarrow> u64" where
  "get_traffic_of c m = (case map_of m c of Some n \<Rightarrow> get_total_traffic n | None \<Rightarrow> 0)"

definition set_enable_of :: "uuid \<Rightarrow> bool \<Rightarrow> traffic_audit \<Rightarrow> traffic_audit" where
  "set_enable_of c b m = AList.map_entry c (set_enable b) (or_default c m)"

definition get_enable_of :: "uuid \<Rightarrow> traffic_audit \<Rightarrow> bool" where
  "get_enable_of c m = (case map_of m c of Some n \<Rightarrow> cn_enable n | None \<Rightarrow> False)"

definition for_each_node :: "(client_node \<Rightarrow> client_node) \<Rightarrow> traffic_audit \<Rightarrow> traffic_audit" where
  "for_each_node f m = map (\<lambda>(c, n). (c, f n)) m"

definition audit_reset :: "traffic_audit \<Rightarrow> traffic_audit" where
  "audit_reset m = for_each_node reset_node m"

definition reset_of :: "uuid \<Rightarrow> traffic_audit \<Rightarrow> traffic_audit" where
  "reset_of c m = AList.map_entry c reset_node m"

definition audit_reset_upstream_traffic :: "traffic_audit \<Rightarrow> traffic_audit" where
  "audit_reset_upstream_traffic m = for_each_node reset_upstream_traffic m"

definition audit_reset_downstream_traffic :: "traffic_audit \<Rightarrow> traffic_audit" where
  "audit_reset_downstream_traffic m = for_each_node reset_downstream_traffic m"

definition reset_upstream_traffic_of :: "uuid \<Rightarrow> traffic_audit \<Rightarrow> traffic_audit" where
  "reset_upstream_traffic_of c m = AList.map_entry c reset_upstream_traffic m"

definition reset_downstream_traffic_of :: "uuid \<Rightarrow> traffic_audit \<Rightarrow> traffic_audit" where
  "reset_downstream_traffic_of c m = AList.map_entry c reset_downstream_traffic m"

section \<open>Lookups after updates\<close>

definition audit_inv :: "traffic_audit \<Rightarrow> bool" where
  "audit_inv m \<longleftrightarrow> distinct (map fst m)"

lemma or_default_lookup:
  "map_of (or_default c m) d =
     (if d = c then Some (case map_of m c of Some n \<Rightarrow> n | None \<Rightarrow> client_node_new) else map_of m d)"
  by (simp add: or_default_def update_conv' split: option.split)

lemma audit_lookup:
  "map_of (add_client c m) d =
     (if d = c then Some (case map_of m c of Some n \<Rightarrow> n | None \<Rightarrow> client_node_new) else map_of m d)"
  "map_of (remove_client c m) d = (if d = c then None else map_of m d)"
  "map_of (add_upstream_traffic_of c t m) d =
     (if d = c then map_option (add_upstream_traffic t) (map_of m c) else map_of m d)"
  "map_of (add_downstream_traffic_of c t m) d =
     (if d = c then map_option (add_downstream_traffic t) (map_of m c) else map_of m d)"
  "map_of (set_enable_of c b m) d =
     (if d = c then Some (set_enable b (case map_of m c of Some n \<Rightarrow> n | None \<Rightarrow> client_node_new)) else map_of m d)"
  by (simp_all add: add_client_def remove_client_def add_upstream_traffic_of_def add_downstream_traffic_of_def
      set_enable_of_def or_default_lookup delete_conv' map_of_map_entry split: option.split)

lemma audit_inv_ops [simp]:
  "audit_inv []"
  "audit_inv m \<Longrightarrow> audit_inv (or_default c m)"
  "audit_inv m \<Longrightarrow> audit_inv (add_client c m)"
  "audit_inv m \<Longrightarrow> audit_inv (remove_client c m)"
  "audit_inv m \<Longrightarrow> audit_inv (add_upstream_traffic_of c t m)"
  "audit_inv m \<Longrightarrow> audit_inv (add_downstream_traffic_of c t m)"
  "audit_inv m \<Longrightarrow> audit_inv (set_enable_of c b m)"
  by (simp_all add: audit_inv_def add_client_def remove_client_def add_upstream_traffic_of_def
      add_downstream_traffic_of_def set_enable_of_def or_default_def distinct_update distinct_delete
      distinct_map_entry split: option.split)

lemma get_client_list_mem: "c \<in> set (get_client_list m) \<longleftrightarrow> map_of m c \<noteq> None"
  by (simp add: get_client_list_def map_of_eq_None_iff)

text \<open>The traffic of the connections, as the relays record it.\<close>

datatype audit_event = Upstream uuid u64 | Downstream uuid u64

fun record_event :: "audit_event \<Rightarrow> traffic_audit \<Rightarrow> traffic_audit" where
  "record_event (Upstream c t) m = add_upstream_traffic_of c t m"
| "record_event (Downstream c t) m = add_downstream_traffic_of c t m"

fun record_events :: "audit_event list \<Rightarrow> traffic_audit \<Rightarrow> traffic_audit" where
  "record_events [] m = m"
| "record_events (e # es) m = record_events es (record_event e m)"

lemma keys_map_entry: "map fst (AList.map_entry c f m) = map fst m"
  by (induction m) auto

lemma get_client_list_event [simp]: "get_client_list (record_events es m) = get_client_list m"
proof (induction es arbitrary: m)
  case (Cons e es)
  have "get_client_list (record_event e m) = get_client_list m"
    by (cases e) (simp_all add: get_client_list_def add_upstream_traffic_of_def add_downstream_traffic_of_def
        keys_map_entry)
  with Cons show ?case by simp
qed simp

end
