(* ===== verification/Rust_Text.thy ===== *)
theory Rust_Text
  imports Rust_Std
begin

text \<open>
  More of what Rust's standard library does on text, used by the programs around the protocol:
  prefixes and suffixes, searching, slicing by byte positions with its panics, trimming of white
  space, and comparison up to the case of ASCII letters. As in the theory of the other text
  functions a string holds one \<open>char\<close> per UTF-8 byte.
\<close>

section \<open>Prefixes and suffixes\<close>

definition strip_prefix :: "string \<Rightarrow> string \<Rightarrow> string option" where
  "strip_prefix p s = (if take (length p) s = p then Some (drop (length p) s) else None)"

definition strip_suffix :: "string \<Rightarrow> string \<Rightarrow> string option" where
  "strip_suffix p s =
     (if length p \<le> length s \<and> drop (length s - length p) s = p then Some (take (length s - length p) s)
      else None)"

lemma strip_prefix_Some: "strip_prefix p s = Some t \<longleftrightarrow> s = p @ t"
  by (auto simp: strip_prefix_def) (metis append_take_drop_id)

lemma strip_prefix_None: "strip_prefix p s = None \<longleftrightarrow> (\<nexists>t. s = p @ t)"
  using strip_prefix_Some [of p s] by (cases "strip_prefix p s") auto

lemma strip_or_keep:
  "(case strip_prefix p v of None \<Rightarrow> v | Some t \<Rightarrow> t) = u \<longleftrightarrow> v = p @ u \<or> v = u \<and> (\<nexists>t. u = p @ t)"
  using strip_prefix_Some [of p v] strip_prefix_None [of p v] by (cases "strip_prefix p v") auto

lemma strip_prefix_append [simp]: "strip_prefix p (p @ t) = Some t"
  by (simp add: strip_prefix_def)

lemma strip_suffix_append [simp]: "strip_suffix p (t @ p) = Some t"
  by (simp add: strip_suffix_def)

lemma as_bytes_inject: "as_bytes a = as_bytes b \<longleftrightarrow> a = b"
  by (metis of_bytes_as_bytes)

text \<open>\<open>str::trim_end_matches\<close> with a character.\<close>

definition trim_end_char :: "char \<Rightarrow> string \<Rightarrow> string" where
  "trim_end_char c s = rev (dropWhile (\<lambda>d. d = c) (rev s))"

lemma trim_end_char_replicate:
  assumes "s \<noteq> []" "last s \<noteq> c"
  shows "trim_end_char c (s @ replicate n c) = s"
proof -
  have "dropWhile (\<lambda>d. d = c) (replicate n c @ rev s) = rev s"
    using assms by (induction n) (auto simp: dropWhile_eq_self_iff hd_rev)
  then show ?thesis by (simp add: trim_end_char_def)
qed

section \<open>Searching and slicing\<close>

definition find_char :: "(char \<Rightarrow> bool) \<Rightarrow> string \<Rightarrow> nat option" where
  "find_char P s = (let n = length (takeWhile (\<lambda>c. \<not> P c) s) in if n < length s then Some n else None)"

definition rfind_char :: "(char \<Rightarrow> bool) \<Rightarrow> string \<Rightarrow> nat option" where
  "rfind_char P s =
     (let n = length (takeWhile (\<lambda>c. \<not> P c) (rev s)) in if n < length s then Some (length s - Suc n) else None)"

fun str_contains :: "string \<Rightarrow> string \<Rightarrow> bool" where
  "str_contains p [] = (p = [])"
| "str_contains p (c # s) = (take (length p) (c # s) = p \<or> str_contains p s)"

text \<open>\<open>str::replace\<close> of a character.\<close>

definition replace_char :: "char \<Rightarrow> string \<Rightarrow> string \<Rightarrow> string" where
  "replace_char c t s = concat (map (\<lambda>d. if d = c then t else [d]) s)"

text \<open>
  \<open>str::is_char_boundary\<close>, and \<open>&s[a..b]\<close>, which panics on a position that is out of range or inside
  a character, and on an end before the start: \<open>None\<close>.
\<close>

definition is_char_boundary :: "string \<Rightarrow> nat \<Rightarrow> bool" where
  "is_char_boundary s i \<longleftrightarrow> i = length s \<or> i < length s \<and> \<not> is_cont (byte_of_char (s ! i))"

definition str_slice :: "nat \<Rightarrow> nat \<Rightarrow> string \<Rightarrow> string option" where
  "str_slice a b s =
     (if a \<le> b \<and> is_char_boundary s a \<and> is_char_boundary s b then Some (take (b - a) (drop a s)) else None)"

lemma find_char_append:
  assumes "list_all (\<lambda>c. \<not> P c) s" "P c"
  shows "find_char P (s @ c # t) = Some (length s)"
proof -
  have "takeWhile (\<lambda>c. \<not> P c) (s @ c # t) = s"
    using assms by (subst takeWhile_append2) (auto simp: list_all_iff)
  then show ?thesis by (simp add: find_char_def)
qed

lemma find_char_None: "find_char P s = None \<longleftrightarrow> list_all (\<lambda>c. \<not> P c) s"
proof -
  have "length (takeWhile (\<lambda>c. \<not> P c) s) < length s \<longleftrightarrow> takeWhile (\<lambda>c. \<not> P c) s \<noteq> s"
    by (metis length_takeWhile_le nat_less_le takeWhile_eq_take take_all_iff linorder_not_le)
  then show ?thesis by (auto simp: find_char_def Let_def takeWhile_eq_all_conv list_all_iff)
qed

section \<open>White space\<close>

text \<open>The encodings of the characters with the Unicode property \<open>White_Space\<close>.\<close>

definition white_spaces :: "byte list list" where
  "white_spaces =
     map (\<lambda>b. [b]) [0x09, 0x0A, 0x0B, 0x0C, 0x0D, 0x20] @ [[0xC2, 0x85], [0xC2, 0xA0], [0xE1, 0x9A, 0x80]] @
     map (\<lambda>b. [0xE2, 0x80, b])
       [0x80, 0x81, 0x82, 0x83, 0x84, 0x85, 0x86, 0x87, 0x88, 0x89, 0x8A, 0xA8, 0xA9, 0xAF] @
     [[0xE2, 0x81, 0x9F], [0xE3, 0x80, 0x80]]"

text \<open>Some encoding from the list at the start of the text, and dropping such as long as there is one.\<close>

fun find_start :: "string list \<Rightarrow> string \<Rightarrow> nat option" where
  "find_start [] s = None"
| "find_start (w # ws) s = (if w \<noteq> [] \<and> take (length w) s = w then Some (length w) else find_start ws s)"

lemma find_start_pos: "find_start ws s = Some n \<Longrightarrow> 0 < n \<and> s \<noteq> []"
  by (induction ws) (auto split: if_splits)

function drop_starts :: "string list \<Rightarrow> string \<Rightarrow> string" where
  "drop_starts ws s = (case find_start ws s of None \<Rightarrow> s | Some n \<Rightarrow> drop_starts ws (drop n s))"
  by auto
termination
  by (relation "measure (\<lambda>(_, s). length s)") (auto dest!: find_start_pos)

declare drop_starts.simps [simp del]

definition trim_start :: "string \<Rightarrow> string" where
  "trim_start s = drop_starts (map of_bytes white_spaces) s"

definition trim_end :: "string \<Rightarrow> string" where
  "trim_end s = rev (drop_starts (map (\<lambda>w. rev (of_bytes w)) white_spaces) (rev s))"

definition str_trim :: "string \<Rightarrow> string" where
  "str_trim s = trim_end (trim_start s)"

lemma find_start_None:
  assumes "list_all (\<lambda>w. w = [] \<or> hd w \<noteq> hd s) ws" "s \<noteq> []"
  shows "find_start ws s = None"
  using assms by (induction ws) (auto simp: take_Cons' neq_Nil_conv)

lemma drop_starts_id: "find_start ws s = None \<Longrightarrow> drop_starts ws s = s"
  by (simp add: drop_starts.simps)

text \<open>Text without white space at its ends: printable ASCII there is enough.\<close>

definition graphic :: "char \<Rightarrow> bool" where
  "graphic c \<longleftrightarrow> 0x21 \<le> byte_of_char c \<and> byte_of_char c < 0x7F"

lemma byte_of_char_eq: "char_of_byte b = c \<longleftrightarrow> b = byte_of_char c"
  by (metis char_of_byte_of_char byte_of_char_of_byte)

lemma str_trim_graphic:
  assumes "s = [] \<or> graphic (hd s) \<and> graphic (last s)"
  shows "str_trim s = s"
proof (cases "s = []")
  case True
  have "find_start ws [] = None" for ws by (induction ws) auto
  with True show ?thesis by (simp add: str_trim_def trim_start_def trim_end_def drop_starts_id)
next
  case False
  have first: "list_all (\<lambda>w. w = [] \<or> hd w \<noteq> c) (map of_bytes white_spaces)"
    and last: "list_all (\<lambda>w. w = [] \<or> hd w \<noteq> c) (map (\<lambda>w. rev (of_bytes w)) white_spaces)" if "graphic c" for c
    using that by (auto simp: white_spaces_def of_bytes_def byte_of_char_eq graphic_def)
  have "trim_start s = s"
    unfolding trim_start_def using first [of "hd s"] assms False by (intro drop_starts_id find_start_None) auto
  moreover have "trim_end s = s"
    unfolding trim_end_def using last [of "last s"] assms False
    by (subst drop_starts_id) (auto intro: find_start_None simp: hd_rev)
  ultimately show ?thesis by (simp add: str_trim_def)
qed

section \<open>Case\<close>

definition to_ascii_lowercase :: "char \<Rightarrow> byte" where
  "to_ascii_lowercase c =
     (let b = byte_of_char c in if 0x41 \<le> b \<and> b \<le> 0x5A then b + 0x20 else b)"

definition eq_ignore_ascii_case :: "string \<Rightarrow> string \<Rightarrow> bool" where
  "eq_ignore_ascii_case s t \<longleftrightarrow> map to_ascii_lowercase s = map to_ascii_lowercase t"

lemma eq_ignore_ascii_case_equiv:
  "eq_ignore_ascii_case s s"
  "eq_ignore_ascii_case s t \<Longrightarrow> eq_ignore_ascii_case t s"
  "eq_ignore_ascii_case s t \<Longrightarrow> eq_ignore_ascii_case t u \<Longrightarrow> eq_ignore_ascii_case s u"
  by (simp_all add: eq_ignore_ascii_case_def)

end
