(* ===== verification/Panel_Sync.thy ===== *)
theory Panel_Sync
  imports Traffic_Audit Rust_Text
begin

text \<open>
  \<open>src/src/panel_sync/core.rs\<close>: the task that fetches the allowed clients from a panel and reports
  their traffic to it. The HTTP client is an argument that answers a request, as are the JSON
  deserialiser of the users and the textual forms of values of other crates. A JSON value is what
  \<open>serde_json::Value\<close> distinguishes. The audit is shared with the connections: whenever the task takes
  its lock, some recorded traffic may have come before. This traffic is a list of batches, one for
  each time the lock is taken.
\<close>

section \<open>Configuration and values\<close>

record panel_sync_config =
  pc_enabled :: "bool option"
  pc_webapi_url :: "string option"
  pc_webapi_token :: "string option"
  pc_node_id :: "u64 option"
  pc_api_update_interval_secs :: "u64 option"

datatype json =
    JNull
  | JBool bool
  | JInt int
  | JFloat string
  | JString string
  | JArray "json list"
  | JObject "(string \<times> json) list"

fun json_get :: "string \<Rightarrow> json \<Rightarrow> json option" where
  "json_get k (JObject kvs) = map_of kvs k"
| "json_get k _ = None"

fun json_as_i64 :: "json \<Rightarrow> int option" where
  "json_as_i64 (JInt i) = (if - (2 ^ 63) \<le> i \<and> i < 2 ^ 63 then Some i else None)"
| "json_as_i64 _ = None"

record sync_user =
  su_client_id :: "uuid option"
  su_enable :: bool

definition deserialize_optional_uuid :: "(string \<Rightarrow> uuid option) \<Rightarrow> json option \<Rightarrow> uuid option" where
  "deserialize_optional_uuid parse_str v =
     (case v of
        None \<Rightarrow> None
      | Some JNull \<Rightarrow> None
      | Some (JString s) \<Rightarrow> parse_str s
      | Some _ \<Rightarrow> None)"

record response =
  rs_status :: nat
  rs_json :: "string + json"

type_synonym reported = "(uuid \<times> (u64 \<times> u64)) list"

record panel_client =
  pl_config :: panel_sync_config
  pl_reported_traffic :: reported

definition panel_client_new :: "panel_sync_config \<Rightarrow> panel_client" where
  "panel_client_new c = \<lparr>pl_config = c, pl_reported_traffic = []\<rparr>"

definition interval_secs :: "panel_sync_config \<Rightarrow> u64" where
  "interval_secs c = max (case pc_api_update_interval_secs c of Some n \<Rightarrow> n | None \<Rightarrow> 10) 5"

text \<open>Texts that other crates print: a status, a JSON value in an error, and a UUID.\<close>

record printers =
  pr_status :: "nat \<Rightarrow> string"
  pr_json :: "json \<Rightarrow> string"
  pr_uuid :: "uuid \<Rightarrow> string"

section \<open>Requests to the panel\<close>

definition build_url :: "panel_sync_config \<Rightarrow> string \<Rightarrow> (string \<times> string) list \<Rightarrow> string io_result" where
  "build_url c action params =
     (case pc_webapi_url c of
        None \<Rightarrow> Inl (error_other ''panel sync webapi_url not set'')
      | Some url \<Rightarrow>
          (let base = trim_end_char (CHR ''/'') url;
               token = (case pc_webapi_token c of Some t \<Rightarrow> t | None \<Rightarrow> [])
           in Inr (base @ ''/mod_mu/'' @ action @ ''?key='' @ token @
                concat (map (\<lambda>(k, v). ''&'' @ k @ ''='' @ v) params))))"

definition parse_payload ::
    "printers \<Rightarrow> (json \<Rightarrow> string + 'a) \<Rightarrow> response \<Rightarrow> 'a io_result" where
  "parse_payload pr from_value resp =
     (if rs_status resp \<noteq> 200 then Inl (error_other (pr_status pr (rs_status resp)))
      else
        (case rs_json resp of
           Inl e \<Rightarrow> Inl (error_other e)
         | Inr v \<Rightarrow>
             if (case json_get ''ret'' v of
                   None \<Rightarrow> 0
                 | Some n \<Rightarrow> (case json_as_i64 n of Some i \<Rightarrow> i | None \<Rightarrow> 0)) = 0
             then Inl (error_other (''Wrong data: '' @ pr_json pr v))
             else
               (let data = (case json_get ''data'' v of Some d \<Rightarrow> d | None \<Rightarrow> v)
                in case from_value data of
                     Inl e \<Rightarrow> Inl (error_other (e @ '': '' @ pr_json pr data))
                   | Inr x \<Rightarrow> Inr x)))"

definition request_url :: "panel_sync_config \<Rightarrow> string \<Rightarrow> string io_result" where
  "request_url c action =
     (case pc_node_id c of
        None \<Rightarrow> Inl (error_other ''panel sync node_id not set'')
      | Some node_id \<Rightarrow> build_url c action [(''node_id'', show_nat (unat node_id))])"

definition send :: "string + response \<Rightarrow> response io_result" where
  "send r = (case r of Inl e \<Rightarrow> Inl (error_other e) | Inr x \<Rightarrow> Inr x)"

definition fetch_sync_payload ::
    "printers \<Rightarrow> (json \<Rightarrow> string + sync_user list) \<Rightarrow> (string \<Rightarrow> string + response) \<Rightarrow>
     panel_client \<Rightarrow> sync_user list io_result" where
  "fetch_sync_payload pr from_value http_get p =
     res_bind (request_url (pl_config p) ''users'') (\<lambda>url.
     res_bind (send (http_get url)) (\<lambda>resp. parse_payload pr from_value resp))"

section \<open>Synchronising the clients\<close>

type_synonym batches = "audit_event list list"

fun lock_audit :: "batches \<Rightarrow> traffic_audit \<Rightarrow> batches \<times> traffic_audit" where
  "lock_audit [] m = ([], m)"
| "lock_audit (es # ess) m = (ess, record_events es m)"

fun sync_users ::
    "sync_user list \<Rightarrow> uuid list \<Rightarrow> batches \<times> traffic_audit \<Rightarrow> uuid list \<times> batches \<times> traffic_audit" where
  "sync_users [] seen (ess, m) = (seen, ess, m)"
| "sync_users (u # us) seen (ess, m) =
     (case su_client_id u of
        None \<Rightarrow> sync_users us seen (ess, m)
      | Some c \<Rightarrow>
          (let (ess, m) = lock_audit ess m
           in sync_users us (List.insert c seen) (ess, set_enable_of c (su_enable u) (add_client c m))))"

fun sync_removed ::
    "uuid list \<Rightarrow> uuid list \<Rightarrow> reported \<Rightarrow> batches \<times> traffic_audit \<Rightarrow> reported \<times> batches \<times> traffic_audit" where
  "sync_removed seen [] rep (ess, m) = (rep, ess, m)"
| "sync_removed seen (c # cs) rep (ess, m) =
     (if c \<in> set seen then sync_removed seen cs rep (ess, m)
      else
        (let (ess, m) = lock_audit ess m
         in sync_removed seen cs (AList.delete c rep) (ess, remove_client c m)))"

definition sync_once ::
    "printers \<Rightarrow> (json \<Rightarrow> string + sync_user list) \<Rightarrow> (string \<Rightarrow> string + response) \<Rightarrow>
     panel_client \<Rightarrow> batches \<times> traffic_audit \<Rightarrow> panel_client \<times> (batches \<times> traffic_audit) \<times> unit io_result" where
  "sync_once pr from_value http_get p a =
     (case fetch_sync_payload pr from_value http_get p of
        Inl e \<Rightarrow> (p, a, Inl e)
      | Inr users \<Rightarrow>
          (let (ess, m) = lock_audit (fst a) (snd a);
               existing = get_client_list m;
               (seen, ess, m) = sync_users users [] (ess, m);
               (rep, ess, m) = sync_removed seen existing (pl_reported_traffic p) (ess, m)
           in (p\<lparr>pl_reported_traffic := rep\<rparr>, (ess, m), Inr ())))"

section \<open>Reporting the traffic\<close>

type_synonym deltas = "(uuid \<times> u64 \<times> u64) list"

definition last_reported :: "reported \<Rightarrow> uuid \<Rightarrow> u64 \<times> u64" where
  "last_reported rep c = (case map_of rep c of Some p \<Rightarrow> p | None \<Rightarrow> (0, 0))"

fun report_collect ::
    "reported \<Rightarrow> uuid list \<Rightarrow> batches \<times> traffic_audit \<Rightarrow>
     deltas \<times> reported \<times> batches \<times> traffic_audit" where
  "report_collect rep [] (ess, m) = ([], [], ess, m)"
| "report_collect rep (c # cs) (ess, m) =
     (let (ess, m) = lock_audit ess m;
          up = get_upstream_traffic_of c m;
          down = get_downstream_traffic_of c m;
          du = saturating_sub up (fst (last_reported rep c));
          dd = saturating_sub down (snd (last_reported rep c));
          (ds, current, ess, m) = report_collect rep cs (ess, m)
      in if du = 0 \<and> dd = 0 then (ds, current, ess, m)
         else ((c, du, dd) # ds, (c, up, down) # current, ess, m))"

definition delta_json :: "printers \<Rightarrow> uuid \<times> u64 \<times> u64 \<Rightarrow> json" where
  "delta_json pr d =
     (case d of (c, u, v) \<Rightarrow>
        JObject [(''client_id'', JString (pr_uuid pr c)), (''u'', JInt (uint u)), (''d'', JInt (uint v))])"

definition report_body :: "printers \<Rightarrow> deltas \<Rightarrow> json" where
  "report_body pr ds = JObject [(''data'', JArray (map (delta_json pr) ds))]"

fun mark_reported :: "reported \<Rightarrow> reported \<Rightarrow> reported" where
  "mark_reported [] rep = rep"
| "mark_reported ((c, t) # current) rep = mark_reported current (AList.update c t rep)"

text \<open>The result carries the differences that the panel has acknowledged.\<close>

definition report_traffic_once ::
    "printers \<Rightarrow> (string \<Rightarrow> json \<Rightarrow> string + response) \<Rightarrow>
     panel_client \<Rightarrow> batches \<times> traffic_audit \<Rightarrow> panel_client \<times> (batches \<times> traffic_audit) \<times> deltas io_result" where
  "report_traffic_once pr http_post p a =
     (let (ess, m) = lock_audit (fst a) (snd a);
          (ds, current, ess, m) = report_collect (pl_reported_traffic p) (get_client_list m) (ess, m)
      in if ds = [] then (p, (ess, m), Inr [])
         else
           (case res_bind (request_url (pl_config p) ''users/traffic'') (\<lambda>url.
                 res_bind (send (http_post url (report_body pr ds))) (\<lambda>resp.
                   parse_payload pr (\<lambda>v. Inr v) resp)) of
              Inl e \<Rightarrow> (p, (ess, m), Inl e)
            | Inr _ \<Rightarrow>
                (p\<lparr>pl_reported_traffic := mark_reported current (pl_reported_traffic p)\<rparr>, (ess, m), Inr ds)))"

section \<open>The task\<close>

text \<open>
  One round of \<open>run\<close>, at its start and at every tick of the interval until it is cancelled: errors
  are only logged. What the panel answers and the traffic that comes meanwhile are given per round;
  batches that are left over come at the end of the round.
\<close>

record panel_round =
  pn_get :: "string \<Rightarrow> string + response"
  pn_post :: "string \<Rightarrow> json \<Rightarrow> string + response"
  pn_traffic :: batches

definition acknowledged :: "deltas io_result \<Rightarrow> deltas" where
  "acknowledged r = (case r of Inl _ \<Rightarrow> [] | Inr ds \<Rightarrow> ds)"

definition panel_tick ::
    "printers \<Rightarrow> (json \<Rightarrow> string + sync_user list) \<Rightarrow> panel_round \<Rightarrow>
     panel_client \<times> traffic_audit \<Rightarrow> (panel_client \<times> traffic_audit) \<times> deltas" where
  "panel_tick pr from_value rd pm =
     (let (p, a, _) = sync_once pr from_value (pn_get rd) (fst pm) (pn_traffic rd, snd pm);
          (p, (ess, m), r) = report_traffic_once pr (pn_post rd) p a
      in ((p, record_events (concat ess) m), acknowledged r))"

fun panel_run ::
    "printers \<Rightarrow> (json \<Rightarrow> string + sync_user list) \<Rightarrow> panel_round list \<Rightarrow>
     panel_client \<times> traffic_audit \<Rightarrow> (panel_client \<times> traffic_audit) \<times> deltas" where
  "panel_run pr from_value [] pm = (pm, [])"
| "panel_run pr from_value (rd # rds) pm =
     (let (pm, ds) = panel_tick pr from_value rd pm;
          (pm, ds') = panel_run pr from_value rds pm
      in (pm, ds @ ds'))"

end
