(* ===== verification/Panel_Props.thy ===== *)
theory Panel_Props
  imports Panel_Sync
begin

text \<open>
  Properties of the synchronisation with the panel: what the counters of a client gain while a round
  runs, and that the differences the panel acknowledges add up to them.
\<close>

section \<open>Growth of the counters\<close>

text \<open>What a list of events adds to the counters of a client.\<close>

fun up_sum :: "uuid \<Rightarrow> audit_event list \<Rightarrow> nat" where
  "up_sum c [] = 0"
| "up_sum c (Upstream d t # es) = (if d = c then unat t else 0) + up_sum c es"
| "up_sum c (Downstream d t # es) = up_sum c es"

fun down_sum :: "uuid \<Rightarrow> audit_event list \<Rightarrow> nat" where
  "down_sum c [] = 0"
| "down_sum c (Upstream d t # es) = down_sum c es"
| "down_sum c (Downstream d t # es) = (if d = c then unat t else 0) + down_sum c es"

lemma sum_append [simp]:
  "up_sum c (es @ fs) = up_sum c es + up_sum c fs"
  "down_sum c (es @ fs) = down_sum c es + down_sum c fs"
  by (induction es rule: up_sum.induct) auto

definition node_grown :: "nat \<Rightarrow> nat \<Rightarrow> client_node \<Rightarrow> client_node \<Rightarrow> bool" where
  "node_grown u d n n' \<longleftrightarrow>
     unat (cn_upstream_traffic n') = min (unat (cn_upstream_traffic n) + u) (2 ^ 64 - 1) \<and>
     unat (cn_downstream_traffic n') = min (unat (cn_downstream_traffic n) + d) (2 ^ 64 - 1)"

definition grown :: "uuid \<Rightarrow> audit_event list \<Rightarrow> traffic_audit \<Rightarrow> traffic_audit \<Rightarrow> bool" where
  "grown c es m m' \<longleftrightarrow>
     (\<exists>n n'. map_of m c = Some n \<and> map_of m' c = Some n' \<and> node_grown (up_sum c es) (down_sum c es) n n')"

lemma node_grown_same: "cn_upstream_traffic n' = cn_upstream_traffic n \<Longrightarrow>
    cn_downstream_traffic n' = cn_downstream_traffic n \<Longrightarrow> node_grown 0 0 n n'"
  using unat_u64_less [of "cn_upstream_traffic n"] unat_u64_less [of "cn_downstream_traffic n"]
  by (simp add: node_grown_def)

lemma node_grown_refl [simp]: "node_grown 0 0 n n"
  by (rule node_grown_same) (rule refl)+

lemma node_grown_trans: "node_grown u d n n' \<Longrightarrow> node_grown u' d' n' n'' \<Longrightarrow> node_grown (u + u') (d + d') n n''"
  by (auto simp: node_grown_def min_def)

lemma grownI: "map_of m c = Some n \<Longrightarrow> map_of m' c = Some n' \<Longrightarrow>
    node_grown (up_sum c es) (down_sum c es) n n' \<Longrightarrow> grown c es m m'"
  unfolding grown_def by blast

lemma grownE: "grown c es m m' \<Longrightarrow>
    (\<And>n n'. map_of m c = Some n \<Longrightarrow> map_of m' c = Some n' \<Longrightarrow>
      node_grown (up_sum c es) (down_sum c es) n n' \<Longrightarrow> P) \<Longrightarrow> P"
  unfolding grown_def by blast

lemma grown_refl: "map_of m c = Some n \<Longrightarrow> grown c [] m m"
  by (auto simp: grown_def node_grown_same)

lemma grown_trans: "grown c es m m' \<Longrightarrow> grown c fs m' m'' \<Longrightarrow> grown c (es @ fs) m m''"
  by (auto simp: grown_def intro!: node_grown_trans)

lemma grown_event:
  assumes "map_of m c = Some n"
  shows "grown c [e] m (record_event e m)"
proof (cases e)
  case (Upstream d t)
  show ?thesis
  proof (cases "d = c")
    case True
    have "node_grown (unat t) 0 n (add_upstream_traffic t n)"
      using node_grown_same [of n n] by (simp add: node_grown_def add_upstream_traffic_def unat_saturating_add)
    with assms Upstream True show ?thesis by (intro grownI [of _ _ n _ "add_upstream_traffic t n"]) (simp_all add: audit_lookup)
  next
    case False
    with assms Upstream show ?thesis by (intro grownI [of _ _ n _ n]) (simp_all add: audit_lookup)
  qed
next
  case (Downstream d t)
  show ?thesis
  proof (cases "d = c")
    case True
    have "node_grown 0 (unat t) n (add_downstream_traffic t n)"
      using node_grown_same [of n n] by (simp add: node_grown_def add_downstream_traffic_def unat_saturating_add)
    with assms Downstream True show ?thesis by (intro grownI [of _ _ n _ "add_downstream_traffic t n"]) (simp_all add: audit_lookup)
  next
    case False
    with assms Downstream show ?thesis by (intro grownI [of _ _ n _ n]) (simp_all add: audit_lookup)
  qed
qed

lemma grown_events: "map_of m c = Some n \<Longrightarrow> grown c es m (record_events es m)"
proof (induction es arbitrary: m n)
  case Nil
  then show ?case by (simp add: grown_refl)
next
  case (Cons e es)
  from grown_event [OF Cons.prems, of e] obtain n' where "map_of (record_event e m) c = Some n'"
    by (auto elim: grownE)
  then show ?case using grown_trans [OF grown_event [OF Cons.prems, of e] Cons.IH] by simp
qed

text \<open>Growth by the batches that have been used up.\<close>

definition used :: "uuid \<Rightarrow> batches \<times> traffic_audit \<Rightarrow> batches \<times> traffic_audit \<Rightarrow> bool" where
  "used c a a' \<longleftrightarrow> (\<exists>es. concat (fst a) = es @ concat (fst a') \<and> grown c es (snd a) (snd a'))"

lemma usedI: "concat ess = es @ concat ess' \<Longrightarrow> grown c es m m' \<Longrightarrow> used c (ess, m) (ess', m')"
  by (auto simp: used_def)

lemma used_refl: "map_of m c = Some n \<Longrightarrow> used c (ess, m) (ess, m)"
  by (rule usedI [of _ "[]"]) (simp_all add: grown_refl)

lemma used_trans: "used c a a' \<Longrightarrow> used c a' a'' \<Longrightarrow> used c a a''"
  unfolding used_def using grown_trans append_assoc by (elim exE conjE) (intro exI conjI, auto)

lemma used_present: "used c a a' \<Longrightarrow> \<exists>n. map_of (snd a') c = Some n"
  by (auto simp: used_def grown_def)

lemma used_lock: "map_of m c = Some n \<Longrightarrow> used c (ess, m) (lock_audit ess m)"
  by (cases ess) (auto intro: usedI grown_events used_refl)

lemma used_enable:
  assumes "map_of m c = Some n"
  shows "used c (ess, m) (ess, set_enable_of d b (add_client d m))"
  by (rule usedI [of _ "[]"])
    (use assms in \<open>auto simp: grown_def audit_lookup set_enable_def intro!: node_grown_same split: option.split\<close>)

lemma used_remove: "map_of m c = Some n \<Longrightarrow> d \<noteq> c \<Longrightarrow> used c (ess, m) (ess, remove_client d m)"
  by (rule usedI [of _ "[]"]) (auto simp: grown_def audit_lookup node_grown_same)

section \<open>One round, seen from one client\<close>

lemma used_sync_users:
  assumes "map_of m c = Some n" "sync_users us seen (ess, m) = (seen', a')"
  shows "used c (ess, m) a'"
  using assms
proof (induction us arbitrary: seen ess m n)
  case Nil
  then show ?case using used_refl by auto
next
  case (Cons u us)
  show ?case
  proof (cases "su_client_id u")
    case None
    with Cons show ?thesis by simp
  next
    case (Some d)
    obtain ess1 m1 where l: "lock_audit ess m = (ess1, m1)" by fastforce
    have u1: "used c (ess, m) (ess1, m1)" using used_lock [OF Cons.prems(1), of ess] l by simp
    then obtain n1 where "map_of m1 c = Some n1" using used_present by fastforce
    then have u2: "used c (ess1, m1) (ess1, set_enable_of d (su_enable u) (add_client d m1))"
      by (rule used_enable)
    then obtain n2 where "map_of (set_enable_of d (su_enable u) (add_client d m1)) c = Some n2"
      using used_present by fastforce
    from Cons.IH [OF this, of "List.insert d seen" ess1] Cons.prems(2) Some l
    have "used c (ess1, set_enable_of d (su_enable u) (add_client d m1)) a'" by simp
    with u1 u2 show ?thesis using used_trans by blast
  qed
qed

lemma sync_users_seen:
  "sync_users us seen (ess, m) = (seen', a') \<Longrightarrow> set seen' = set seen \<union> {c. Some c \<in> su_client_id ` set us}"
proof (induction us arbitrary: seen ess m)
  case (Cons u us)
  show ?case
  proof (cases "su_client_id u")
    case None
    with Cons show ?thesis by auto
  next
    case (Some d)
    obtain ess1 m1 where "lock_audit ess m = (ess1, m1)" by fastforce
    with Some Cons show ?thesis by auto
  qed
qed auto

lemma used_sync_removed:
  assumes "map_of m c = Some n" "c \<in> set seen" "sync_removed seen cs rep (ess, m) = (rep', a')"
  shows "used c (ess, m) a' \<and> map_of rep' c = map_of rep c"
  using assms(1,3)
proof (induction cs arbitrary: rep ess m n)
  case Nil
  then show ?case using used_refl by auto
next
  case (Cons d cs)
  show ?case
  proof (cases "d \<in> set seen")
    case True
    with Cons show ?thesis by simp
  next
    case False
    then have d: "d \<noteq> c" using assms(2) by blast
    obtain ess1 m1 where l: "lock_audit ess m = (ess1, m1)" by fastforce
    have u1: "used c (ess, m) (ess1, m1)" using used_lock [OF Cons.prems(1), of ess] l by simp
    then obtain n1 where "map_of m1 c = Some n1" using used_present by fastforce
    then have u2: "used c (ess1, m1) (ess1, remove_client d m1)" using d by (rule used_remove)
    then obtain n2 where "map_of (remove_client d m1) c = Some n2" using used_present by fastforce
    from Cons.IH [OF this, of "AList.delete d rep" ess1] Cons.prems(2) False l
    have "used c (ess1, remove_client d m1) a' \<and> map_of rep' c = map_of (AList.delete d rep) c" by simp
    with u1 u2 d show ?thesis using used_trans by (auto simp: delete_conv')
  qed
qed

definition stays :: "printers \<Rightarrow> (json \<Rightarrow> string + sync_user list) \<Rightarrow> panel_client \<Rightarrow> uuid \<Rightarrow> panel_round \<Rightarrow> bool" where
  "stays pr from_value p c rd \<longleftrightarrow>
     (case fetch_sync_payload pr from_value (pn_get rd) p of
        Inl _ \<Rightarrow> True
      | Inr us \<Rightarrow> Some c \<in> su_client_id ` set us)"

lemma stays_config: "pl_config p' = pl_config p \<Longrightarrow> stays pr from_value p' c rd = stays pr from_value p c rd"
  by (simp add: stays_def fetch_sync_payload_def)

lemma used_sync_once:
  assumes "map_of (snd a) c = Some n" "stays pr from_value p c rd"
    and "sync_once pr from_value (pn_get rd) p a = (p', a', r)"
  shows "used c a a' \<and> pl_config p' = pl_config p \<and>
    map_of (pl_reported_traffic p') c = map_of (pl_reported_traffic p) c"
proof (cases "fetch_sync_payload pr from_value (pn_get rd) p")
  case (Inl e)
  with assms used_refl [of "snd a" c n "fst a"] show ?thesis by (simp add: sync_once_def)
next
  case (Inr us)
  obtain ess1 m1 where l: "lock_audit (fst a) (snd a) = (ess1, m1)" by fastforce
  obtain seen ess2 m2 where s: "sync_users us [] (ess1, m1) = (seen, ess2, m2)" using prod_cases3 by blast
  obtain rep ess3 m3 where
    d: "sync_removed seen (get_client_list m1) (pl_reported_traffic p) (ess2, m2) = (rep, ess3, m3)"
    using prod_cases3 by blast
  have eq: "p' = p\<lparr>pl_reported_traffic := rep\<rparr>" "a' = (ess3, m3)"
    using assms(3) Inr l s d by (simp_all add: sync_once_def)
  have u1: "used c a (ess1, m1)" using used_lock [OF assms(1), of "fst a"] l by simp
  then obtain n1 where "map_of m1 c = Some n1" using used_present by fastforce
  from used_sync_users [OF this s] have u2: "used c (ess1, m1) (ess2, m2)" .
  then obtain n2 where n2: "map_of m2 c = Some n2" using used_present by fastforce
  have "c \<in> set seen" using assms(2) Inr sync_users_seen [OF s] by (simp add: stays_def)
  from used_sync_removed [OF n2 this d] u1 u2 eq show ?thesis using used_trans by auto
qed

section \<open>One report, seen from one client\<close>

lemma collect_other:
  assumes "map_of m c = Some n" "c \<notin> set ids" "report_collect rep ids (ess, m) = (ds, cur, a')"
  shows "used c (ess, m) a' \<and> map_of ds c = None \<and> map_of cur c = None"
  using assms
proof (induction ids arbitrary: ess m n ds cur a')
  case Nil
  then show ?case using used_refl by auto
next
  case (Cons d ids)
  obtain ess1 m1 where l: "lock_audit ess m = (ess1, m1)" by fastforce
  obtain ds1 cur1 a1 where r: "report_collect rep ids (ess1, m1) = (ds1, cur1, a1)" using prod_cases3 by blast
  have u1: "used c (ess, m) (ess1, m1)" using used_lock [OF Cons.prems(1), of ess] l by simp
  then obtain n1 where "map_of m1 c = Some n1" using used_present by fastforce
  from Cons.IH [OF this _ r] Cons.prems(2)
  have "used c (ess1, m1) a1 \<and> map_of ds1 c = None \<and> map_of cur1 c = None" by simp
  moreover have "a' = a1 \<and> (ds = ds1 \<and> cur = cur1 \<or> (\<exists>x y. ds = (d, x) # ds1 \<and> cur = (d, y) # cur1))"
    using Cons.prems(3) l r by (auto simp: Let_def split_beta split: if_splits)
  ultimately show ?case using u1 used_trans Cons.prems(2) by auto
qed

lemma collect_keys:
  assumes "distinct ids" "report_collect rep ids (ess, m) = (ds, cur, a')"
  shows "distinct (map fst ds) \<and> distinct (map fst cur) \<and> fst ` set ds \<subseteq> set ids \<and> fst ` set cur \<subseteq> set ids"
  using assms
proof (induction ids arbitrary: ess m ds cur a')
  case (Cons d ids)
  obtain ess1 m1 where l: "lock_audit ess m = (ess1, m1)" by fastforce
  obtain ds1 cur1 a1 where r: "report_collect rep ids (ess1, m1) = (ds1, cur1, a1)" using prod_cases3 by blast
  have "ds = ds1 \<and> cur = cur1 \<or> (\<exists>x y. ds = (d, x) # ds1 \<and> cur = (d, y) # cur1)"
    using Cons.prems(2) l r by (auto simp: Let_def split_beta split: if_splits)
  with Cons.IH [OF _ r] Cons.prems(1) show ?case by (elim disjE exE conjE) (auto simp: subset_iff)
qed auto

text \<open>What is reported for a client, given its counters when the lock is held.\<close>

definition delta_of :: "reported \<Rightarrow> uuid \<Rightarrow> client_node \<Rightarrow> u64 \<times> u64" where
  "delta_of rep c n =
     (saturating_sub (cn_upstream_traffic n) (fst (last_reported rep c)),
      saturating_sub (cn_downstream_traffic n) (snd (last_reported rep c)))"

lemma collect_at:
  assumes "map_of m c = Some n" "c \<in> set ids" "distinct ids" "report_collect rep ids (ess, m) = (ds, cur, a')"
  shows "\<exists>a1 n1. used c (ess, m) a1 \<and> used c a1 a' \<and> map_of (snd a1) c = Some n1 \<and>
    (if delta_of rep c n1 = (0, 0) then map_of ds c = None \<and> map_of cur c = None
     else map_of ds c = Some (delta_of rep c n1) \<and>
       map_of cur c = Some (cn_upstream_traffic n1, cn_downstream_traffic n1))"
  using assms
proof (induction ids arbitrary: ess m n ds cur a')
  case (Cons d ids)
  obtain ess1 m1 where l: "lock_audit ess m = (ess1, m1)" by fastforce
  obtain ds1 cur1 a1 where r: "report_collect rep ids (ess1, m1) = (ds1, cur1, a1)" using prod_cases3 by blast
  have u1: "used c (ess, m) (ess1, m1)" using used_lock [OF Cons.prems(1), of ess] l by simp
  then obtain n1 where n1: "map_of m1 c = Some n1" using used_present by fastforce
  show ?case
  proof (cases "d = c")
    case True
    have o: "used c (ess1, m1) a1 \<and> map_of ds1 c = None \<and> map_of cur1 c = None"
      using collect_other [OF n1 _ r] Cons.prems(3) True by simp
    have "a' = a1" using Cons.prems(4) l r by (auto simp: Let_def split_beta split: if_splits)
    moreover have "if delta_of rep c n1 = (0, 0) then ds = ds1 \<and> cur = cur1
        else ds = (c, delta_of rep c n1) # ds1 \<and>
          cur = (c, cn_upstream_traffic n1, cn_downstream_traffic n1) # cur1"
      using Cons.prems(4) l r n1 True
      by (auto simp: Let_def delta_of_def get_upstream_traffic_of_def get_downstream_traffic_of_def split: if_splits)
    ultimately show ?thesis using o u1 n1 by (intro exI [of _ "(ess1, m1)"] exI [of _ n1]) auto
  next
    case False
    have "a' = a1 \<and> (ds = ds1 \<and> cur = cur1 \<or> (\<exists>x y. ds = (d, x) # ds1 \<and> cur = (d, y) # cur1))"
      using Cons.prems(4) l r by (auto simp: Let_def split_beta split: if_splits)
    moreover obtain a2 n2 where "used c (ess1, m1) a2" "used c a2 a1" "map_of (snd a2) c = Some n2"
      "if delta_of rep c n2 = (0, 0) then map_of ds1 c = None \<and> map_of cur1 c = None
       else map_of ds1 c = Some (delta_of rep c n2) \<and>
         map_of cur1 c = Some (cn_upstream_traffic n2, cn_downstream_traffic n2)"
      using Cons.IH [OF n1 _ _ r] Cons.prems(2,3) False by auto
    ultimately show ?thesis using used_trans [OF u1] False by (intro exI [of _ a2] exI [of _ n2]) auto
  qed
qed simp

lemma mark_reported_lookup:
  "distinct (map fst cur) \<Longrightarrow>
   map_of (mark_reported cur rep) c = (case map_of cur c of Some t \<Rightarrow> Some t | None \<Rightarrow> map_of rep c)"
proof (induction cur arbitrary: rep)
  case (Cons x cur)
  obtain d t where x: "x = (d, t)" by (cases x)
  have "map_of cur d = None" using Cons.prems x by (simp add: map_of_eq_None_iff)
  with Cons x show ?case by (simp add: update_conv' split: option.split)
qed simp

definition up_acked :: "uuid \<Rightarrow> deltas \<Rightarrow> nat" where
  "up_acked c ds = sum_list (map (\<lambda>(d, u, v). if d = c then unat u else 0) ds)"

definition down_acked :: "uuid \<Rightarrow> deltas \<Rightarrow> nat" where
  "down_acked c ds = sum_list (map (\<lambda>(d, u, v). if d = c then unat v else 0) ds)"

lemma acked_append [simp]:
  "up_acked c (ds @ es) = up_acked c ds + up_acked c es"
  "down_acked c (ds @ es) = down_acked c ds + down_acked c es"
  by (simp_all add: up_acked_def down_acked_def)

lemma acked_simps [simp]:
  "up_acked c [] = 0" "down_acked c [] = 0"
  "up_acked c ((d, u, v) # ds) = (if d = c then unat u else 0) + up_acked c ds"
  "down_acked c ((d, u, v) # ds) = (if d = c then unat v else 0) + down_acked c ds"
  by (simp_all add: up_acked_def down_acked_def)

lemma acked_lookup:
  assumes "distinct (map fst ds)"
  shows "(case map_of ds c of None \<Rightarrow> up_acked c ds = 0 \<and> down_acked c ds = 0
      | Some (u, v) \<Rightarrow> up_acked c ds = unat u \<and> down_acked c ds = unat v)"
  using assms
proof (induction ds)
  case (Cons x ds)
  obtain d u v where x: "x = (d, u, v)" by (cases x)
  show ?case
  proof (cases "d = c")
    case True
    then have "map_of ds c = None" using Cons.prems x by (auto simp: map_of_eq_None_iff)
    with Cons x True show ?thesis by simp
  next
    case False
    have "up_acked c (x # ds) = up_acked c ds" "down_acked c (x # ds) = down_acked c ds"
      using False by (simp_all add: x)
    moreover have "map_of (x # ds) c = map_of ds c" using False x by simp
    ultimately show ?thesis using Cons by (simp only: list.map distinct.simps)
  qed
qed simp

text \<open>The part of the counters that has been reported.\<close>

definition covers :: "reported \<Rightarrow> uuid \<Rightarrow> client_node \<Rightarrow> bool" where
  "covers rep c n \<longleftrightarrow>
     fst (last_reported rep c) \<le> cn_upstream_traffic n \<and> snd (last_reported rep c) \<le> cn_downstream_traffic n"

lemma node_grown_mono:
  "node_grown u d n n' \<Longrightarrow>
   cn_upstream_traffic n \<le> cn_upstream_traffic n' \<and> cn_downstream_traffic n \<le> cn_downstream_traffic n'"
  using unat_u64_less [of "cn_upstream_traffic n"] unat_u64_less [of "cn_downstream_traffic n"]
  by (simp add: node_grown_def word_le_nat_alt)

lemma used_mono:
  assumes "used c a a'" "map_of (snd a) c = Some n" "covers rep c n"
  shows "\<exists>n'. map_of (snd a') c = Some n' \<and> covers rep c n' \<and>
    cn_upstream_traffic n \<le> cn_upstream_traffic n' \<and> cn_downstream_traffic n \<le> cn_downstream_traffic n'"
proof -
  obtain n' u d where n': "map_of (snd a') c = Some n'" "node_grown u d n n'"
    using assms(1,2) by (auto simp: used_def grown_def)
  from node_grown_mono [OF n'(2)] n'(1) assms(3) show ?thesis
    unfolding covers_def by (intro exI [of _ n']) (auto intro: order_trans)
qed

lemma saturating_sub_0: "b \<le> a \<Longrightarrow> saturating_sub a b = 0 \<longleftrightarrow> a = b"
  by (auto simp: saturating_sub_def)

text \<open>A report that is acknowledged covers the counters as they were read; one that is not changes nothing.\<close>

lemma report_once:
  assumes "map_of (snd a) c = Some n" "covers (pl_reported_traffic p) c n" "audit_inv (snd a)"
    and "report_traffic_once pr http_post p a = (p', a', r)"
  shows "\<exists>a1 n1. used c a a1 \<and> used c a1 a' \<and> map_of (snd a1) c = Some n1 \<and> pl_config p' = pl_config p \<and>
    covers (pl_reported_traffic p) c n1 \<and>
    last_reported (pl_reported_traffic p') c =
      (if is_ok r then (cn_upstream_traffic n1, cn_downstream_traffic n1)
       else last_reported (pl_reported_traffic p) c) \<and>
    unat (fst (last_reported (pl_reported_traffic p') c)) =
      unat (fst (last_reported (pl_reported_traffic p) c)) + up_acked c (acknowledged r) \<and>
    unat (snd (last_reported (pl_reported_traffic p') c)) =
      unat (snd (last_reported (pl_reported_traffic p) c)) + down_acked c (acknowledged r)"
proof -
  let ?rep = "pl_reported_traffic p"
  obtain ess0 m0 where l: "lock_audit (fst a) (snd a) = (ess0, m0)" by (cases "lock_audit (fst a) (snd a)")
  obtain ds cur a2 where r: "report_collect ?rep (get_client_list m0) (ess0, m0) = (ds, cur, a2)"
    using prod_cases3 by blast
  have u0: "used c a (ess0, m0)" using used_lock [OF assms(1), of "fst a"] l by simp
  from used_mono [OF this assms(1,2)] obtain n0 where n0: "map_of m0 c = Some n0" "covers ?rep c n0" by auto
  have ids: "c \<in> set (get_client_list m0)" using n0(1) by (simp add: get_client_list_mem)
  have "get_client_list m0 = get_client_list (snd a)" using l by (cases "fst a") auto
  then have dist: "distinct (get_client_list m0)" using assms(3) by (simp add: audit_inv_def get_client_list_def)
  obtain a1 n1 where c1: "used c (ess0, m0) a1" "used c a1 a2" "map_of (snd a1) c = Some n1"
    "if delta_of ?rep c n1 = (0, 0) then map_of ds c = None \<and> map_of cur c = None
     else map_of ds c = Some (delta_of ?rep c n1) \<and>
       map_of cur c = Some (cn_upstream_traffic n1, cn_downstream_traffic n1)"
    using collect_at [OF n0(1) ids dist r] by blast
  have cov: "covers ?rep c n1" using used_mono [OF c1(1), of n0 ?rep] n0 c1(3) by auto
  note keys = collect_keys [OF dist r]
  have a': "a' = a2" using assms(4) l r
    by (auto simp: report_traffic_once_def Let_def split: if_splits sum.splits prod.splits)
  have res: "p' = p \<and> \<not> is_ok r \<and> acknowledged r = [] \<or> ds = [] \<and> p' = p \<and> r = Inr [] \<or>
      p' = p\<lparr>pl_reported_traffic := mark_reported cur ?rep\<rparr> \<and> r = Inr ds"
    using assms(4) l r
    by (auto simp: report_traffic_once_def acknowledged_def Let_def split: if_splits sum.splits prod.splits)
  have sums: "unat (cn_upstream_traffic n1) = unat (fst (last_reported ?rep c)) + up_acked c ds"
    "unat (cn_downstream_traffic n1) = unat (snd (last_reported ?rep c)) + down_acked c ds"
    using acked_lookup [of ds c] keys c1(4) cov
    by (auto simp: delta_of_def covers_def unat_saturating_sub word_le_nat_alt saturating_sub_0 split: if_splits)
  have marked: "last_reported (mark_reported cur ?rep) c = (cn_upstream_traffic n1, cn_downstream_traffic n1)"
    using mark_reported_lookup [of cur ?rep c] keys c1(4) cov
    by (auto simp: last_reported_def delta_of_def covers_def saturating_sub_0 split: if_splits option.splits
        simp del: map_of_eq_Some_iff)
  have "last_reported ?rep c = (cn_upstream_traffic n1, cn_downstream_traffic n1)" if "ds = []"
    using that c1(4) cov by (auto simp: delta_of_def covers_def saturating_sub_0 prod_eq_iff split: if_splits)
  with res sums marked u0 c1 cov a' used_trans [OF u0 c1(1)] show ?thesis
    by (intro exI [of _ a1] exI [of _ n1]) (auto simp: acknowledged_def)
qed

section \<open>Many rounds\<close>

lemma audit_inv_events [simp]: "audit_inv m \<Longrightarrow> audit_inv (record_events es m)"
proof (induction es arbitrary: m)
  case (Cons e es)
  then show ?case by (cases e) simp_all
qed simp

lemma audit_inv_lock: "audit_inv m \<Longrightarrow> lock_audit ess m = (ess', m') \<Longrightarrow> audit_inv m'"
  by (cases ess) auto

lemma audit_inv_sync_users: "audit_inv m \<Longrightarrow> sync_users us seen (ess, m) = (seen', a') \<Longrightarrow> audit_inv (snd a')"
proof (induction us arbitrary: seen ess m)
  case (Cons u us)
  obtain ess1 m1 where l: "lock_audit ess m = (ess1, m1)" by (cases "lock_audit ess m")
  show ?case
  proof (cases "su_client_id u")
    case None
    with Cons show ?thesis by simp
  next
    case (Some d)
    have "audit_inv (set_enable_of d (su_enable u) (add_client d m1))"
      using audit_inv_lock [OF Cons.prems(1) l] by simp
    from Cons.IH [OF this] Cons.prems(2) Some l show ?thesis by simp
  qed
qed auto

lemma audit_inv_sync_removed:
  "audit_inv m \<Longrightarrow> sync_removed seen cs rep (ess, m) = (rep', a') \<Longrightarrow> audit_inv (snd a')"
proof (induction cs arbitrary: rep ess m)
  case (Cons d cs)
  obtain ess1 m1 where l: "lock_audit ess m = (ess1, m1)" by (cases "lock_audit ess m")
  have "audit_inv (remove_client d m1)" using audit_inv_lock [OF Cons.prems(1) l] by simp
  from Cons.IH [OF this] Cons.IH [OF Cons.prems(1)] Cons.prems(2) l show ?case by (simp split: if_splits)
qed auto

lemma audit_inv_collect:
  "audit_inv m \<Longrightarrow> report_collect rep ids (ess, m) = (ds, cur, a') \<Longrightarrow> audit_inv (snd a')"
proof (induction ids arbitrary: ess m ds cur a')
  case (Cons d ids)
  obtain ess1 m1 where l: "lock_audit ess m = (ess1, m1)" by (cases "lock_audit ess m")
  obtain ds1 cur1 a1 where r: "report_collect rep ids (ess1, m1) = (ds1, cur1, a1)" using prod_cases3 by blast
  have "a' = a1" using Cons.prems(2) l r by (auto simp: Let_def split_beta split: if_splits)
  with Cons.IH [OF audit_inv_lock [OF Cons.prems(1) l] r] show ?case by simp
qed auto

lemma audit_inv_sync_once:
  assumes "audit_inv (snd a)" "sync_once pr from_value http_get p a = (p', a', r)"
  shows "audit_inv (snd a')"
proof (cases "fetch_sync_payload pr from_value http_get p")
  case (Inl e)
  with assms show ?thesis by (simp add: sync_once_def)
next
  case (Inr us)
  obtain ess1 m1 where l: "lock_audit (fst a) (snd a) = (ess1, m1)" by (cases "lock_audit (fst a) (snd a)")
  obtain seen ess2 m2 where s: "sync_users us [] (ess1, m1) = (seen, ess2, m2)" using prod_cases3 by blast
  have "audit_inv m2" using audit_inv_sync_users [OF audit_inv_lock [OF assms(1) l] s] by simp
  then show ?thesis using assms(2) Inr l s audit_inv_sync_removed [of m2]
    by (auto simp: sync_once_def split: prod.splits)
qed

lemma audit_inv_report:
  assumes "audit_inv (snd a)" "report_traffic_once pr http_post p a = (p', a', r)"
  shows "audit_inv (snd a')"
proof -
  obtain ess0 m0 where l: "lock_audit (fst a) (snd a) = (ess0, m0)" by (cases "lock_audit (fst a) (snd a)")
  obtain ds cur a2 where c: "report_collect (pl_reported_traffic p) (get_client_list m0) (ess0, m0) = (ds, cur, a2)"
    using prod_cases3 by blast
  have "a' = a2" using assms(2) l c
    by (auto simp: report_traffic_once_def Let_def split: if_splits sum.splits prod.splits)
  with audit_inv_collect [OF audit_inv_lock [OF assms(1) l] c] show ?thesis by simp
qed

text \<open>The accounting of one client over a stretch of traffic with some acknowledged differences.\<close>

definition accounted ::
    "uuid \<Rightarrow> panel_client \<times> traffic_audit \<Rightarrow> audit_event list \<Rightarrow> deltas \<Rightarrow> panel_client \<times> traffic_audit \<Rightarrow> bool" where
  "accounted c pm es ds pm' \<longleftrightarrow>
     pl_config (fst pm') = pl_config (fst pm) \<and> audit_inv (snd pm') \<and> grown c es (snd pm) (snd pm') \<and>
     (\<exists>n. map_of (snd pm') c = Some n \<and> covers (pl_reported_traffic (fst pm')) c n) \<and>
     unat (fst (last_reported (pl_reported_traffic (fst pm')) c)) =
       unat (fst (last_reported (pl_reported_traffic (fst pm)) c)) + up_acked c ds \<and>
     unat (snd (last_reported (pl_reported_traffic (fst pm')) c)) =
       unat (snd (last_reported (pl_reported_traffic (fst pm)) c)) + down_acked c ds"

lemma accounted_trans:
  "accounted c pm es ds pm' \<Longrightarrow> accounted c pm' es' ds' pm'' \<Longrightarrow> accounted c pm (es @ es') (ds @ ds') pm''"
  by (auto simp: accounted_def intro: grown_trans)

definition serves :: "uuid \<Rightarrow> panel_client \<times> traffic_audit \<Rightarrow> bool" where
  "serves c pm \<longleftrightarrow>
     audit_inv (snd pm) \<and> (\<exists>n. map_of (snd pm) c = Some n \<and> covers (pl_reported_traffic (fst pm)) c n)"

lemma serves_accounted: "accounted c pm es ds pm' \<Longrightarrow> serves c pm'"
  by (auto simp: accounted_def serves_def)

lemma tick_parts:
  assumes "serves c pm" "stays pr from_value (fst pm) c rd" "panel_tick pr from_value rd pm = (pm', ds)"
  obtains p1 a1 p2 ess2 m2 r2 a3 n3 where
    "report_traffic_once pr (pn_post rd) p1 a1 = (p2, (ess2, m2), r2)"
    "pm' = (p2, record_events (concat ess2) m2)" "ds = acknowledged r2" "audit_inv m2"
    "pl_config p1 = pl_config (fst pm)" "pl_config p2 = pl_config (fst pm)"
    "used c (pn_traffic rd, snd pm) a3" "used c a3 (ess2, m2)"
    "map_of (snd a3) c = Some n3" "covers (pl_reported_traffic (fst pm)) c n3"
    "last_reported (pl_reported_traffic p2) c = (if is_ok r2 then (cn_upstream_traffic n3, cn_downstream_traffic n3)
       else last_reported (pl_reported_traffic (fst pm)) c)"
    "unat (fst (last_reported (pl_reported_traffic p2) c)) =
      unat (fst (last_reported (pl_reported_traffic (fst pm)) c)) + up_acked c ds"
    "unat (snd (last_reported (pl_reported_traffic p2) c)) =
      unat (snd (last_reported (pl_reported_traffic (fst pm)) c)) + down_acked c ds"
proof -
  obtain n where n: "map_of (snd pm) c = Some n" "covers (pl_reported_traffic (fst pm)) c n" "audit_inv (snd pm)"
    using assms(1) by (auto simp: serves_def)
  obtain p1 a1 r1 where s: "sync_once pr from_value (pn_get rd) (fst pm) (pn_traffic rd, snd pm) = (p1, a1, r1)"
    using prod_cases3 by blast
  obtain p2 a2 r2 where t0: "report_traffic_once pr (pn_post rd) p1 a1 = (p2, a2, r2)" using prod_cases3 by blast
  obtain ess2 m2 where "a2 = (ess2, m2)" by (cases a2)
  with t0 have t: "report_traffic_once pr (pn_post rd) p1 a1 = (p2, (ess2, m2), r2)" by simp
  have eq: "pm' = (p2, record_events (concat ess2) m2)" "ds = acknowledged r2"
    using assms(3) s t by (simp_all add: panel_tick_def)
  have u1: "used c (pn_traffic rd, snd pm) a1" "pl_config p1 = pl_config (fst pm)"
    "map_of (pl_reported_traffic p1) c = map_of (pl_reported_traffic (fst pm)) c"
    using used_sync_once [OF _ assms(2) s] n(1) by auto
  have same: "last_reported (pl_reported_traffic p1) c = last_reported (pl_reported_traffic (fst pm)) c"
    using u1(3) by (simp add: last_reported_def)
  have i1: "audit_inv (snd a1)" using audit_inv_sync_once [OF _ s] n(3) by simp
  obtain n1 where n1: "map_of (snd a1) c = Some n1" "covers (pl_reported_traffic p1) c n1"
    using used_mono [OF u1(1), of n] n(1,2) same by (auto simp: covers_def)
  note r = report_once [OF n1 i1 t, folded eq(2), unfolded covers_def same, folded covers_def]
  have "audit_inv m2" using audit_inv_report [OF i1 t] by simp
  then show ?thesis
    using r u1 by (elim exE conjE) (rule that [OF t eq _ u1(2)], simp_all add: used_trans [OF u1(1)])
qed

lemma accounted_tick:
  assumes "serves c pm" "stays pr from_value (fst pm) c rd" "panel_tick pr from_value rd pm = (pm', ds)"
  shows "accounted c pm (concat (pn_traffic rd)) ds pm'"
  using assms
proof (rule tick_parts)
  fix p1 a1 p2 ess2 m2 r2 a3 n3
  assume eq: "pm' = (p2, record_events (concat ess2) m2)" "pl_config p2 = pl_config (fst pm)" "audit_inv m2"
    and u: "used c (pn_traffic rd, snd pm) a3" "used c a3 (ess2, m2)"
    and n3: "map_of (snd a3) c = Some n3" "covers (pl_reported_traffic (fst pm)) c n3"
    and r: "last_reported (pl_reported_traffic p2) c =
        (if is_ok r2 then (cn_upstream_traffic n3, cn_downstream_traffic n3)
         else last_reported (pl_reported_traffic (fst pm)) c)"
      "unat (fst (last_reported (pl_reported_traffic p2) c)) =
        unat (fst (last_reported (pl_reported_traffic (fst pm)) c)) + up_acked c ds"
      "unat (snd (last_reported (pl_reported_traffic p2) c)) =
        unat (snd (last_reported (pl_reported_traffic (fst pm)) c)) + down_acked c ds"
  have "covers (pl_reported_traffic p2) c n3" using n3(2) r(1) by (auto simp: covers_def)
  from used_mono [OF u(2) n3(1) this] obtain n2 where
    n2: "map_of m2 c = Some n2" "covers (pl_reported_traffic p2) c n2" by auto
  obtain es where es: "concat (pn_traffic rd) = es @ concat ess2" "grown c es (snd pm) m2"
    using used_trans [OF u] by (auto simp: used_def)
  have g: "grown c (concat ess2) m2 (record_events (concat ess2) m2)" using n2(1) by (rule grown_events)
  then have "used c ([concat ess2], m2) ([], record_events (concat ess2) m2)" by (intro usedI) simp_all
  from used_mono [OF this, of n2] n2 have "\<exists>n'. map_of (snd pm') c = Some n' \<and> covers (pl_reported_traffic p2) c n'"
    using eq(1) by auto
  moreover have "grown c (concat (pn_traffic rd)) (snd pm) (snd pm')"
    using grown_trans [OF es(2) g] es(1) eq(1) by simp
  ultimately show ?thesis using r(2,3) eq by (simp add: accounted_def)
qed

lemma accounted_run:
  assumes "serves c pm" "list_all (stays pr from_value (fst pm) c) rds" "panel_run pr from_value rds pm = (pm', ds)"
  shows "accounted c pm (concat (map (\<lambda>rd. concat (pn_traffic rd)) rds)) ds pm'"
  using assms
proof (induction rds arbitrary: pm pm' ds)
  case Nil
  then show ?case by (auto simp: accounted_def serves_def intro: grown_refl)
next
  case (Cons rd rds)
  obtain pm1 ds1 where t: "panel_tick pr from_value rd pm = (pm1, ds1)" by (cases "panel_tick pr from_value rd pm")
  obtain pm2 ds2 where r: "panel_run pr from_value rds pm1 = (pm2, ds2)" by (cases "panel_run pr from_value rds pm1")
  have a: "accounted c pm (concat (pn_traffic rd)) ds1 pm1"
    using accounted_tick [OF Cons.prems(1) _ t] Cons.prems(2) by simp
  have "list_all (stays pr from_value (fst pm1) c) rds"
    using Cons.prems(2) a stays_config [of "fst pm1" "fst pm"] by (simp add: accounted_def list_all_iff)
  from accounted_trans [OF a Cons.IH [OF serves_accounted [OF a] this r]] Cons.prems(3) t r show ?case by simp
qed

text \<open>A round without traffic whose report is accepted leaves nothing to report.\<close>

definition accepts :: "printers \<Rightarrow> panel_client \<Rightarrow> panel_round \<Rightarrow> bool" where
  "accepts pr p rd \<longleftrightarrow>
     is_ok (request_url (pl_config p) ''users/traffic'') \<and> pn_traffic rd = [] \<and>
     (\<exists>resp. pn_post rd = (\<lambda>_ _. Inr resp) \<and> is_ok (parse_payload pr (\<lambda>v. Inr v) resp))"

lemma report_ok:
  assumes "accepts pr p rd" "report_traffic_once pr (pn_post rd) p a = (p', a', r)"
  shows "is_ok r"
proof -
  obtain resp where "is_ok (request_url (pl_config p) ''users/traffic'')" "pn_post rd = (\<lambda>_ _. Inr resp)"
    "is_ok (parse_payload pr (\<lambda>v. Inr v) resp)"
    using assms(1) by (auto simp: accepts_def)
  then show ?thesis using assms(2)
    by (auto simp: report_traffic_once_def Let_def send_def is_ok_iff split: prod.splits if_splits)
qed

lemma panel_run_snoc:
  "panel_run pr from_value (rds @ [rd]) pm =
     (case panel_run pr from_value rds pm of (pm', ds) \<Rightarrow>
        case panel_tick pr from_value rd pm' of (pm'', ds') \<Rightarrow> (pm'', ds @ ds'))"
  by (induction rds arbitrary: pm) (simp_all add: split_beta)

lemma used_nothing:
  assumes "used c ([], m) a'" "map_of m c = Some n" "map_of (snd a') c = Some n'"
  shows "cn_upstream_traffic n' = cn_upstream_traffic n \<and> cn_downstream_traffic n' = cn_downstream_traffic n \<and>
    concat (fst a') = []"
proof -
  have "node_grown 0 0 n n'" "concat (fst a') = []" using assms by (auto simp: used_def grown_def)
  then show ?thesis
    using unat_u64_less [of "cn_upstream_traffic n"] unat_u64_less [of "cn_downstream_traffic n"]
    by (simp add: node_grown_def word_unat_eq_iff)
qed

lemma complete_tick:
  assumes "serves c pm" "stays pr from_value (fst pm) c rd" "accepts pr (fst pm) rd"
    and "panel_tick pr from_value rd pm = (pm', ds)"
  shows "\<exists>n. map_of (snd pm') c = Some n \<and>
    last_reported (pl_reported_traffic (fst pm')) c = (cn_upstream_traffic n, cn_downstream_traffic n)"
  using assms(1,2,4)
proof (rule tick_parts)
  fix p1 a1 p2 ess2 m2 r2 a3 n3
  assume t: "report_traffic_once pr (pn_post rd) p1 a1 = (p2, (ess2, m2), r2)"
    and eq: "pm' = (p2, record_events (concat ess2) m2)" "pl_config p1 = pl_config (fst pm)"
    and u: "used c (pn_traffic rd, snd pm) a3" "used c a3 (ess2, m2)" "map_of (snd a3) c = Some n3"
    and r: "last_reported (pl_reported_traffic p2) c =
        (if is_ok r2 then (cn_upstream_traffic n3, cn_downstream_traffic n3)
         else last_reported (pl_reported_traffic (fst pm)) c)"
  obtain n where n: "map_of (snd pm) c = Some n" using assms(1) by (auto simp: serves_def)
  obtain n2 where n2: "map_of m2 c = Some n2" using used_present [OF u(2)] by auto
  have e: "pn_traffic rd = []" using assms(3) by (simp add: accepts_def)
  have "accepts pr p1 rd" using assms(3) eq(2) by (simp add: accepts_def)
  then have ok: "is_ok r2" using report_ok t by blast
  have u0: "used c ([], snd pm) a3" "used c ([], snd pm) (ess2, m2)" using u(1) used_trans [OF u(1,2)] e by simp_all
  from used_nothing [OF u0(1) n u(3)] used_nothing [OF u0(2) n] n2
  have "cn_upstream_traffic n2 = cn_upstream_traffic n3" "cn_downstream_traffic n2 = cn_downstream_traffic n3"
    "concat ess2 = []" by auto
  with n2 eq(1) ok r show ?thesis by simp
qed

section \<open>What a synchronisation does to the clients\<close>

lemma enable_events [simp]: "get_enable_of c (record_events es m) = get_enable_of c m"
proof (induction es arbitrary: m)
  case (Cons e es)
  have "get_enable_of c (record_event e m) = get_enable_of c m"
    by (cases e) (auto simp: get_enable_of_def audit_lookup add_upstream_traffic_def add_downstream_traffic_def
        split: option.split)
  with Cons show ?case by simp
qed simp

lemma lock_audit_clients:
  assumes "lock_audit ess m = (ess', m')"
  shows "set (get_client_list m') = set (get_client_list m)" "get_enable_of c m' = get_enable_of c m"
  using assms by (cases ess; auto)+

definition entries_of :: "uuid \<Rightarrow> sync_user list \<Rightarrow> sync_user list" where
  "entries_of c us = filter (\<lambda>u. su_client_id u = Some c) us"

lemma sync_users_clients:
  assumes "sync_users us seen (ess, m) = (seen', ess', m')"
  shows "set (get_client_list m') = set (get_client_list m) \<union> {c. entries_of c us \<noteq> []} \<and>
    get_enable_of c m' = (if entries_of c us = [] then get_enable_of c m else su_enable (last (entries_of c us)))"
  using assms
proof (induction us arbitrary: seen ess m)
  case Nil
  then show ?case by (simp add: entries_of_def)
next
  case (Cons u us)
  show ?case
  proof (cases "su_client_id u")
    case None
    then have "entries_of d (u # us) = entries_of d us" for d by (simp add: entries_of_def)
    with Cons None show ?thesis by simp
  next
    case (Some d)
    obtain ess1 m1 where l: "lock_audit ess m = (ess1, m1)" by (cases "lock_audit ess m")
    let ?m = "set_enable_of d (su_enable u) (add_client d m1)"
    have "set (get_client_list ?m) = insert d (set (get_client_list m1))"
      by (auto simp: get_client_list_mem audit_lookup split: if_splits)
    moreover have "get_enable_of c ?m = (if c = d then su_enable u else get_enable_of c m1)"
      by (simp add: get_enable_of_def audit_lookup set_enable_def)
    moreover have "entries_of c' (u # us) = (if c' = d then u # entries_of c' us else entries_of c' us)" for c'
      using Some by (simp add: entries_of_def)
    moreover have "sync_users us (List.insert d seen) (ess1, ?m) = (seen', ess', m')"
      using Cons.prems Some l by simp
    ultimately show ?thesis using Cons.IH [of "List.insert d seen" ess1 ?m] lock_audit_clients [OF l] by auto
  qed
qed

lemma sync_removed_clients:
  assumes "sync_removed seen cs rep (ess, m) = (rep', ess', m')"
  shows "set (get_client_list m') = set (get_client_list m) - (set cs - set seen) \<and>
    (c \<in> set seen \<longrightarrow> get_enable_of c m' = get_enable_of c m)"
  using assms
proof (induction cs arbitrary: rep ess m)
  case (Cons d cs)
  show ?case
  proof (cases "d \<in> set seen")
    case True
    with Cons show ?thesis by auto
  next
    case False
    obtain ess1 m1 where l: "lock_audit ess m = (ess1, m1)" by (cases "lock_audit ess m")
    have "set (get_client_list (remove_client d m1)) = set (get_client_list m1) - {d}"
      by (auto simp: get_client_list_mem audit_lookup split: if_splits)
    moreover have "c \<in> set seen \<Longrightarrow> get_enable_of c (remove_client d m1) = get_enable_of c m1"
      using False by (auto simp: get_enable_of_def audit_lookup)
    moreover have "sync_removed seen cs (AList.delete d rep) (ess1, remove_client d m1) = (rep', ess', m')"
      using Cons.prems False l by simp
    ultimately show ?thesis
      using Cons.IH [of "AList.delete d rep" ess1 "remove_client d m1"] lock_audit_clients [OF l] False by auto
  qed
qed simp

text \<open>A panel that serves one client, and rounds with it; in the first one reporting fails.\<close>

definition sample_printers :: printers where
  "sample_printers = \<lparr>pr_status = (\<lambda>_. []), pr_json = (\<lambda>_. []), pr_uuid = (\<lambda>_. [])\<rparr>"

definition sample_from_value :: "json \<Rightarrow> string + sync_user list" where
  "sample_from_value _ = Inr [\<lparr>su_client_id = Some 1, su_enable = True\<rparr>, \<lparr>su_client_id = None, su_enable = True\<rparr>]"

definition sample_panel :: panel_client where
  "sample_panel = panel_client_new
     \<lparr>pc_enabled = Some True, pc_webapi_url = Some ''https://panel/'', pc_webapi_token = None,
      pc_node_id = Some 3, pc_api_update_interval_secs = None\<rparr>"

definition sample_answer :: "string + response" where
  "sample_answer = Inr \<lparr>rs_status = 200, rs_json = Inr (JObject [(''ret'', JInt 1), (''data'', JNull)])\<rparr>"

definition failing_round :: panel_round where
  "failing_round = \<lparr>pn_get = \<lambda>_. sample_answer, pn_post = \<lambda>_ _. Inl ''connection refused'',
     pn_traffic = [[Upstream 1 5], [Downstream 1 7]]\<rparr>"

definition good_round :: panel_round where
  "good_round = \<lparr>pn_get = \<lambda>_. sample_answer, pn_post = \<lambda>_ _. sample_answer, pn_traffic = []\<rparr>"

lemma sample_fetch:
  "fetch_sync_payload sample_printers sample_from_value (\<lambda>_. sample_answer) sample_panel =
     Inr [\<lparr>su_client_id = Some 1, su_enable = True\<rparr>, \<lparr>su_client_id = None, su_enable = True\<rparr>]"
  by (simp add: fetch_sync_payload_def request_url_def build_url_def sample_panel_def panel_client_new_def send_def
      sample_answer_def parse_payload_def sample_from_value_def Let_def)

lemma sample_stays:
  "stays sample_printers sample_from_value sample_panel 1 failing_round"
  "stays sample_printers sample_from_value sample_panel 1 good_round"
  by (simp_all add: stays_def failing_round_def good_round_def sample_fetch)

lemma sample_accepts: "accepts sample_printers sample_panel good_round"
  unfolding accepts_def
proof (intro conjI exI)
  show "pn_post good_round =
      (\<lambda>_ _. Inr \<lparr>rs_status = 200, rs_json = Inr (JObject [(''ret'', JInt 1), (''data'', JNull)])\<rparr>)"
    by (simp add: good_round_def sample_answer_def)
qed (simp_all add: good_round_def request_url_def build_url_def sample_panel_def panel_client_new_def
    parse_payload_def Let_def)

section \<open>Properties\<close>

text \<open>
  C39. Synchronisation. When the user list cannot be fetched, nothing changes. When it can, afterwards
  exactly the clients of the list are allowed, whatever traffic is recorded meanwhile, and a client is
  enabled exactly when the last entry of the list with its identifier says so; entries without a valid
  identifier have no effect.
\<close>

theorem sync_once_spec:
  assumes "sync_once pr from_value http_get p a = (p', a', r)"
  shows "case fetch_sync_payload pr from_value http_get p of
      Inl e \<Rightarrow> p' = p \<and> a' = a \<and> r = Inl e
    | Inr us \<Rightarrow> r = Inr () \<and>
        (contain_client c (snd a') \<longleftrightarrow> entries_of c us \<noteq> []) \<and>
        get_enable_of c (snd a') = (entries_of c us \<noteq> [] \<and> su_enable (last (entries_of c us)))"
proof (cases "fetch_sync_payload pr from_value http_get p")
  case (Inl e)
  with assms show ?thesis by (simp add: sync_once_def)
next
  case (Inr us)
  obtain ess1 m1 where l: "lock_audit (fst a) (snd a) = (ess1, m1)" by (cases "lock_audit (fst a) (snd a)")
  obtain seen ess2 m2 where s: "sync_users us [] (ess1, m1) = (seen, ess2, m2)" using prod_cases3 by blast
  obtain rep ess3 m3 where
    d: "sync_removed seen (get_client_list m1) (pl_reported_traffic p) (ess2, m2) = (rep, ess3, m3)"
    using prod_cases3 by blast
  have eq: "a' = (ess3, m3)" "r = Inr ()" using assms Inr l s d by (simp_all add: sync_once_def)
  have seen: "set seen = {c. entries_of c us \<noteq> []}"
    using sync_users_seen [OF s] by (auto simp: entries_of_def filter_empty_conv) (metis image_eqI)+
  have m3: "set (get_client_list m3) = {c. entries_of c us \<noteq> []}"
    using sync_users_clients [OF s] sync_removed_clients [OF d] seen by auto
  then have "contain_client c m3 \<longleftrightarrow> entries_of c us \<noteq> []"
    using get_client_list_mem [of c m3] by (auto simp: contain_client_def)
  moreover have "get_enable_of c m3 = (entries_of c us \<noteq> [] \<and> su_enable (last (entries_of c us)))"
  proof (cases "entries_of c us = []")
    case True
    then have "map_of m3 c = None" using m3 get_client_list_mem [of c m3] by auto
    with True show ?thesis by (simp add: get_enable_of_def)
  next
    case False
    with sync_users_clients [OF s, of c] sync_removed_clients [OF d, of c] seen show ?thesis by auto
  qed
  ultimately show ?thesis using Inr eq by simp
qed

theorem sync_once_spec_witness:
  "contain_client 1 (snd (fst (snd (sync_once sample_printers sample_from_value (\<lambda>_. sample_answer) sample_panel
     ([[Upstream 2 9]], [(2, client_node_new)]))))) \<and>
   \<not> contain_client 2 (snd (fst (snd (sync_once sample_printers sample_from_value (\<lambda>_. sample_answer) sample_panel
     ([[Upstream 2 9]], [(2, client_node_new)])))))"
proof -
  let ?s = "sync_once sample_printers sample_from_value (\<lambda>_. sample_answer) sample_panel
     ([[Upstream 2 9]], [(2, client_node_new)])"
  have "?s = (fst ?s, fst (snd ?s), snd (snd ?s))" by simp
  from sync_once_spec [OF this, of 1] sync_once_spec [OF this, of 2] show ?thesis
    by (simp add: sample_fetch entries_of_def)
qed

text \<open>
  C37. Accounting with the panel. Take a client with its counters and what has been reported of them,
  and any number of rounds whose fetched user lists, where fetching succeeds, keep the client. Whatever
  reports fail, and however traffic is recorded while the task runs: the differences that the panel
  acknowledged add up to the growth of what counts as reported, which never exceeds the counters; and
  the counters have grown by all the traffic, up to their maximum. So nothing is reported twice once
  acknowledged, and nothing is lost by a failed report.
\<close>

theorem panel_accounting:
  assumes "serves c (p, m)" "list_all (stays pr from_value p c) rds"
    and "panel_run pr from_value rds (p, m) = ((p', m'), ds)"
  shows "\<exists>n n'. map_of m c = Some n \<and> map_of m' c = Some n' \<and>
    unat (cn_upstream_traffic n') =
      min (unat (cn_upstream_traffic n) + up_sum c (concat (map (\<lambda>rd. concat (pn_traffic rd)) rds))) (2 ^ 64 - 1) \<and>
    unat (cn_downstream_traffic n') =
      min (unat (cn_downstream_traffic n) + down_sum c (concat (map (\<lambda>rd. concat (pn_traffic rd)) rds))) (2 ^ 64 - 1) \<and>
    unat (fst (last_reported (pl_reported_traffic p) c)) + up_acked c ds =
      unat (fst (last_reported (pl_reported_traffic p') c)) \<and>
    unat (snd (last_reported (pl_reported_traffic p) c)) + down_acked c ds =
      unat (snd (last_reported (pl_reported_traffic p') c)) \<and>
    fst (last_reported (pl_reported_traffic p') c) \<le> cn_upstream_traffic n' \<and>
    snd (last_reported (pl_reported_traffic p') c) \<le> cn_downstream_traffic n'"
proof -
  have "accounted c (p, m) (concat (map (\<lambda>rd. concat (pn_traffic rd)) rds)) ds (p', m')"
    using accounted_run [OF assms(1) _ assms(3)] assms(2) by simp
  then obtain n n' where "map_of m c = Some n" "map_of m' c = Some n'"
    "node_grown (up_sum c (concat (map (\<lambda>rd. concat (pn_traffic rd)) rds)))
       (down_sum c (concat (map (\<lambda>rd. concat (pn_traffic rd)) rds))) n n'"
    "covers (pl_reported_traffic p') c n'"
    "unat (fst (last_reported (pl_reported_traffic p') c)) =
       unat (fst (last_reported (pl_reported_traffic p) c)) + up_acked c ds"
    "unat (snd (last_reported (pl_reported_traffic p') c)) =
       unat (snd (last_reported (pl_reported_traffic p) c)) + down_acked c ds"
    by (auto simp: accounted_def grown_def)
  then show ?thesis by (intro exI [of _ n] exI [of _ n']) (simp add: node_grown_def covers_def)
qed

theorem panel_accounting_witness:
  "\<exists>n'. map_of (snd (fst (panel_run sample_printers sample_from_value [failing_round, good_round]
       (sample_panel, [(1, client_node_new)])))) 1 = Some n' \<and>
     unat (cn_upstream_traffic n') = 5 \<and> unat (cn_downstream_traffic n') = 7"
proof -
  let ?r = "panel_run sample_printers sample_from_value [failing_round, good_round]
    (sample_panel, [(1, client_node_new)])"
  have s: "serves 1 (sample_panel, [(1, client_node_new)])"
    by (simp add: serves_def audit_inv_def covers_def last_reported_def sample_panel_def panel_client_new_def)
  have l: "list_all (stays sample_printers sample_from_value sample_panel 1) [failing_round, good_round]"
    by (simp add: sample_stays)
  have "?r = ((fst (fst ?r), snd (fst ?r)), snd ?r)" by simp
  from panel_accounting [OF s l this] show ?thesis
    by (auto simp: failing_round_def good_round_def client_node_new_def)
qed

text \<open>
  C38. Everything is reported in the end. If, after any such rounds, a round without further traffic
  reaches a panel that accepts its report, then all the traffic since the client was added has been
  acknowledged, exactly, unless a counter has reached its maximum.
\<close>

theorem panel_reports_everything:
  assumes "audit_inv m" "map_of m c = Some client_node_new" "map_of (pl_reported_traffic p) c = None"
    and "list_all (stays pr from_value p c) (rds @ [rd])" "accepts pr p rd"
    and "panel_run pr from_value (rds @ [rd]) (p, m) = (pm', ds)"
    and "up_sum c (concat (map (\<lambda>rd. concat (pn_traffic rd)) rds)) < 2 ^ 64"
    and "down_sum c (concat (map (\<lambda>rd. concat (pn_traffic rd)) rds)) < 2 ^ 64"
  shows "up_acked c ds = up_sum c (concat (map (\<lambda>rd. concat (pn_traffic rd)) rds)) \<and>
    down_acked c ds = down_sum c (concat (map (\<lambda>rd. concat (pn_traffic rd)) rds))"
proof -
  let ?es = "concat (map (\<lambda>rd. concat (pn_traffic rd)) rds)"
  have last: "last_reported (pl_reported_traffic p) c = (0, 0)" using assms(3) by (simp add: last_reported_def)
  then have sv: "serves c (p, m)" using assms(1,2) by (simp add: serves_def covers_def)
  obtain pm1 ds1 where r: "panel_run pr from_value rds (p, m) = (pm1, ds1)"
    by (cases "panel_run pr from_value rds (p, m)")
  obtain ds2 where t: "panel_tick pr from_value rd pm1 = (pm', ds2)" "ds = ds1 @ ds2"
    using assms(6) r by (auto simp: panel_run_snoc split: prod.splits)
  have a1: "accounted c (p, m) ?es ds1 pm1" using accounted_run [OF sv _ r] assms(4) by simp
  then have cfg: "pl_config (fst pm1) = pl_config p" by (simp add: accounted_def)
  have st: "stays pr from_value (fst pm1) c rd" using assms(4) stays_config [OF cfg] by simp
  have ac: "accepts pr (fst pm1) rd" using assms(5) cfg by (simp add: accepts_def)
  have "pn_traffic rd = []" using assms(5) by (simp add: accepts_def)
  then have a2: "accounted c (p, m) ?es ds pm'"
    using accounted_trans [OF a1 accounted_tick [OF serves_accounted [OF a1] st t(1)]] t(2) by simp
  from complete_tick [OF serves_accounted [OF a1] st ac t(1)] obtain n where
    n: "map_of (snd pm') c = Some n"
    "last_reported (pl_reported_traffic (fst pm')) c = (cn_upstream_traffic n, cn_downstream_traffic n)" by blast
  have "node_grown (up_sum c ?es) (down_sum c ?es) client_node_new n"
    using a2 n(1) assms(2) by (auto simp: accounted_def grown_def)
  with a2 n(2) last assms(7,8) show ?thesis
    by (simp add: accounted_def node_grown_def client_node_new_def)
qed

theorem panel_reports_everything_witness:
  "up_acked 1 (snd (panel_run sample_printers sample_from_value [failing_round, good_round]
       (sample_panel, [(1, client_node_new)]))) = 5 \<and>
   down_acked 1 (snd (panel_run sample_printers sample_from_value [failing_round, good_round]
       (sample_panel, [(1, client_node_new)]))) = 7"
proof -
  let ?r = "panel_run sample_printers sample_from_value ([failing_round] @ [good_round])
    (sample_panel, [(1, client_node_new)])"
  have i: "audit_inv [(1, client_node_new)]" by (simp add: audit_inv_def)
  have k: "map_of [(1, client_node_new)] (1 :: uuid) = Some client_node_new" by simp
  have n: "map_of (pl_reported_traffic sample_panel) 1 = None" by (simp add: sample_panel_def panel_client_new_def)
  have l: "list_all (stays sample_printers sample_from_value sample_panel 1) ([failing_round] @ [good_round])"
    by (simp add: sample_stays)
  have "?r = (fst ?r, snd ?r)" by simp
  from panel_reports_everything [OF i k n l sample_accepts this] show ?thesis
    by (simp add: failing_round_def)
qed

end
