(* ===== verification/Users.thy ===== *)
theory Users
  imports Rust_Std "HOL-Library.AList" "HOL-Library.Multiset"
begin

text \<open>
  \<open>src/src/node_api/users.rs\<close>: the registry of users. Entries are shared objects
  (\<open>Arc<UserEntry>\<close>): they live in a heap, and the two indexes of the registry take an email
  and a password hash to an address. Counters are 64-bit words, as the atomics wrap; the signed
  connection count is such a word in two's complement. Times are integers, the wall clock is an
  argument, and SHA-256 is a parameter.
\<close>

section \<open>Users\<close>

type_synonym sha_fun = "byte list \<Rightarrow> byte list"

definition PASSWORD_HASH_LEN :: nat where "PASSWORD_HASH_LEN = 32"

definition hash_password :: "sha_fun \<Rightarrow> string \<Rightarrow> byte list" where
  "hash_password sha password = sha (as_bytes password)"

record user_spec =
  us_email :: string
  us_password :: string
  us_quota_bytes :: u64
  us_expires_unix :: int

datatype deny_reason = Revoked | Expired | QuotaExceeded

fun show_deny_reason :: "deny_reason \<Rightarrow> string" where
  "show_deny_reason Revoked = ''revoked''"
| "show_deny_reason Expired = ''expired''"
| "show_deny_reason QuotaExceeded = ''quota exceeded''"

record user_entry =
  ue_email :: string
  ue_generation :: u64
  ue_up :: u64
  ue_down :: u64
  ue_connections :: u64
  ue_quota_bytes :: u64
  ue_quota_base :: u64
  ue_expires_unix :: int
  ue_revoked :: bool

definition user_entry_new :: "user_spec \<Rightarrow> user_entry" where
  "user_entry_new spec =
     \<lparr>ue_email = us_email spec, ue_generation = 0, ue_up = 0, ue_down = 0, ue_connections = 0,
      ue_quota_bytes = us_quota_bytes spec, ue_quota_base = 0, ue_expires_unix = us_expires_unix spec,
      ue_revoked = False\<rparr>"

definition entry_record_up :: "u64 \<Rightarrow> user_entry \<Rightarrow> user_entry" where
  "entry_record_up n e = e\<lparr>ue_up := ue_up e + n\<rparr>"

definition entry_record_down :: "u64 \<Rightarrow> user_entry \<Rightarrow> user_entry" where
  "entry_record_down n e = e\<lparr>ue_down := ue_down e + n\<rparr>"

definition quota_used :: "user_entry \<Rightarrow> u64" where
  "quota_used e = saturating_sub (saturating_add (ue_up e) (ue_down e)) (ue_quota_base e)"

definition reset_quota :: "user_entry \<Rightarrow> user_entry" where
  "reset_quota e = e\<lparr>ue_quota_base := saturating_add (ue_up e) (ue_down e)\<rparr>"

definition apply_limits :: "user_spec \<Rightarrow> user_entry \<Rightarrow> user_entry" where
  "apply_limits spec e =
     e\<lparr>ue_quota_bytes := us_quota_bytes spec, ue_expires_unix := us_expires_unix spec\<rparr>"

definition revoke :: "user_entry \<Rightarrow> user_entry" where
  "revoke e = e\<lparr>ue_revoked := True\<rparr>"

definition deny_reason_at :: "int \<Rightarrow> user_entry \<Rightarrow> deny_reason option" where
  "deny_reason_at now_unix e =
     (if ue_revoked e then Some Revoked
      else if 0 < ue_expires_unix e \<and> ue_expires_unix e \<le> now_unix then Some Expired
      else if 0 < ue_quota_bytes e \<and> ue_quota_bytes e \<le> quota_used e then Some QuotaExceeded
      else None)"

section \<open>The registry\<close>

record registry =
  rg_heap :: "user_entry list"
  rg_by_email :: "(string \<times> nat) list"
  rg_by_hash :: "(byte list \<times> nat) list"

definition registry_new :: registry where
  "registry_new = \<lparr>rg_heap = [], rg_by_email = [], rg_by_hash = []\<rparr>"

abbreviation entry_at :: "registry \<Rightarrow> nat \<Rightarrow> user_entry" where
  "entry_at r a \<equiv> rg_heap r ! a"

definition upd_entry :: "nat \<Rightarrow> (user_entry \<Rightarrow> user_entry) \<Rightarrow> registry \<Rightarrow> registry" where
  "upd_entry a g r = r\<lparr>rg_heap := (rg_heap r)[a := g (rg_heap r ! a)]\<rparr>"

text \<open>A user resolved at authentication; \<open>drop\<close> gives its connection back.\<close>

record authed_user =
  au_entry :: nat
  au_generation :: u64

definition authed_user_new :: "nat \<Rightarrow> registry \<Rightarrow> registry \<times> authed_user" where
  "authed_user_new a r =
     (upd_entry a (\<lambda>e. e\<lparr>ue_connections := ue_connections e + 1\<rparr>) r,
      \<lparr>au_entry = a, au_generation = ue_generation (entry_at r a)\<rparr>)"

definition authed_record_up :: "u64 \<Rightarrow> authed_user \<Rightarrow> registry \<Rightarrow> registry" where
  "authed_record_up n u r = upd_entry (au_entry u) (entry_record_up n) r"

definition authed_record_down :: "u64 \<Rightarrow> authed_user \<Rightarrow> registry \<Rightarrow> registry" where
  "authed_record_down n u r = upd_entry (au_entry u) (entry_record_down n) r"

definition authed_deny_reason :: "int \<Rightarrow> authed_user \<Rightarrow> registry \<Rightarrow> deny_reason option" where
  "authed_deny_reason now u r =
     (if ue_generation (entry_at r (au_entry u)) \<noteq> au_generation u then Some Revoked
      else deny_reason_at now (entry_at r (au_entry u)))"

definition authed_drop :: "authed_user \<Rightarrow> registry \<Rightarrow> registry" where
  "authed_drop u r = upd_entry (au_entry u) (\<lambda>e. e\<lparr>ue_connections := ue_connections e - 1\<rparr>) r"

definition authenticate :: "int \<Rightarrow> byte list \<Rightarrow> registry \<Rightarrow> registry \<times> authed_user option" where
  "authenticate now password_hash r =
     (if length password_hash \<noteq> PASSWORD_HASH_LEN then (r, None)
      else
        (case map_of (rg_by_hash r) password_hash of
           None \<Rightarrow> (r, None)
         | Some a \<Rightarrow>
             if deny_reason_at now (entry_at r a) \<noteq> None then (r, None)
             else (case authed_user_new a r of (r', u) \<Rightarrow> (r', Some u))))"

text \<open>
  One round of the loop of \<open>replace\<close>: \<open>old\<close> are the indexes being replaced, the heap and the new
  indexes are the loop's state.
\<close>

type_synonym indexes = "user_entry list \<times> (string \<times> nat) list \<times> (byte list \<times> nat) list"

definition replace_entry :: "registry \<Rightarrow> byte list \<Rightarrow> user_spec \<Rightarrow> user_entry list \<Rightarrow> user_entry list \<times> nat" where
  "replace_entry old hash spec h =
     (case map_of (rg_by_email old) (us_email spec) of
        Some a \<Rightarrow>
          (let e = apply_limits spec (h ! a);
               rekeyed = (map_of (rg_by_hash old) hash \<noteq> Some a)
           in (h[a := if rekeyed then e\<lparr>ue_generation := ue_generation e + 1\<rparr> else e], a))
      | None \<Rightarrow> (h @ [user_entry_new spec], length h))"

definition replace_one :: "sha_fun \<Rightarrow> registry \<Rightarrow> user_spec \<Rightarrow> indexes \<Rightarrow> indexes" where
  "replace_one sha old spec = (\<lambda>(h, by_email, by_hash).
     if us_email spec = [] \<or> us_password spec = [] then (h, by_email, by_hash)
     else
       (let hash = hash_password sha (us_password spec) in
        if map_of by_hash hash \<noteq> None then (h, by_email, by_hash)
        else
          (case replace_entry old hash spec h of (h', a) \<Rightarrow>
             (h', AList.update (us_email spec) a by_email, AList.update hash a by_hash))))"

text \<open>Entries of the old index whose email is not in the new one are revoked.\<close>

fun revoke_missing :: "(string \<times> nat) list \<Rightarrow> (string \<times> nat) list \<Rightarrow> user_entry list \<Rightarrow> user_entry list" where
  "revoke_missing [] by_email h = h"
| "revoke_missing ((email, a) # old) by_email h =
     revoke_missing old by_email (if map_of by_email email = None then h[a := revoke (h ! a)] else h)"

definition replace_users :: "sha_fun \<Rightarrow> user_spec list \<Rightarrow> registry \<Rightarrow> registry" where
  "replace_users sha specs r =
     (case fold (replace_one sha r) specs (rg_heap r, [], []) of (h, by_email, by_hash) \<Rightarrow>
        \<lparr>rg_heap = revoke_missing (rg_by_email r) by_email h, rg_by_email = by_email, rg_by_hash = by_hash\<rparr>)"

definition with_users :: "sha_fun \<Rightarrow> user_spec list \<Rightarrow> registry" where
  "with_users sha specs = replace_users sha specs registry_new"

definition registry_get :: "string \<Rightarrow> registry \<Rightarrow> nat option" where
  "registry_get email r = map_of (rg_by_email r) email"

definition registry_entries :: "registry \<Rightarrow> nat list" where
  "registry_entries r = map snd (rg_by_email r)"

definition registry_len :: "registry \<Rightarrow> nat" where
  "registry_len r = length (rg_by_email r)"

section \<open>What the loop of \<open>replace\<close> does\<close>

text \<open>The users a specification list really introduces.\<close>

fun accepted :: "sha_fun \<Rightarrow> byte list set \<Rightarrow> user_spec list \<Rightarrow> user_spec list" where
  "accepted sha seen [] = []"
| "accepted sha seen (s # ss) =
     (let hash = hash_password sha (us_password s) in
      if us_email s = [] \<or> us_password s = [] \<or> hash \<in> seen then accepted sha seen ss
      else s # accepted sha (insert hash seen) ss)"

abbreviation spec_hash :: "sha_fun \<Rightarrow> user_spec \<Rightarrow> byte list" where
  "spec_hash sha s \<equiv> hash_password sha (us_password s)"

lemma accepted_subset: "set (accepted sha seen ss) \<subseteq> set ss"
  by (induction ss arbitrary: seen) (auto simp: Let_def)

lemma accepted_not_seen: "s \<in> set (accepted sha seen ss) \<Longrightarrow> spec_hash sha s \<notin> seen"
  by (induction ss arbitrary: seen) (auto simp: Let_def split: if_splits)

lemma accepted_hashes_distinct: "distinct (map (spec_hash sha) (accepted sha seen ss))"
proof (induction ss arbitrary: seen)
  case Nil
  then show ?case by simp
next
  case (Cons s ss)
  then show ?case by (auto simp: Let_def dest: accepted_not_seen)
qed

lemma accepted_emails_distinct:
  "distinct (map us_email ss) \<Longrightarrow> distinct (map us_email (accepted sha seen ss))"
proof (induction ss arbitrary: seen)
  case Nil
  then show ?case by simp
next
  case (Cons s ss)
  then show ?case using accepted_subset [of sha _ ss] by (fastforce simp: Let_def)
qed

text \<open>An index is sound when its keys are distinct and its addresses exist.\<close>

definition index_ok :: "('k \<times> nat) list \<Rightarrow> nat \<Rightarrow> bool" where
  "index_ok xs n \<longleftrightarrow> distinct (map fst xs) \<and> (\<forall>a \<in> snd ` set xs. a < n)"

text \<open>The addresses the accepted users get, and the heap after their entries are made.\<close>

fun places :: "registry \<Rightarrow> nat \<Rightarrow> user_spec list \<Rightarrow> nat list" where
  "places r n [] = []"
| "places r n (s # ss) =
     (case map_of (rg_by_email r) (us_email s) of
        Some a \<Rightarrow> a # places r n ss
      | None \<Rightarrow> n # places r (Suc n) ss)"

fun heap_after :: "sha_fun \<Rightarrow> registry \<Rightarrow> user_spec list \<Rightarrow> user_entry list \<Rightarrow> user_entry list" where
  "heap_after sha r [] h = h"
| "heap_after sha r (s # ss) h = heap_after sha r ss (fst (replace_entry r (spec_hash sha s) s h))"

lemma length_places [simp]: "length (places r n ss) = length ss"
  by (induction ss arbitrary: n) (auto split: option.split)

lemma replace_entry_address:
  "snd (replace_entry r hash s h) =
     (case map_of (rg_by_email r) (us_email s) of Some a \<Rightarrow> a | None \<Rightarrow> length h)"
  "length (fst (replace_entry r hash s h)) =
     (case map_of (rg_by_email r) (us_email s) of Some a \<Rightarrow> length h | None \<Rightarrow> Suc (length h))"
  by (simp_all add: replace_entry_def Let_def split: option.split)

lemma update_new: "k \<notin> fst ` set xs \<Longrightarrow> AList.update k v xs = xs @ [(k, v)]"
  by (induction xs) auto

lemma fold_replace:
  assumes "distinct (map us_email ss)" "us_email ` set ss \<inter> fst ` set be = {}"
  shows "fold (replace_one sha r) ss (h, be, bh) =
    (heap_after sha r (accepted sha (fst ` set bh) ss) h,
     be @ zip (map us_email (accepted sha (fst ` set bh) ss)) (places r (length h) (accepted sha (fst ` set bh) ss)),
     bh @ zip (map (spec_hash sha) (accepted sha (fst ` set bh) ss)) (places r (length h) (accepted sha (fst ` set bh) ss)))"
  using assms
proof (induction ss arbitrary: h be bh)
  case Nil
  then show ?case by simp
next
  case (Cons s ss)
  let ?hash = "spec_hash sha s"
  show ?case
  proof (cases "us_email s = [] \<or> us_password s = [] \<or> ?hash \<in> fst ` set bh")
    case True
    then have "replace_one sha r s (h, be, bh) = (h, be, bh)"
      by (auto simp: replace_one_def Let_def map_of_eq_None_iff)
    moreover have "accepted sha (fst ` set bh) (s # ss) = accepted sha (fst ` set bh) ss"
      using True by (auto simp: Let_def)
    ultimately show ?thesis using Cons by simp
  next
    case False
    obtain h' a where e: "replace_entry r ?hash s h = (h', a)" by (cases "replace_entry r ?hash s h")
    have one: "replace_one sha r s (h, be, bh) = (h', be @ [(us_email s, a)], bh @ [(?hash, a)])"
      using False Cons.prems e by (auto simp: replace_one_def Let_def map_of_eq_None_iff update_new)
    have acc: "accepted sha (fst ` set bh) (s # ss) = s # accepted sha (insert ?hash (fst ` set bh)) ss"
      using False by (auto simp: Let_def)
    have pl: "places r (length h) (s # xs) = a # places r (length h') xs" for xs
      using e replace_entry_address [of r ?hash s h] by (auto split: option.splits)
    have IH: "fold (replace_one sha r) ss (h', be @ [(us_email s, a)], bh @ [(?hash, a)]) =
      (heap_after sha r (accepted sha (insert ?hash (fst ` set bh)) ss) h',
       (be @ [(us_email s, a)]) @ zip (map us_email (accepted sha (insert ?hash (fst ` set bh)) ss))
          (places r (length h') (accepted sha (insert ?hash (fst ` set bh)) ss)),
       (bh @ [(?hash, a)]) @ zip (map (spec_hash sha) (accepted sha (insert ?hash (fst ` set bh)) ss))
          (places r (length h') (accepted sha (insert ?hash (fst ` set bh)) ss)))"
      using Cons.IH [of "be @ [(us_email s, a)]" h' "bh @ [(?hash, a)]"] Cons.prems by auto
    show ?thesis unfolding acc pl using one IH e by simp
  qed
qed

section \<open>The invariant of the registry\<close>

definition registry_inv :: "registry \<Rightarrow> bool" where
  "registry_inv r \<longleftrightarrow>
     distinct (map fst (rg_by_email r)) \<and> distinct (map snd (rg_by_email r)) \<and>
     distinct (map fst (rg_by_hash r)) \<and> distinct (map snd (rg_by_hash r)) \<and>
     snd ` set (rg_by_hash r) = snd ` set (rg_by_email r) \<and>
     (\<forall>(email, a) \<in> set (rg_by_email r).
        a < length (rg_heap r) \<and> ue_email (entry_at r a) = email \<and> \<not> ue_revoked (entry_at r a))"

lemma registry_inv_emailD:
  assumes "registry_inv r" "map_of (rg_by_email r) email = Some a"
  shows "a < length (rg_heap r)" "ue_email (entry_at r a) = email" "\<not> ue_revoked (entry_at r a)"
  using assms map_of_SomeD [OF assms(2)] by (auto simp: registry_inv_def)

lemma registry_inv_email_inj:
  assumes "registry_inv r" "map_of (rg_by_email r) e1 = Some a" "map_of (rg_by_email r) e2 = Some a"
  shows "e1 = e2"
  using registry_inv_emailD(2) [OF assms(1)] assms(2,3) by metis

text \<open>The new addresses: those of known users, and fresh ones.\<close>

lemma places_less: "a \<in> set (places r n ss) \<Longrightarrow> a \<in> ran (map_of (rg_by_email r)) \<or> n \<le> a \<and> a < n + length ss"
  by (induction ss arbitrary: n) (force split: option.splits intro: ranI)+

lemma places_distinct:
  assumes "registry_inv r" "distinct (map us_email ss)" "length (rg_heap r) \<le> n"
  shows "distinct (places r n ss)"
  using assms(2,3)
proof (induction ss arbitrary: n)
  case Nil
  then show ?case by simp
next
  case (Cons s ss)
  have old: "b < length (rg_heap r)" if "map_of (rg_by_email r) k = Some b" for k b
    using registry_inv_emailD(1) [OF assms(1) that] .
  show ?case
  proof (cases "map_of (rg_by_email r) (us_email s)")
    case None
    have "n \<notin> set (places r (Suc n) ss)"
      using places_less [of n r "Suc n" ss] old Cons.prems(2) by (fastforce simp: ran_def)
    with Cons None show ?thesis by simp
  next
    case (Some a)
    have "a \<notin> set (places r n ss)"
    proof
      assume "a \<in> set (places r n ss)"
      then have "\<exists>t \<in> set ss. map_of (rg_by_email r) (us_email t) = Some a"
        using old [OF Some] Cons.prems(2)
      proof (induction ss arbitrary: n)
        case (Cons t ts)
        then show ?case by (fastforce split: option.splits)
      qed simp
      with registry_inv_email_inj [OF assms(1) Some] Cons.prems(1) show False by auto
    qed
    with Cons Some show ?thesis by simp
  qed
qed

section \<open>The effect of \<open>replace\<close>\<close>

text \<open>The entry of a user that was known before.\<close>

definition renewed :: "sha_fun \<Rightarrow> registry \<Rightarrow> nat \<Rightarrow> user_spec \<Rightarrow> user_entry \<Rightarrow> user_entry" where
  "renewed sha r a s e =
     (let e' = apply_limits s e
      in if map_of (rg_by_hash r) (spec_hash sha s) = Some a then e'
         else e'\<lparr>ue_generation := ue_generation e' + 1\<rparr>)"

lemma replace_entry_cases:
  "replace_entry r (spec_hash sha s) s h =
     (case map_of (rg_by_email r) (us_email s) of
        Some a \<Rightarrow> (h[a := renewed sha r a s (h ! a)], a)
      | None \<Rightarrow> (h @ [user_entry_new s], length h))"
  by (simp add: replace_entry_def renewed_def Let_def split: option.split)

lemma heap_after_same:
  assumes "a < length h" "\<forall>s \<in> set ss. map_of (rg_by_email r) (us_email s) \<noteq> Some a"
  shows "heap_after sha r ss h ! a = h ! a \<and> length h \<le> length (heap_after sha r ss h)"
  using assms
proof (induction ss arbitrary: h)
  case Nil
  then show ?case by simp
next
  case (Cons s ss)
  let ?h = "fst (replace_entry r (spec_hash sha s) s h)"
  have "length h \<le> length ?h" "?h ! a = h ! a"
    using Cons.prems by (auto simp: replace_entry_cases nth_append split: option.split)
  with Cons.IH [of ?h] Cons.prems show ?case by auto
qed

lemma length_heap_after: "length h \<le> length (heap_after sha r ss h)"
proof (induction ss arbitrary: h)
  case Nil
  then show ?case by simp
next
  case (Cons s ss)
  have "length h \<le> length (fst (replace_entry r (spec_hash sha s) s h))"
    by (simp add: replace_entry_address split: option.split)
  with Cons [of "fst (replace_entry r (spec_hash sha s) s h)"] show ?case by simp
qed

lemma places_step:
  "places r (length h) (s # ss) ! Suc j = places r (length (fst (replace_entry r (spec_hash sha s) s h))) ss ! j"
  by (simp add: replace_entry_address split: option.split)

lemma heap_after_bound:
  assumes "registry_inv r" "length (rg_heap r) \<le> length h" "i < length ss"
  shows "places r (length h) ss ! i < length (heap_after sha r ss h)"
  using assms(2,3)
proof (induction ss arbitrary: h i)
  case (Cons s ss)
  let ?h = "fst (replace_entry r (spec_hash sha s) s h)"
  have len: "length h \<le> length ?h" by (simp add: replace_entry_address split: option.split)
  show ?case
  proof (cases i)
    case 0
    have "snd (replace_entry r (spec_hash sha s) s h) < length ?h"
      using registry_inv_emailD(1) [OF assms(1)] Cons.prems(1)
      by (fastforce simp: replace_entry_cases split: option.split)
    moreover have "length ?h \<le> length (heap_after sha r ss ?h)" by (rule length_heap_after)
    ultimately show ?thesis using 0 by (auto simp: replace_entry_address split: option.splits)
  next
    case (Suc j)
    with Cons.IH [of ?h j] Cons.prems len show ?thesis by (simp only: Suc places_step [where sha = sha]) simp
  qed
qed simp

lemma heap_after_entry:
  assumes "registry_inv r" "distinct (map us_email ss)" "length (rg_heap r) \<le> length h" "i < length ss"
  shows "heap_after sha r ss h ! (places r (length h) ss ! i) =
      (case map_of (rg_by_email r) (us_email (ss ! i)) of
         Some b \<Rightarrow> renewed sha r b (ss ! i) (h ! b) | None \<Rightarrow> user_entry_new (ss ! i))"
  using assms(2-4)
proof (induction ss arbitrary: h i)
  case (Cons s ss)
  let ?h = "fst (replace_entry r (spec_hash sha s) s h)"
  have len: "length h \<le> length ?h" by (simp add: replace_entry_address split: option.split)
  have old: "b < length h" if "map_of (rg_by_email r) k = Some b" for k b
    using registry_inv_emailD(1) [OF assms(1) that] Cons.prems(2) by simp
  show ?case
  proof (cases i)
    case 0
    have keep: "heap_after sha r ss ?h ! a = ?h ! a" if "a < length ?h"
        "\<forall>t \<in> set ss. map_of (rg_by_email r) (us_email t) \<noteq> Some a" for a
      using heap_after_same [of a ?h ss r sha] that by blast
    show ?thesis
    proof (cases "map_of (rg_by_email r) (us_email s)")
      case None
      have "map_of (rg_by_email r) (us_email t) \<noteq> Some (length h)" for t :: user_spec using old by fastforce
      then have "heap_after sha r ss ?h ! length h = ?h ! length h"
        using None by (intro keep) (auto simp: replace_entry_cases)
      with None 0 show ?thesis by (simp add: replace_entry_cases)
    next
      case (Some b)
      have "map_of (rg_by_email r) (us_email t) \<noteq> Some b" if "t \<in> set ss" for t
        using registry_inv_email_inj [OF assms(1) Some] Cons.prems(1) that by fastforce
      then have "heap_after sha r ss ?h ! b = ?h ! b"
        using Some old [OF Some] by (intro keep) (auto simp: replace_entry_cases)
      with Some 0 old [OF Some] show ?thesis by (simp add: replace_entry_cases)
    qed
  next
    case (Suc j)
    have j: "j < length ss" using Cons.prems(3) Suc by simp
    have "?h ! b = h ! b" if "map_of (rg_by_email r) (us_email (ss ! j)) = Some b" for b
    proof -
      have "map_of (rg_by_email r) (us_email s) \<noteq> Some b"
      proof
        assume "map_of (rg_by_email r) (us_email s) = Some b"
        from registry_inv_email_inj [OF assms(1) that this] Cons.prems(1) nth_mem [OF j] show False
          by (metis distinct.simps(2) image_eqI list.set_map list.simps(9))
      qed
      with old [OF that] show ?thesis by (auto simp: replace_entry_cases nth_append split: option.split)
    qed
    with Cons.IH [of ?h j] Cons.prems len j show ?thesis
      unfolding Suc places_step [where sha = sha] by (auto split: option.split)
  qed
qed simp

lemma length_revoke_missing [simp]: "length (revoke_missing old be h) = length h"
  by (induction old be h rule: revoke_missing.induct) auto

lemma revoke_missing_nth:
  assumes "distinct (map snd old)" "\<forall>a \<in> snd ` set old. a < length h"
  shows "revoke_missing old be h ! a =
    (if \<exists>email. (email, a) \<in> set old \<and> map_of be email = None then revoke (h ! a) else h ! a)"
  using assms
proof (induction old be h rule: revoke_missing.induct)
  case (1 be h)
  then show ?case by simp
next
  case (2 email b old be h)
  let ?h = "if map_of be email = None then h[b := revoke (h ! b)] else h"
  have "revoke_missing old be ?h ! a =
      (if \<exists>email. (email, a) \<in> set old \<and> map_of be email = None then revoke (?h ! a) else ?h ! a)"
    using 2 by auto
  moreover have "a = b \<Longrightarrow> \<not> (\<exists>email. (email, a) \<in> set old)" using 2(2) by force
  ultimately show ?case using 2(3) by (auto simp: nth_list_update)
qed

lemma replace_users_eq:
  fixes sha :: sha_fun
  assumes "distinct (map us_email specs)"
  defines "acc \<equiv> accepted sha {} specs"
  shows "rg_by_email (replace_users sha specs r) = zip (map us_email acc) (places r (length (rg_heap r)) acc)"
    "rg_by_hash (replace_users sha specs r) = zip (map (spec_hash sha) acc) (places r (length (rg_heap r)) acc)"
    "rg_heap (replace_users sha specs r) =
       revoke_missing (rg_by_email r) (zip (map us_email acc) (places r (length (rg_heap r)) acc))
         (heap_after sha r acc (rg_heap r))"
  using fold_replace [OF assms(1), of "[]" sha r "rg_heap r" "[]"]
  by (simp_all add: replace_users_def acc_def)

lemma old_addresses:
  assumes "registry_inv r"
  shows "distinct (map snd (rg_by_email r))" "\<forall>a \<in> snd ` set (rg_by_email r). a < length (rg_heap r)"
  using assms by (auto simp: registry_inv_def)

lemma old_in_heap_after:
  "registry_inv r \<Longrightarrow> \<forall>a \<in> snd ` set (rg_by_email r). a < length (heap_after sha r ss (rg_heap r))"
  using old_addresses(2) [of r] length_heap_after [of "rg_heap r" sha r ss] by (meson order_less_le_trans)

lemma places_known:
  "i < length ss \<Longrightarrow> map_of (rg_by_email r) (us_email (ss ! i)) = Some b \<Longrightarrow> places r n ss ! i = b"
proof (induction ss arbitrary: n i)
  case (Cons s ss)
  then show ?case by (cases i) (auto split: option.split)
qed simp

lemma places_new:
  "i < length ss \<Longrightarrow> map_of (rg_by_email r) (us_email (ss ! i)) = None \<Longrightarrow> n \<le> places r n ss ! i"
proof (induction ss arbitrary: n i)
  case (Cons s ss)
  show ?case
  proof (cases i)
    case 0
    with Cons.prems show ?thesis by simp
  next
    case (Suc j)
    with Cons.IH [of j n] Cons.IH [of j "Suc n"] Cons.prems show ?thesis by (auto split: option.splits)
  qed
qed simp

lemma replace_users_kept:
  fixes sha :: sha_fun
  assumes "registry_inv r" "distinct (map us_email specs)"
  defines "acc \<equiv> accepted sha {} specs" and "pl \<equiv> places r (length (rg_heap r)) (accepted sha {} specs)"
  assumes "i < length acc"
  shows "map_of (rg_by_email (replace_users sha specs r)) (us_email (acc ! i)) = Some (pl ! i)"
    "map_of (rg_by_hash (replace_users sha specs r)) (spec_hash sha (acc ! i)) = Some (pl ! i)"
    "entry_at (replace_users sha specs r) (pl ! i) =
       (case map_of (rg_by_email r) (us_email (acc ! i)) of
          Some b \<Rightarrow> renewed sha r b (acc ! i) (entry_at r b) | None \<Rightarrow> user_entry_new (acc ! i))"
    "map_of (rg_by_email r) (us_email (acc ! i)) = Some b \<Longrightarrow> pl ! i = b"
    "map_of (rg_by_email r) (us_email (acc ! i)) = None \<Longrightarrow> length (rg_heap r) \<le> pl ! i"
proof -
  note eq = replace_users_eq [OF assms(2), of sha r, folded acc_def]
  have pl: "pl = places r (length (rg_heap r)) acc" "length pl = length acc" by (simp_all add: pl_def acc_def)
  have emails: "distinct (map us_email acc)" unfolding acc_def by (rule accepted_emails_distinct [OF assms(2)])
  have hashes: "distinct (map (spec_hash sha) acc)" unfolding acc_def by (rule accepted_hashes_distinct)
  show by_email: "map_of (rg_by_email (replace_users sha specs r)) (us_email (acc ! i)) = Some (pl ! i)"
    unfolding eq(1) pl(1) [symmetric] using map_of_zip_nth [of "map us_email acc" pl i] emails pl(2) assms(5) by simp
  show "map_of (rg_by_hash (replace_users sha specs r)) (spec_hash sha (acc ! i)) = Some (pl ! i)"
    unfolding eq(2) pl(1) [symmetric]
    using map_of_zip_nth [of "map (spec_hash sha) acc" pl i] hashes pl(2) assms(5) by simp
  show old: "map_of (rg_by_email r) (us_email (acc ! i)) = Some b \<Longrightarrow> pl ! i = b" for b
    using places_known [OF assms(5)] by (simp add: pl(1))
  show new: "map_of (rg_by_email r) (us_email (acc ! i)) = None \<Longrightarrow> length (rg_heap r) \<le> pl ! i"
    using places_new [OF assms(5)] by (simp add: pl(1))
  have known: "\<not> (\<exists>email. (email, pl ! i) \<in> set (rg_by_email r) \<and> map_of (zip (map us_email acc) pl) email = None)"
  proof
    assume "\<exists>email. (email, pl ! i) \<in> set (rg_by_email r) \<and> map_of (zip (map us_email acc) pl) email = None"
    then obtain email where e: "(email, pl ! i) \<in> set (rg_by_email r)" "map_of (zip (map us_email acc) pl) email = None"
      by blast
    have m: "map_of (rg_by_email r) email = Some (pl ! i)"
      using e(1) assms(1) by (simp add: registry_inv_def)
    show False
    proof (cases "map_of (rg_by_email r) (us_email (acc ! i))")
      case None
      with new registry_inv_emailD(1) [OF assms(1) m] show False by simp
    next
      case (Some b)
      with old [OF Some] registry_inv_email_inj [OF assms(1) m] have "email = us_email (acc ! i)" by simp
      with e(2) nth_mem [OF assms(5)] pl(2) show False by simp
    qed
  qed
  have "entry_at (replace_users sha specs r) (pl ! i) = heap_after sha r acc (rg_heap r) ! (pl ! i)"
    unfolding eq(3) pl(1) [symmetric] revoke_missing_nth [OF old_addresses(1) [OF assms(1)] old_in_heap_after [OF assms(1)]]
    by (rule if_not_P [OF known])
  then show "entry_at (replace_users sha specs r) (pl ! i) =
       (case map_of (rg_by_email r) (us_email (acc ! i)) of
          Some b \<Rightarrow> renewed sha r b (acc ! i) (entry_at r b) | None \<Rightarrow> user_entry_new (acc ! i))"
    using heap_after_entry [OF assms(1) emails le_refl assms(5)] by (simp add: pl(1))
qed

lemma replace_users_dropped:
  assumes "registry_inv r" "distinct (map us_email specs)"
    and "map_of (rg_by_email r) email = Some b" "email \<notin> us_email ` set (accepted sha {} specs)"
  shows "entry_at (replace_users sha specs r) b = revoke (entry_at r b)"
proof -
  let ?acc = "accepted sha {} specs"
  note eq = replace_users_eq [OF assms(2), of sha r]
  have "map_of (rg_by_email r) (us_email s) \<noteq> Some b" if "s \<in> set ?acc" for s
    using registry_inv_email_inj [OF assms(1,3)] assms(4) that by blast
  then have "heap_after sha r ?acc (rg_heap r) ! b = entry_at r b"
    using heap_after_same [of b "rg_heap r" ?acc r sha] registry_inv_emailD(1) [OF assms(1,3)] by blast
  moreover have "\<exists>email. (email, b) \<in> set (rg_by_email r) \<and>
      map_of (zip (map us_email ?acc) (places r (length (rg_heap r)) ?acc)) email = None"
    using map_of_SomeD [OF assms(3)] assms(4) by (intro exI [of _ email]) simp
  ultimately show ?thesis
    unfolding eq(3) revoke_missing_nth [OF old_addresses(1) [OF assms(1)] old_in_heap_after [OF assms(1)]]
    by (simp only: if_True)
qed

lemma replace_users_other:
  assumes "registry_inv r" "distinct (map us_email specs)"
    and "a < length (rg_heap r)" "a \<notin> snd ` set (rg_by_email r)"
  shows "entry_at (replace_users sha specs r) a = entry_at r a"
proof -
  let ?acc = "accepted sha {} specs"
  note eq = replace_users_eq [OF assms(2), of sha r]
  have "map_of (rg_by_email r) k \<noteq> Some a" for k using assms(4) map_of_SomeD by force
  then have "heap_after sha r ?acc (rg_heap r) ! a = entry_at r a"
    using heap_after_same [OF assms(3), of ?acc r sha] by blast
  moreover have "\<not> (\<exists>email. (email, a) \<in> set (rg_by_email r) \<and>
      map_of (zip (map us_email ?acc) (places r (length (rg_heap r)) ?acc)) email = None)"
    using assms(4) by force
  ultimately show ?thesis
    unfolding eq(3) revoke_missing_nth [OF old_addresses(1) [OF assms(1)] old_in_heap_after [OF assms(1)]]
    by (simp only: if_False)
qed

lemma length_replace_users:
  assumes "distinct (map us_email specs)"
  shows "length (rg_heap r) \<le> length (rg_heap (replace_users sha specs r))"
  unfolding replace_users_eq(3) [OF assms] using length_heap_after by simp

lemma entry_fields [simp]:
  "ue_email (renewed sha r b s e) = ue_email e" "ue_revoked (renewed sha r b s e) = ue_revoked e"
  "ue_up (renewed sha r b s e) = ue_up e" "ue_down (renewed sha r b s e) = ue_down e"
  "ue_connections (renewed sha r b s e) = ue_connections e"
  "ue_email (user_entry_new s) = us_email s" "\<not> ue_revoked (user_entry_new s)"
  by (simp_all add: renewed_def apply_limits_def user_entry_new_def Let_def)

lemma registry_inv_replace:
  assumes "registry_inv r" "distinct (map us_email specs)"
  shows "registry_inv (replace_users sha specs r)"
proof -
  let ?r = "replace_users sha specs r" and ?acc = "accepted sha {} specs"
  let ?pl = "places r (length (rg_heap r)) ?acc"
  note eq = replace_users_eq [OF assms(2), of sha r]
  have emails: "distinct (map us_email ?acc)" by (rule accepted_emails_distinct [OF assms(2)])
  have pl: "distinct ?pl" by (rule places_distinct [OF assms(1) emails le_refl])
  have "a < length (rg_heap ?r) \<and> ue_email (entry_at ?r a) = email \<and> \<not> ue_revoked (entry_at ?r a)"
    if mem: "(email, a) \<in> set (rg_by_email ?r)" for email a
  proof -
    obtain i where i: "i < length ?acc" "email = us_email (?acc ! i)" "a = ?pl ! i"
      using mem unfolding eq(1) by (auto simp: in_set_zip)
    have "?pl ! i < length (heap_after sha r ?acc (rg_heap r))" by (rule heap_after_bound [OF assms(1) le_refl i(1)])
    moreover note replace_users_kept(3) [OF assms i(1)]
    ultimately show ?thesis
      using registry_inv_emailD(2,3) [OF assms(1)] by (auto simp: i eq(3) split: option.split)
  qed
  moreover have "map fst (rg_by_email ?r) = map us_email ?acc" "map snd (rg_by_email ?r) = ?pl"
    "map fst (rg_by_hash ?r) = map (spec_hash sha) ?acc" "map snd (rg_by_hash ?r) = ?pl"
    unfolding eq(1,2) by simp_all
  moreover from this have "snd ` set (rg_by_hash ?r) = snd ` set (rg_by_email ?r)" by (metis list.set_map)
  ultimately show ?thesis
    using emails accepted_hashes_distinct [of sha "{}" specs] pl unfolding registry_inv_def by auto
qed

end
