(* ===== verification/Users_Props.thy ===== *)
theory Users_Props
  imports Users
begin

text \<open>
  Properties of the user registry: the states it can reach together with the connections that
  hold its users, what replacing the user set does to users and to their sessions, who is
  authenticated by which password, and how traffic counts against a quota.
\<close>

section \<open>Registry and live connections\<close>

record node =
  nd_registry :: registry
  nd_live :: "authed_user list"

text \<open>
  Steps of a node: a client authenticates, a connection ends and drops its user, traffic is
  recorded, the panel resets a quota or replaces the users. The user sets come from maps keyed by
  email (\<open>UsersPutBody\<close>), so their emails are distinct.
\<close>

inductive node_step :: "sha_fun \<Rightarrow> node \<Rightarrow> node \<Rightarrow> bool" for sha where
  authenticate: "authenticate now hash (nd_registry n) = (r, Some u) \<Longrightarrow>
    node_step sha n (n\<lparr>nd_registry := r, nd_live := nd_live n @ [u]\<rparr>)"
| close: "i < length (nd_live n) \<Longrightarrow>
    node_step sha n (n\<lparr>nd_registry := authed_drop (nd_live n ! i) (nd_registry n),
      nd_live := take i (nd_live n) @ drop (Suc i) (nd_live n)\<rparr>)"
| up: "u \<in> set (nd_live n) \<Longrightarrow> node_step sha n (n\<lparr>nd_registry := authed_record_up k u (nd_registry n)\<rparr>)"
| down: "u \<in> set (nd_live n) \<Longrightarrow> node_step sha n (n\<lparr>nd_registry := authed_record_down k u (nd_registry n)\<rparr>)"
| reset: "registry_get email (nd_registry n) = Some a \<Longrightarrow>
    node_step sha n (n\<lparr>nd_registry := upd_entry a reset_quota (nd_registry n)\<rparr>)"
| replace: "distinct (map us_email specs) \<Longrightarrow>
    node_step sha n (n\<lparr>nd_registry := replace_users sha specs (nd_registry n)\<rparr>)"

inductive node_reachable :: "sha_fun \<Rightarrow> node \<Rightarrow> node \<Rightarrow> bool" for sha n0 where
  init: "node_reachable sha n0 n0"
| step: "node_reachable sha n0 n \<Longrightarrow> node_step sha n n' \<Longrightarrow> node_reachable sha n0 n'"

definition node_new :: node where
  "node_new = \<lparr>nd_registry = registry_new, nd_live = []\<rparr>"

definition live_on :: "node \<Rightarrow> nat \<Rightarrow> nat" where
  "live_on n a = length (filter (\<lambda>u. au_entry u = a) (nd_live n))"

definition node_inv :: "node \<Rightarrow> bool" where
  "node_inv n \<longleftrightarrow>
     registry_inv (nd_registry n) \<and>
     (\<forall>u \<in> set (nd_live n). au_entry u < length (rg_heap (nd_registry n))) \<and>
     (\<forall>a < length (rg_heap (nd_registry n)).
        ue_connections (entry_at (nd_registry n) a) = word_of_nat (live_on n a))"

text \<open>An update of one entry that keeps its identity keeps the indexes sound.\<close>

lemma upd_entry_fields [simp]:
  "rg_by_email (upd_entry a g r) = rg_by_email r" "rg_by_hash (upd_entry a g r) = rg_by_hash r"
  "length (rg_heap (upd_entry a g r)) = length (rg_heap r)"
  by (simp_all add: upd_entry_def)

lemma entry_at_upd:
  "b < length (rg_heap r) \<Longrightarrow> entry_at (upd_entry a g r) b = (if a = b then g (entry_at r a) else entry_at r b)"
  by (simp add: upd_entry_def nth_list_update)

lemma registry_inv_upd:
  assumes "registry_inv r" "\<And>e. ue_email (g e) = ue_email e" "\<And>e. ue_revoked (g e) = ue_revoked e"
  shows "registry_inv (upd_entry a g r)"
proof -
  have "ue_email (entry_at (upd_entry a g r) b) = ue_email (entry_at r b)"
    "ue_revoked (entry_at (upd_entry a g r) b) = ue_revoked (entry_at r b)" if "b < length (rg_heap r)" for b
    using that assms(2,3) by (simp_all add: entry_at_upd)
  with assms(1) show ?thesis by (auto simp: registry_inv_def)
qed

lemma node_inv_upd:
  assumes "node_inv n" "\<And>e. ue_email (g e) = ue_email e" "\<And>e. ue_revoked (g e) = ue_revoked e"
    and "\<And>e. ue_connections (g e) = ue_connections e"
  shows "node_inv (n\<lparr>nd_registry := upd_entry a g (nd_registry n)\<rparr>)"
proof -
  have "registry_inv (upd_entry a g (nd_registry n))"
    using assms by (intro registry_inv_upd) (simp_all add: node_inv_def)
  moreover have "ue_connections (entry_at (upd_entry a g (nd_registry n)) b) = ue_connections (entry_at (nd_registry n) b)"
    if "b < length (rg_heap (nd_registry n))" for b
    using that assms(4) by (simp add: entry_at_upd)
  ultimately show ?thesis using assms(1) by (simp add: node_inv_def live_on_def)
qed

lemma hash_address:
  "registry_inv r \<Longrightarrow> map_of (rg_by_hash r) h = Some a \<Longrightarrow> a < length (rg_heap r)"
proof (drule map_of_SomeD)
  assume "registry_inv r" "(h, a) \<in> set (rg_by_hash r)"
  then have "a \<in> snd ` set (rg_by_email r)" by (metis (no_types) image_eqI registry_inv_def snd_conv)
  with old_addresses(2) [OF \<open>registry_inv r\<close>] show "a < length (rg_heap r)" by blast
qed

lemma authenticate_Some:
  assumes "authenticate now hash r = (r', Some u)"
  shows "length hash = PASSWORD_HASH_LEN" "map_of (rg_by_hash r) hash = Some (au_entry u)"
    "au_generation u = ue_generation (entry_at r (au_entry u))" "deny_reason_at now (entry_at r (au_entry u)) = None"
    "r' = upd_entry (au_entry u) (\<lambda>e. e\<lparr>ue_connections := ue_connections e + 1\<rparr>) r"
  using assms by (auto simp: authenticate_def authed_user_new_def split: if_splits option.splits)

lemma heap_after_fresh:
  assumes "registry_inv r" "length (rg_heap r) \<le> length h" "length h \<le> a" "a < length (heap_after sha r ss h)"
  shows "\<exists>s. heap_after sha r ss h ! a = user_entry_new s"
  using assms(2-4)
proof (induction ss arbitrary: h)
  case Nil
  then show ?case by simp
next
  case (Cons s ss)
  let ?h = "fst (replace_entry r (spec_hash sha s) s h)"
  have len: "length h \<le> length ?h" by (simp add: replace_entry_address split: option.split)
  show ?case
  proof (cases "length ?h \<le> a")
    case True
    with Cons len show ?thesis by simp
  next
    case False
    then have new: "?h = h @ [user_entry_new s]" "a = length h"
      using Cons.prems(2) by (auto simp: replace_entry_cases split: option.splits)
    have "map_of (rg_by_email r) k \<noteq> Some a" for k
      using registry_inv_emailD(1) [OF assms(1)] Cons.prems(1) new(2) by fastforce
    then have "heap_after sha r ss ?h ! a = ?h ! a"
      using heap_after_same [of a ?h ss r sha] new by simp
    then show ?thesis by (auto simp: new)
  qed
qed

lemma replace_users_fresh:
  assumes "registry_inv r" "distinct (map us_email specs)"
    and "length (rg_heap r) \<le> a" "a < length (rg_heap (replace_users sha specs r))"
  shows "\<exists>s. entry_at (replace_users sha specs r) a = user_entry_new s"
proof -
  let ?acc = "accepted sha {} specs"
  note eq = replace_users_eq [OF assms(2), of sha r]
  have "\<not> (\<exists>email. (email, a) \<in> set (rg_by_email r) \<and>
      map_of (zip (map us_email ?acc) (places r (length (rg_heap r)) ?acc)) email = None)"
    using old_addresses(2) [OF assms(1)] assms(3) by fastforce
  then have "entry_at (replace_users sha specs r) a = heap_after sha r ?acc (rg_heap r) ! a"
    unfolding eq(3) revoke_missing_nth [OF old_addresses(1) [OF assms(1)] old_in_heap_after [OF assms(1)]]
    by (rule if_not_P)
  moreover have "a < length (heap_after sha r ?acc (rg_heap r))" using assms(4) by (simp add: eq(3))
  ultimately show ?thesis using heap_after_fresh [OF assms(1) le_refl assms(3)] by simp
qed

text \<open>What \<open>replace\<close> makes of an entry that existed: renewed, revoked, or the same.\<close>

lemma replace_users_existing:
  assumes "registry_inv r" "distinct (map us_email specs)" "a < length (rg_heap r)"
  obtains (renewed) s where "s \<in> set (accepted sha {} specs)" "map_of (rg_by_email r) (us_email s) = Some a"
      "entry_at (replace_users sha specs r) a = renewed sha r a s (entry_at r a)"
  | (revoked) email where "map_of (rg_by_email r) email = Some a" "email \<notin> us_email ` set (accepted sha {} specs)"
      "entry_at (replace_users sha specs r) a = revoke (entry_at r a)"
  | (same) "a \<notin> snd ` set (rg_by_email r)" "entry_at (replace_users sha specs r) a = entry_at r a"
proof (cases "a \<in> snd ` set (rg_by_email r)")
  case False
  with same replace_users_other [OF assms] show thesis by blast
next
  case True
  then obtain email where "(email, a) \<in> set (rg_by_email r)" by auto
  then have e: "map_of (rg_by_email r) email = Some a" using assms(1) by (simp add: registry_inv_def)
  show thesis
  proof (cases "email \<in> us_email ` set (accepted sha {} specs)")
    case False
    with e revoked replace_users_dropped [OF assms(1,2)] show thesis by blast
  next
    case True
    then obtain i where i: "i < length (accepted sha {} specs)" "email = us_email (accepted sha {} specs ! i)"
      by (auto simp: in_set_conv_nth)
    have "entry_at (replace_users sha specs r) a = renewed sha r a (accepted sha {} specs ! i) (entry_at r a)"
      using replace_users_kept(3,4) [OF assms(1,2) i(1)] e i(2) by simp
    with e i renewed nth_mem [OF i(1)] show thesis by blast
  qed
qed

lemma connections_replace:
  assumes "registry_inv r" "distinct (map us_email specs)" "a < length (rg_heap (replace_users sha specs r))"
  shows "ue_connections (entry_at (replace_users sha specs r) a) =
    (if a < length (rg_heap r) then ue_connections (entry_at r a) else 0)"
proof (cases "a < length (rg_heap r)")
  case True
  from assms(1,2) True show ?thesis
    by (rule replace_users_existing [where sha = sha]) (simp_all add: revoke_def True)
next
  case False
  then obtain s where "entry_at (replace_users sha specs r) a = user_entry_new s"
    using replace_users_fresh [OF assms(1,2) _ assms(3)] by auto
  with False show ?thesis by (simp add: user_entry_new_def)
qed

lemma node_invI:
  assumes "registry_inv r" "list_all (\<lambda>u. au_entry u < length (rg_heap r)) live"
    and "\<And>a. a < length (rg_heap r) \<Longrightarrow>
      ue_connections (entry_at r a) = word_of_nat (length (filter (\<lambda>u. au_entry u = a) live))"
  shows "node_inv (n\<lparr>nd_registry := r, nd_live := live\<rparr>)"
  using assms by (simp add: node_inv_def live_on_def list_all_iff)

lemma node_invD:
  assumes "node_inv n"
  shows "registry_inv (nd_registry n)" "list_all (\<lambda>u. au_entry u < length (rg_heap (nd_registry n))) (nd_live n)"
    "\<And>a. a < length (rg_heap (nd_registry n)) \<Longrightarrow> ue_connections (entry_at (nd_registry n) a) =
      word_of_nat (length (filter (\<lambda>u. au_entry u = a) (nd_live n)))"
  using assms by (simp_all add: node_inv_def live_on_def list_all_iff)

lemma node_inv_authenticate:
  assumes "node_inv n" "authenticate now hash (nd_registry n) = (r, Some u)"
  shows "node_inv (n\<lparr>nd_registry := r, nd_live := nd_live n @ [u]\<rparr>)"
proof (rule node_invI)
  note inv = node_invD [OF assms(1)] and a = authenticate_Some [OF assms(2)]
  have u: "au_entry u < length (rg_heap (nd_registry n))" by (rule hash_address [OF inv(1) a(2)])
  show "registry_inv r" unfolding a(5) by (rule registry_inv_upd [OF inv(1)]) simp_all
  show "list_all (\<lambda>u. au_entry u < length (rg_heap r)) (nd_live n @ [u])" unfolding a(5) using inv(2) u by simp
  show "ue_connections (entry_at r b) = word_of_nat (length (filter (\<lambda>u. au_entry u = b) (nd_live n @ [u])))"
    if "b < length (rg_heap r)" for b
    using that inv(3) [of b] unfolding a(5) by (simp add: entry_at_upd)
qed

lemma node_inv_close:
  assumes "node_inv n" "i < length (nd_live n)"
  shows "node_inv (n\<lparr>nd_registry := authed_drop (nd_live n ! i) (nd_registry n),
      nd_live := take i (nd_live n) @ drop (Suc i) (nd_live n)\<rparr>)"
proof (rule node_invI)
  note inv = node_invD [OF assms(1)]
  have live: "nd_live n = take i (nd_live n) @ nd_live n ! i # drop (Suc i) (nd_live n)"
    by (rule id_take_nth_drop [OF assms(2)])
  show "registry_inv (authed_drop (nd_live n ! i) (nd_registry n))"
    unfolding authed_drop_def by (rule registry_inv_upd [OF inv(1)]) simp_all
  show "list_all (\<lambda>u. au_entry u < length (rg_heap (authed_drop (nd_live n ! i) (nd_registry n))))
      (take i (nd_live n) @ drop (Suc i) (nd_live n))"
    using inv(2) by (auto simp: list_all_iff authed_drop_def dest: in_set_takeD in_set_dropD)
  show "ue_connections (entry_at (authed_drop (nd_live n ! i) (nd_registry n)) b) =
      word_of_nat (length (filter (\<lambda>u. au_entry u = b) (take i (nd_live n) @ drop (Suc i) (nd_live n))))"
    if "b < length (rg_heap (authed_drop (nd_live n ! i) (nd_registry n)))" for b
  proof -
    have "length (filter (\<lambda>u. au_entry u = b) (nd_live n)) =
        length (filter (\<lambda>u. au_entry u = b) (take i (nd_live n) @ drop (Suc i) (nd_live n))) +
        (if au_entry (nd_live n ! i) = b then 1 else 0)"
      by (subst live) simp
    with that inv(3) [of b] show ?thesis by (simp add: authed_drop_def entry_at_upd)
  qed
qed

lemma node_inv_replace:
  assumes "node_inv n" "distinct (map us_email specs)"
  shows "node_inv (n\<lparr>nd_registry := replace_users sha specs (nd_registry n)\<rparr>)"
proof -
  let ?r = "replace_users sha specs (nd_registry n)"
  note inv = node_invD [OF assms(1)]
  have len: "length (rg_heap (nd_registry n)) \<le> length (rg_heap ?r)" by (rule length_replace_users [OF assms(2)])
  have "node_inv (n\<lparr>nd_registry := ?r, nd_live := nd_live n\<rparr>)"
  proof (rule node_invI)
    show "registry_inv ?r" by (rule registry_inv_replace [OF inv(1) assms(2)])
    show "list_all (\<lambda>u. au_entry u < length (rg_heap ?r)) (nd_live n)"
      using inv(2) len by (auto simp: list_all_iff)
    show "ue_connections (entry_at ?r b) = word_of_nat (length (filter (\<lambda>u. au_entry u = b) (nd_live n)))"
      if "b < length (rg_heap ?r)" for b
    proof (cases "b < length (rg_heap (nd_registry n))")
      case True
      with connections_replace [OF inv(1) assms(2) that] inv(3) [of b] show ?thesis by simp
    next
      case False
      then have "filter (\<lambda>u. au_entry u = b) (nd_live n) = []"
        using inv(2) by (auto simp: list_all_iff filter_empty_conv)
      with connections_replace [OF inv(1) assms(2) that] False show ?thesis by simp
    qed
  qed
  then show ?thesis by simp
qed

lemma node_inv_step: "node_step sha n n' \<Longrightarrow> node_inv n \<Longrightarrow> node_inv n'"
proof (induction rule: node_step.induct)
  case (authenticate now hash n r u)
  then show ?case by (intro node_inv_authenticate)
next
  case (close i n)
  then show ?case by (intro node_inv_close)
next
  case (up u n k)
  then show ?case unfolding authed_record_up_def by (intro node_inv_upd) (simp_all add: entry_record_up_def)
next
  case (down u n k)
  then show ?case unfolding authed_record_down_def by (intro node_inv_upd) (simp_all add: entry_record_down_def)
next
  case (reset email n a)
  then show ?case by (intro node_inv_upd) (simp_all add: reset_quota_def)
next
  case (replace specs n)
  then show ?case by (intro node_inv_replace)
qed

lemma node_inv_reachable: "node_reachable sha n0 n \<Longrightarrow> node_inv n0 \<Longrightarrow> node_inv n"
  by (induction rule: node_reachable.induct) (auto intro: node_inv_step)

section \<open>Sessions that were retired\<close>

text \<open>
  A connection is retired when its user was revoked or given another password. Generations only
  grow, so this is for good unless 2^64 changes of the password follow.
\<close>

definition retired :: "authed_user \<Rightarrow> registry \<Rightarrow> bool" where
  "retired u r \<longleftrightarrow> ue_revoked (entry_at r (au_entry u)) \<or> au_generation u < ue_generation (entry_at r (au_entry u))"

lemma retired_denied: "retired u r \<Longrightarrow> authed_deny_reason now u r = Some Revoked"
  by (auto simp: retired_def authed_deny_reason_def deny_reason_at_def)

lemma generation_replace:
  assumes "registry_inv r" "distinct (map us_email specs)" "a < length (rg_heap r)"
  shows "ue_generation (entry_at (replace_users sha specs r) a) = ue_generation (entry_at r a) \<or>
    ue_generation (entry_at (replace_users sha specs r) a) = ue_generation (entry_at r a) + 1"
    "ue_revoked (entry_at r a) \<Longrightarrow> ue_revoked (entry_at (replace_users sha specs r) a)"
  using assms
  by - (erule replace_users_existing [where sha = sha], assumption+,
      auto simp: renewed_def apply_limits_def revoke_def Let_def)+

lemma retired_replaces:
  assumes "registry_inv r" "list_all (\<lambda>specs. distinct (map us_email specs)) specss"
    and "au_entry u < length (rg_heap r)" "retired u r"
    and "unat (ue_generation (entry_at r (au_entry u))) + length specss < 2 ^ 64"
  shows "retired u (fold (replace_users sha) specss r)"
  using assms
proof (induction specss arbitrary: r)
  case Nil
  then show ?case by simp
next
  case (Cons specs specss)
  let ?r = "replace_users sha specs r" and ?a = "au_entry u"
  have d: "distinct (map us_email specs)" using Cons.prems(2) by simp
  have g: "unat (ue_generation (entry_at ?r ?a)) = unat (ue_generation (entry_at r ?a)) \<or>
      unat (ue_generation (entry_at ?r ?a)) = unat (ue_generation (entry_at r ?a)) + 1"
    using generation_replace(1) [OF Cons.prems(1) d Cons.prems(3), of sha] Cons.prems(5)
    by (auto simp: unat_word_ariths)
  then have "retired u ?r"
    using Cons.prems(4) generation_replace(2) [OF Cons.prems(1) d Cons.prems(3), of sha]
    by (auto simp: retired_def word_less_nat_alt)
  moreover have "?a < length (rg_heap ?r)" using Cons.prems(3) length_replace_users [OF d, of r sha] by simp
  ultimately show ?case
    using Cons.IH [of ?r] registry_inv_replace [OF Cons.prems(1) d] Cons.prems(2,5) g by auto
qed

section \<open>Quota windows\<close>

datatype traffic = Up u64 | Down u64

fun record_traffic :: "traffic list \<Rightarrow> user_entry \<Rightarrow> user_entry" where
  "record_traffic [] e = e"
| "record_traffic (Up n # ts) e = record_traffic ts (entry_record_up n e)"
| "record_traffic (Down n # ts) e = record_traffic ts (entry_record_down n e)"

fun traffic_sum :: "traffic list \<Rightarrow> nat" where
  "traffic_sum [] = 0"
| "traffic_sum (Up n # ts) = unat n + traffic_sum ts"
| "traffic_sum (Down n # ts) = unat n + traffic_sum ts"

lemma record_traffic_total:
  assumes "unat (ue_up e) + unat (ue_down e) + traffic_sum ts < 2 ^ 64"
  shows "unat (ue_up (record_traffic ts e)) + unat (ue_down (record_traffic ts e)) =
      unat (ue_up e) + unat (ue_down e) + traffic_sum ts \<and>
    ue_quota_base (record_traffic ts e) = ue_quota_base e \<and> ue_quota_bytes (record_traffic ts e) = ue_quota_bytes e \<and>
    ue_revoked (record_traffic ts e) = ue_revoked e \<and> ue_expires_unix (record_traffic ts e) = ue_expires_unix e"
  using assms
proof (induction ts e rule: record_traffic.induct)
  case (1 e)
  then show ?case by simp
next
  case (2 n ts e)
  have "unat (ue_up e + n) = unat (ue_up e) + unat n" using 2(2) by (simp add: unat_word_ariths)
  with 2 show ?case by (simp add: entry_record_up_def)
next
  case (3 n ts e)
  have "unat (ue_down e + n) = unat (ue_down e) + unat n" using 3(2) by (simp add: unat_word_ariths)
  with 3 show ?case by (simp add: entry_record_down_def)
qed

section \<open>A new registry\<close>

lemma registry_inv_new: "registry_inv registry_new"
  by (simp add: registry_inv_def registry_new_def)

lemma accepted_all:
  assumes "distinct (map (spec_hash sha) ss)" "list_all (\<lambda>s. us_email s \<noteq> [] \<and> us_password s \<noteq> []) ss"
    and "spec_hash sha ` set ss \<inter> seen = {}"
  shows "accepted sha seen ss = ss"
  using assms by (induction ss arbitrary: seen) (auto simp: Let_def)

section \<open>Properties\<close>

text \<open>Two users, a stand-in for the hash function that pads to 32 bytes, and their node.\<close>

definition sample_sha :: sha_fun where
  "sample_sha bs = take 32 (bs @ replicate 32 0)"

definition sample_spec :: "string \<Rightarrow> string \<Rightarrow> user_spec" where
  "sample_spec email password =
     \<lparr>us_email = email, us_password = password, us_quota_bytes = 100, us_expires_unix = 0\<rparr>"

definition sample_users :: "user_spec list" where
  "sample_users = [sample_spec ''a@x'' ''pw-a'', sample_spec ''b@x'' ''pw-b'']"

lemma sample_hashes:
  "spec_hash sample_sha (sample_spec email ''pw-a'') \<noteq> spec_hash sample_sha (sample_spec email' ''pw-b'')"
  "spec_hash sample_sha (sample_spec email ''pw-a'') \<noteq> spec_hash sample_sha (sample_spec email' ''pw-c'')"
  "spec_hash sample_sha (sample_spec email ''pw-b'') \<noteq> spec_hash sample_sha (sample_spec email' ''pw-c'')"
  unfolding hash_password_def sample_spec_def user_spec.simps by code_simp+

lemma sample_users_accepted: "accepted sample_sha {} sample_users = sample_users"
  using sample_hashes(1) by (intro accepted_all) (auto simp: sample_users_def sample_spec_def)

lemma sample_users_distinct: "distinct (map us_email sample_users)"
  by (simp add: sample_users_def sample_spec_def)

lemma sample_registry_inv: "registry_inv (with_users sample_sha sample_users)"
  unfolding with_users_def by (rule registry_inv_replace [OF registry_inv_new sample_users_distinct])

text \<open>
  C19. Invariant of the registry. Whatever connections come and go and however the panel changes
  the users: a reported user is not revoked and has its own email, two users never share an entry
  or a password hash, every password hash leads to a user that is reported to the panel, and the
  connection count of every entry, in the index or not, is the number of connections that hold it.
\<close>

theorem registry_invariant:
  assumes "node_reachable sha node_new n"
  shows "distinct (map fst (rg_by_email (nd_registry n))) \<and> distinct (map snd (rg_by_email (nd_registry n))) \<and>
    distinct (map fst (rg_by_hash (nd_registry n))) \<and>
    snd ` set (rg_by_hash (nd_registry n)) = snd ` set (rg_by_email (nd_registry n)) \<and>
    list_all (\<lambda>(email, a). a < length (rg_heap (nd_registry n)) \<and> ue_email (entry_at (nd_registry n) a) = email \<and>
      \<not> ue_revoked (entry_at (nd_registry n) a)) (rg_by_email (nd_registry n)) \<and>
    list_all (\<lambda>a. ue_connections (entry_at (nd_registry n) a) = word_of_nat (live_on n a))
      [0..<length (rg_heap (nd_registry n))]"
proof -
  have "node_inv node_new" by (simp add: node_inv_def node_new_def registry_new_def registry_inv_def)
  then have "node_inv n" by (rule node_inv_reachable [OF assms])
  then show ?thesis by (simp add: node_inv_def registry_inv_def list_all_iff)
qed

theorem registry_invariant_witness:
  "distinct (map snd (rg_by_email (with_users sample_sha sample_users)))"
  using registry_invariant [OF node_reachable.step [OF node_reachable.init
        node_step.replace [OF sample_users_distinct, of sample_sha node_new]]]
  by (simp add: with_users_def node_new_def)




lemma sample_revoked:
  "length (rg_heap (with_users sample_sha [sample_spec ''a@x'' ''pw-a''])) = 1"
  "ue_revoked (entry_at (replace_users sample_sha [] (with_users sample_sha [sample_spec ''a@x'' ''pw-a''])) 0)"
  "ue_generation (entry_at (replace_users sample_sha [] (with_users sample_sha [sample_spec ''a@x'' ''pw-a''])) 0) = 0"
  "length (rg_heap (replace_users sample_sha [] (with_users sample_sha [sample_spec ''a@x'' ''pw-a'']))) = 1"
  by (simp_all add: with_users_def replace_users_def replace_one_def replace_entry_def registry_new_def
      sample_spec_def revoke_def user_entry_new_def Let_def)


text \<open>
  Passwords identify users. In a node started with users of distinct emails, whose non-empty
  passwords have distinct hashes of 32 bytes, the hash of a user's password authenticates exactly
  that user, as long as it is neither expired nor without quota from the start; a hash that
  belongs to no user authenticates nobody.
\<close>

theorem authenticate_users:
  assumes "distinct (map us_email specs)" "distinct (map (spec_hash sha) specs)"
    and "list_all (\<lambda>s. us_email s \<noteq> [] \<and> us_password s \<noteq> [] \<and> length (spec_hash sha s) = PASSWORD_HASH_LEN) specs"
    and "s \<in> set specs" "hash \<notin> spec_hash sha ` set specs"
  shows "(\<not> (0 < us_expires_unix s \<and> us_expires_unix s \<le> now) \<longrightarrow>
      (\<exists>r' u. authenticate now (spec_hash sha s) (with_users sha specs) = (r', Some u) \<and>
         ue_email (entry_at r' (au_entry u)) = us_email s \<and> authed_deny_reason now u r' = None)) \<and>
    authenticate now hash (with_users sha specs) = (with_users sha specs, None)"
proof -
  let ?r = "with_users sha specs"
  have acc: "accepted sha {} specs = specs" using assms(2,3) by (intro accepted_all) (auto simp: list_all_iff)
  note eq = replace_users_eq [OF assms(1), of sha registry_new, unfolded acc, folded with_users_def]
  obtain i where i: "i < length (accepted sha {} specs)" "s = accepted sha {} specs ! i"
    using assms(4) by (auto simp: acc in_set_conv_nth)
  note k = replace_users_kept [OF registry_inv_new assms(1) i(1), folded i(2) with_users_def]
  define a where "a = places registry_new (length (rg_heap registry_new)) (accepted sha {} specs) ! i"
  have a: "map_of (rg_by_hash ?r) (spec_hash sha s) = Some a" "entry_at ?r a = user_entry_new s"
    using k(2,3) by (simp_all add: a_def registry_new_def)
  have "a < length (rg_heap ?r)"
    by (rule hash_address [OF _ a(1)]) (simp add: with_users_def registry_inv_replace [OF registry_inv_new assms(1)])
  then have "\<exists>r' u. authenticate now (spec_hash sha s) ?r = (r', Some u) \<and>
      ue_email (entry_at r' (au_entry u)) = us_email s \<and> authed_deny_reason now u r' = None"
    if "\<not> (0 < us_expires_unix s \<and> us_expires_unix s \<le> now)"
    using a that assms(3,4)
    by (auto simp: authenticate_def list_all_iff deny_reason_at_def user_entry_new_def quota_used_def
        saturating_sub_def saturating_add_def authed_user_new_def entry_at_upd authed_deny_reason_def)
  moreover have "map_of (rg_by_hash ?r) hash = None" unfolding eq(2) using assms(5) by simp
  ultimately show ?thesis by (simp add: authenticate_def)
qed

theorem authenticate_users_witness:
  "\<exists>r' u. authenticate 7 (spec_hash sample_sha (sample_spec ''b@x'' ''pw-b'')) (with_users sample_sha sample_users) =
     (r', Some u) \<and> ue_email (entry_at r' (au_entry u)) = ''b@x''"
proof -
  have d: "distinct (map (spec_hash sample_sha) sample_users)" using sample_hashes(1) by (simp add: sample_users_def)
  have l: "list_all (\<lambda>s. us_email s \<noteq> [] \<and> us_password s \<noteq> [] \<and>
      length (spec_hash sample_sha s) = PASSWORD_HASH_LEN) sample_users"
    by (simp add: sample_users_def sample_spec_def hash_password_def sample_sha_def PASSWORD_HASH_LEN_def)
  have m: "sample_spec ''b@x'' ''pw-b'' \<in> set sample_users" by (simp add: sample_users_def)
  have n: "spec_hash sample_sha (sample_spec ''c@x'' ''pw-c'') \<notin> spec_hash sample_sha ` set sample_users"
    using sample_hashes(2,3) [THEN not_sym] by (auto simp: sample_users_def)
  from authenticate_users [OF sample_users_distinct d l m n, of 7] show ?thesis by (auto simp: sample_spec_def)
qed

text \<open>
  Quota windows. After a quota reset, and any traffic that does not overflow the counters, a
  user that is neither revoked nor expired is denied exactly when the traffic since the reset has
  reached its quota, if it has one; and the reported totals have grown by exactly that traffic.
\<close>

theorem quota_window:
  assumes "unat (ue_up e) + unat (ue_down e) + traffic_sum ts < 2 ^ 64"
    and "\<not> ue_revoked e" "\<not> (0 < ue_expires_unix e \<and> ue_expires_unix e \<le> now)"
  shows "let e' = record_traffic ts (reset_quota e) in
    deny_reason_at now e' =
      (if 0 < ue_quota_bytes e \<and> unat (ue_quota_bytes e) \<le> traffic_sum ts then Some QuotaExceeded else None) \<and>
    unat (ue_up e') + unat (ue_down e') = unat (ue_up e) + unat (ue_down e) + traffic_sum ts"
proof -
  let ?e = "record_traffic ts (reset_quota e)"
  have f: "unat (ue_up ?e) + unat (ue_down ?e) = unat (ue_up e) + unat (ue_down e) + traffic_sum ts"
    "ue_quota_base ?e = saturating_add (ue_up e) (ue_down e)" "ue_quota_bytes ?e = ue_quota_bytes e"
    "ue_revoked ?e = ue_revoked e" "ue_expires_unix ?e = ue_expires_unix e"
    using record_traffic_total [of "reset_quota e" ts] assms(1) by (simp_all add: reset_quota_def)
  have "unat (quota_used ?e) = traffic_sum ts"
    using f(1,2) assms(1) by (simp add: quota_used_def unat_saturating_sub unat_saturating_add)
  with f assms(2,3) show ?thesis by (auto simp: deny_reason_at_def word_le_nat_alt Let_def)
qed

theorem quota_window_witness:
  "deny_reason_at 7 (record_traffic [Up 60, Down 40] (reset_quota (user_entry_new (sample_spec ''a@x'' ''pw-a'')))) =
     Some QuotaExceeded"
  using quota_window [of "user_entry_new (sample_spec ''a@x'' ''pw-a'')" "[Up 60, Down 40]" 7]
  by (simp add: user_entry_new_def sample_spec_def Let_def)

end
