(* ===== verification/Node_Api.thy ===== *)
theory Node_Api
  imports Users_Props Rust_Text "HOL-Library.Char_ord" "HOL-Library.List_Lexorder"
begin

text \<open>
  \<open>src/src/node_api/api.rs\<close> and \<open>src/src/node_api/mod.rs\<close>: the management interface of a node.
  A request is what the handler reads of it: method, path, the authorization header, the upper
  bound of the body's size, and the outcome of collecting the body. An answer is a status and a
  body that is not yet serialised. Of the crates used, the text of a header, percent-decoding and
  the JSON parser are arguments. A \<open>HashMap\<close> is a list of its entries in iteration order.
\<close>

section \<open>Requests and answers\<close>

datatype http_method = GET | PUT | POST | OtherMethod string

record request =
  rq_method :: http_method
  rq_path :: string
  rq_authorization :: "byte list option"
  rq_size_upper :: "u64 option"
  rq_body :: "string + byte list"

record stats_user =
  su_connections :: u64
  su_bytes_in :: u64
  su_bytes_out :: u64
  su_quota_used :: u64
  su_quota_bytes :: u64
  su_expires_unix :: int

type_synonym stats_response = "(string \<times> stats_user) list"

datatype body =
    ErrorBody string
  | HealthBody
  | StatsBody stats_response
  | UsersBody nat
  | EmailBody string

type_synonym response = "nat \<times> body"

definition error_response :: "nat \<Rightarrow> string \<Rightarrow> response" where
  "error_response status msg = (status, ErrorBody msg)"

record users_put_entry =
  up_password :: string
  up_quota_bytes :: u64
  up_expires_unix :: int

type_synonym users_put_body = "(string \<times> users_put_entry) list"

definition spec_of_entry :: "string \<times> users_put_entry \<Rightarrow> user_spec" where
  "spec_of_entry p =
     \<lparr>us_email = fst p, us_password = up_password (snd p), us_quota_bytes = up_quota_bytes (snd p),
      us_expires_unix = up_expires_unix (snd p)\<rparr>"

text \<open>Strings are ordered by their bytes.\<close>

definition into_specs :: "users_put_body \<Rightarrow> user_spec list" where
  "into_specs users = sort_key us_email (map spec_of_entry users)"

definition stats_of_entry :: "user_entry \<Rightarrow> stats_user" where
  "stats_of_entry e =
     \<lparr>su_connections = ue_connections e, su_bytes_in = ue_up e, su_bytes_out = ue_down e,
      su_quota_used = quota_used e, su_quota_bytes = ue_quota_bytes e,
      su_expires_unix = ue_expires_unix e\<rparr>"

definition collect_stats :: "registry \<Rightarrow> stats_response" where
  "collect_stats r =
     fold (\<lambda>a m. AList.update (ue_email (entry_at r a)) (stats_of_entry (entry_at r a)) m)
       (registry_entries r) []"

definition MAX_BODY_BYTES :: u64 where "MAX_BODY_BYTES = 8 * 1024 * 1024"

section \<open>Authorization\<close>

text \<open>The comparison looks at every byte: the differences are collected by \<open>|\<close>.\<close>

definition difference :: "byte \<times> byte \<Rightarrow> byte \<Rightarrow> byte" where
  "difference p acc = or acc (xor (fst p) (snd p))"

definition same_bytes :: "byte list \<Rightarrow> byte list \<Rightarrow> bool" where
  "same_bytes a b =
     (if length a \<noteq> length b then False
      else fold difference (zip a b) 0 = 0)"

definition authorized :: "(byte list \<Rightarrow> string option) \<Rightarrow> request \<Rightarrow> string option \<Rightarrow> bool" where
  "authorized to_str req token =
     (case token of
        None \<Rightarrow> True
      | Some t \<Rightarrow>
          (case rq_authorization req of
             None \<Rightarrow> False
           | Some header \<Rightarrow>
               (case to_str header of
                  None \<Rightarrow> False
                | Some value \<Rightarrow>
                    (let presented =
                           (case strip_prefix ''Bearer '' value of Some p \<Rightarrow> p | None \<Rightarrow> value)
                     in same_bytes (as_bytes presented) (as_bytes t)))))"

section \<open>Routing\<close>

definition reset_quota_target :: "(string \<Rightarrow> byte list) \<Rightarrow> string \<Rightarrow> string option" where
  "reset_quota_target percent_decode path =
     (case strip_prefix ''/users/'' path of
        None \<Rightarrow> None
      | Some p \<Rightarrow>
          (case strip_suffix ''/reset-quota'' p of
             None \<Rightarrow> None
           | Some rest \<Rightarrow>
               if rest = [] \<or> CHR ''/'' \<in> set rest then None
               else from_utf8 (percent_decode rest)))"

definition put_users ::
    "sha_fun \<Rightarrow> (byte list \<Rightarrow> string + users_put_body) \<Rightarrow> request \<Rightarrow> registry \<Rightarrow> registry \<times> response" where
  "put_users sha from_slice req r =
     (let upper = (case rq_size_upper req of Some n \<Rightarrow> n | None \<Rightarrow> - 1) in
      if MAX_BODY_BYTES < upper then (r, error_response 413 ''request body too large'')
      else
        (case rq_body req of
           Inl e \<Rightarrow> (r, error_response 400 (''cannot read body: '' @ e))
         | Inr bytes \<Rightarrow>
             (case from_slice bytes of
                Inl e \<Rightarrow> (r, error_response 400 (''invalid JSON: '' @ e))
              | Inr users \<Rightarrow>
                  (let r' = replace_users sha (into_specs users) r in (r', (200, UsersBody (registry_len r')))))))"

definition post_reset :: "string \<Rightarrow> registry \<Rightarrow> registry \<times> response" where
  "post_reset email r =
     (case registry_get email r of
        Some a \<Rightarrow> (upd_entry a reset_quota r, (200, EmailBody email))
      | None \<Rightarrow> (r, error_response 404 ''unknown user''))"

definition route ::
    "sha_fun \<Rightarrow> (byte list \<Rightarrow> string option) \<Rightarrow> (string \<Rightarrow> byte list) \<Rightarrow>
     (byte list \<Rightarrow> string + users_put_body) \<Rightarrow> string option \<Rightarrow> request \<Rightarrow> registry \<Rightarrow>
     registry \<times> response" where
  "route sha to_str percent_decode from_slice token req r =
     (if \<not> authorized to_str req token
      then (r, error_response 401 ''invalid or missing bearer token'')
      else if rq_method req = GET \<and> rq_path req = ''/healthz'' then (r, (200, HealthBody))
      else if rq_method req = GET \<and> rq_path req = ''/stats'' then (r, (200, StatsBody (collect_stats r)))
      else if rq_method req = PUT \<and> rq_path req = ''/users'' then put_users sha from_slice req r
      else if rq_method req = POST \<and> reset_quota_target percent_decode (rq_path req) \<noteq> None
      then
        (let email = (case reset_quota_target percent_decode (rq_path req) of Some e \<Rightarrow> e | None \<Rightarrow> [])
         in post_reset email r)
      else (r, error_response 404 ''no such endpoint''))"

text \<open>The users of a node at its start, from the contents of its file.\<close>

definition load_users_file ::
    "(byte list \<Rightarrow> string + users_put_body) \<Rightarrow> string \<Rightarrow> byte list io_result \<Rightarrow> user_spec list io_result" where
  "load_users_file from_slice path content =
     res_bind content (\<lambda>bytes.
       case from_slice bytes of
         Inl e \<Rightarrow> Inl (error_other (path @ '': '' @ e))
       | Inr users \<Rightarrow> Inr (into_specs users))"

section \<open>Lemmas\<close>

lemma or_eq_0: "or a b = (0 :: byte) \<longleftrightarrow> a = 0 \<and> b = 0"
  by (auto simp: bit_eq_iff bit_simps)

lemma xor_eq_0: "xor a b = (0 :: byte) \<longleftrightarrow> a = b"
  by (auto simp: bit_eq_iff bit_simps)

lemma fold_difference: "fold difference ps c = 0 \<longleftrightarrow> c = 0 \<and> (\<forall>p\<in>set ps. fst p = snd p)"
proof (induction ps arbitrary: c)
  case (Cons p ps)
  have "difference p c = 0 \<longleftrightarrow> c = 0 \<and> fst p = snd p" unfolding difference_def or_eq_0 xor_eq_0 ..
  with Cons show ?case by simp
qed simp

lemma same_bytes_eq: "same_bytes a b \<longleftrightarrow> a = b"
proof (cases "length a = length b")
  case True
  then have "(\<forall>p\<in>set (zip a b). fst p = snd p) \<longleftrightarrow> a = b"
    by (induction a b rule: list_induct2) auto
  with True show ?thesis by (simp add: same_bytes_def fold_difference)
qed (auto simp: same_bytes_def)

lemma distinct_into_specs:
  assumes "distinct (map fst users)"
  shows "distinct (map us_email (into_specs users))"
proof -
  have "mset (map us_email (into_specs users)) = mset (map us_email (map spec_of_entry users))"
    unfolding into_specs_def by (simp only: mset_map mset_sort)
  moreover have "map us_email (map spec_of_entry users) = map fst users" by (simp add: spec_of_entry_def)
  ultimately show ?thesis using assms mset_eq_imp_distinct_iff by metis
qed

lemma sorted_into_specs: "sorted (map us_email (into_specs users))"
  by (simp add: into_specs_def)

lemma mset_into_specs: "mset (into_specs users) = mset (map spec_of_entry users)"
  by (simp add: into_specs_def)

text \<open>What the statistics report of a user.\<close>

lemma collect_stats_fold:
  assumes "distinct (map (\<lambda>a. ue_email (entry_at r a)) as)"
    and "\<forall>a\<in>set as. ue_email (entry_at r a) \<notin> set (map fst m)"
  shows "map_of (fold (\<lambda>a m. AList.update (ue_email (entry_at r a)) (stats_of_entry (entry_at r a)) m) as m) e =
    (case find (\<lambda>a. ue_email (entry_at r a) = e) as of
       Some a \<Rightarrow> Some (stats_of_entry (entry_at r a)) | None \<Rightarrow> map_of m e)"
  using assms
proof (induction as arbitrary: m)
  case (Cons a as)
  let ?m = "AList.update (ue_email (entry_at r a)) (stats_of_entry (entry_at r a)) m"
  have "\<forall>b\<in>set as. ue_email (entry_at r b) \<notin> set (map fst ?m)"
    using Cons.prems by (auto simp: dom_update) (metis image_eqI)+
  then have IH: "map_of (fold (\<lambda>a m. AList.update (ue_email (entry_at r a)) (stats_of_entry (entry_at r a)) m) as ?m) e =
      (case find (\<lambda>a. ue_email (entry_at r a) = e) as of
         Some a \<Rightarrow> Some (stats_of_entry (entry_at r a)) | None \<Rightarrow> map_of ?m e)"
    using Cons.prems(1) by (intro Cons.IH) auto
  show ?case
  proof (cases "ue_email (entry_at r a) = e")
    case True
    then have "find (\<lambda>b. ue_email (entry_at r b) = e) as = None"
      using Cons.prems(1) by (auto simp: find_None_iff) (metis image_eqI)
    then show ?thesis using IH True by (simp add: update_conv')
  next
    case False
    then show ?thesis using IH by (simp add: update_conv' split: option.split)
  qed
qed simp

lemma collect_stats_lookup:
  assumes "registry_inv r"
  shows "map_of (collect_stats r) e = map_option (\<lambda>a. stats_of_entry (entry_at r a)) (registry_get e r)"
proof -
  have emails: "\<forall>p\<in>set (rg_by_email r). ue_email (entry_at r (snd p)) = fst p"
    using assms by (auto simp: registry_inv_def)
  have keys: "map (\<lambda>a. ue_email (entry_at r a)) (map snd (rg_by_email r)) = map fst (rg_by_email r)"
    using emails by simp
  have "find (\<lambda>a. ue_email (entry_at r a) = e) (map snd ps) = map_of ps e"
    if "\<forall>p\<in>set ps. ue_email (entry_at r (snd p)) = fst p" for ps
    using that by (induction ps) auto
  from this [OF emails] have found: "find (\<lambda>a. ue_email (entry_at r a) = e) (map snd (rg_by_email r)) =
      map_of (rg_by_email r) e" .
  show ?thesis
    using assms collect_stats_fold [of r "map snd (rg_by_email r)" "[]" e] keys
    by (simp add: collect_stats_def registry_entries_def registry_get_def found registry_inv_def del: map_map
        split: option.split)
qed

lemma quota_used_reset [simp]: "quota_used (reset_quota e) = 0"
  by (simp add: quota_used_def reset_quota_def saturating_sub_def)

lemma registry_inv_put:
  assumes "registry_inv r" "distinct (map fst users)"
  shows "registry_inv (replace_users sha (into_specs users) r)"
  using registry_inv_replace [OF assms(1) distinct_into_specs [OF assms(2)]] .

lemma registry_inv_reset: "registry_inv r \<Longrightarrow> registry_inv (upd_entry a reset_quota r)"
  by (rule registry_inv_upd) (simp_all add: reset_quota_def)

section \<open>Properties\<close>

text \<open>
  The order of a \<open>HashMap\<close> does not matter. Two bodies with the same users, in whatever order
  their maps are iterated, give the same list of specifications, which is sorted by email and holds
  exactly the users of the body; so every node resolves a collision of passwords alike.
\<close>

theorem into_specs_order:
  assumes "distinct (map fst users)" "mset users' = mset users"
  shows "into_specs users' = into_specs users \<and> sorted (map us_email (into_specs users)) \<and>
    mset (into_specs users) = mset (map spec_of_entry users)"
proof -
  have "inj_on us_email (set (map spec_of_entry users))"
    using assms(1) by (auto simp: inj_on_def spec_of_entry_def distinct_map)
  moreover have "mset (map spec_of_entry users) = mset (into_specs users')"
    unfolding mset_into_specs by (simp only: mset_map assms(2))
  ultimately have "sort_key us_email (map spec_of_entry users) = into_specs users'"
    using sorted_into_specs [of users'] sort_key_inj_key_eq by metis
  then have "into_specs users = into_specs users'" by (simp only: into_specs_def)
  then show ?thesis using sorted_into_specs [of users] mset_into_specs [of users] by simp
qed

definition sample_body :: users_put_body where
  "sample_body =
     [(''b@x'', \<lparr>up_password = ''pw-b'', up_quota_bytes = 0, up_expires_unix = 0\<rparr>),
      (''a@x'', \<lparr>up_password = ''pw-a'', up_quota_bytes = 0, up_expires_unix = 0\<rparr>)]"

theorem into_specs_order_witness:
  "into_specs (rev sample_body) = into_specs sample_body \<and>
   map us_email (into_specs (rev sample_body)) = [''a@x'', ''b@x'']"
proof -
  have "into_specs (rev sample_body) = into_specs sample_body"
    using into_specs_order [of sample_body "rev sample_body"] by (simp add: sample_body_def)
  moreover have "map us_email (into_specs (rev sample_body)) = [''a@x'', ''b@x'']" by code_simp
  ultimately show ?thesis by simp
qed

text \<open>
  Who is authorized. Without a token everybody is. With one, a request is authorized exactly when
  it has an authorization header with readable text that is the token after \<open>Bearer \<close>, or that is the
  token itself: the prefix is optional, except before a token that itself starts with it. The
  comparison that visits every byte therefore decides equality.
\<close>

theorem authorized_iff:
  "authorized to_str req None \<and>
   (authorized to_str req (Some token) \<longleftrightarrow>
      (\<exists>header. rq_authorization req = Some header \<and>
         (to_str header = Some (''Bearer '' @ token) \<or>
          to_str header = Some token \<and> (\<nexists>t. token = ''Bearer '' @ t))))"
  by (cases "rq_authorization req"; cases "to_str (the (rq_authorization req))")
    (simp_all only: authorized_def same_bytes_eq as_bytes_inject Let_def option.case option.sel option.inject
      option.distinct strip_or_keep simp_thms)

text \<open>
  C40. What a request can do. Whatever the request, the registry keeps its invariant. A request that
  is not authorized is answered 401. An answer other than 200, and a \<open>GET\<close>, leave the registry as
  it was; and when it changes, then by an authorized request: a \<open>PUT\<close> on \<open>/users\<close> of an announced
  size within the limit whose body was read and parsed, which replaces the users by those of the
  body, or a \<open>POST\<close> that opens a new quota window for a user that exists.
\<close>

theorem route_effects:
  assumes "registry_inv r" "\<forall>bytes users. from_slice bytes = Inr users \<longrightarrow> distinct (map fst users)"
    and "route sha to_str percent_decode from_slice token req r = (r', (status, answer))"
  shows "registry_inv r' \<and>
    (\<not> authorized to_str req token \<longrightarrow> status = 401) \<and>
    (status \<noteq> 200 \<or> rq_method req = GET \<longrightarrow> r' = r) \<and>
    (r' = r \<or>
     authorized to_str req token \<and>
     (rq_method req = PUT \<and> rq_path req = ''/users'' \<and>
        (\<exists>n bytes users. rq_size_upper req = Some n \<and> n \<le> MAX_BODY_BYTES \<and> rq_body req = Inr bytes \<and>
           from_slice bytes = Inr users \<and> r' = replace_users sha (into_specs users) r) \<or>
      rq_method req = POST \<and>
        (\<exists>email a. reset_quota_target percent_decode (rq_path req) = Some email \<and>
           registry_get email r = Some a \<and> r' = upd_entry a reset_quota r)))"
proof (cases "authorized to_str req token")
  case False
  with assms show ?thesis by (simp add: route_def error_response_def)
next
  case auth: True
  consider (get) "rq_method req = GET" | (put) "rq_method req = PUT" "rq_path req = ''/users''"
    | (post) email where "rq_method req = POST" "reset_quota_target percent_decode (rq_path req) = Some email"
    | (none) "rq_method req = PUT \<and> rq_path req \<noteq> ''/users'' \<or>
        rq_method req = POST \<and> reset_quota_target percent_decode (rq_path req) = None \<or>
        (\<exists>m. rq_method req = OtherMethod m)"
    by (cases "rq_method req") auto
  then show ?thesis
  proof cases
    case get
    with assms auth show ?thesis by (auto simp: route_def error_response_def split: if_splits)
  next
    case put
    with assms(3) auth have "put_users sha from_slice req r = (r', (status, answer))" by (simp add: route_def)
    moreover have "\<not> MAX_BODY_BYTES < - 1 \<Longrightarrow> False" by (simp add: MAX_BODY_BYTES_def)
    ultimately show ?thesis
      using put auth assms(1) registry_inv_put [OF assms(1)] assms(2)
      by (auto simp: put_users_def error_response_def Let_def not_less split: if_splits sum.splits option.splits)
  next
    case (post email)
    with assms(3) auth have "post_reset email r = (r', (status, answer))" by (simp add: route_def)
    with post auth assms(1) registry_inv_reset [OF assms(1)] show ?thesis
      by (auto simp: post_reset_def error_response_def split: option.splits)
  next
    case none
    with assms(1,3) auth show ?thesis by (auto simp: route_def error_response_def)
  qed
qed

text \<open>
  A new quota window, as the panel sees it. A \<open>POST\<close> to the reset path of a served user, with the
  email percent-encoded, is answered 200; and a \<open>GET\<close> of the statistics after it reports exactly the
  users reported before, with the same connections, totals and limits, and with the same use of the
  quota except for that user, whose use is 0.
\<close>

theorem reset_then_stats:
  assumes "registry_inv r" "registry_get email r = Some a"
    and "authorized to_str req token" "rq_method req = POST" "rq_path req = ''/users/'' @ enc @ ''/reset-quota''"
    and "percent_decode enc = as_bytes email" "utf8_valid (as_bytes email)" "enc \<noteq> []" "CHR ''/'' \<notin> set enc"
  shows "case route sha to_str percent_decode from_slice token req r of (r', res) \<Rightarrow>
    res = (200, EmailBody email) \<and>
    (\<exists>stats. route sha to_str percent_decode from_slice token (req\<lparr>rq_method := GET, rq_path := ''/stats''\<rparr>) r' =
       (r', (200, StatsBody stats)) \<and>
       map_of stats e = map_option
         (\<lambda>u. if e = email then u\<lparr>su_quota_used := 0\<rparr> else u) (map_of (collect_stats r) e))"
proof -
  have target: "reset_quota_target percent_decode (rq_path req) = Some email"
    using assms(5-9) strip_prefix_Some [of "''/users/''" "rq_path req" "enc @ ''/reset-quota''"]
    by (simp add: reset_quota_target_def from_utf8_def del: append.simps)
  let ?r = "upd_entry a reset_quota r"
  have r: "route sha to_str percent_decode from_slice token req r = (?r, (200, EmailBody email))"
    using assms(2-4) target by (simp add: route_def post_reset_def)
  have auth: "authorized to_str (req\<lparr>rq_method := GET, rq_path := ''/stats''\<rparr>) token"
    using assms(3) by (cases token) (simp_all add: authorized_def)
  have get: "registry_get e ?r = registry_get e r" by (simp add: registry_get_def)
  have "map_of (collect_stats ?r) e = map_option
      (\<lambda>u. if e = email then u\<lparr>su_quota_used := 0\<rparr> else u) (map_of (collect_stats r) e)"
  proof (cases "registry_get e r")
    case None
    then show ?thesis
      using collect_stats_lookup [OF assms(1)] collect_stats_lookup [OF registry_inv_reset [OF assms(1)]] get
      by simp
  next
    case (Some b)
    have "b < length (rg_heap r)" "b = a \<longleftrightarrow> e = email"
      using registry_inv_emailD(1) [OF assms(1)] registry_inv_email_inj [OF assms(1)] assms(2) Some
      by (auto simp: registry_get_def)
    then have "stats_of_entry (entry_at ?r b) =
        (if e = email then (stats_of_entry (entry_at r b))\<lparr>su_quota_used := 0\<rparr> else stats_of_entry (entry_at r b))"
      by (auto simp: stats_of_entry_def entry_at_upd) (simp_all add: reset_quota_def)
    then show ?thesis
      using collect_stats_lookup [OF assms(1)] collect_stats_lookup [OF registry_inv_reset [OF assms(1)]] get Some
      by simp
  qed
  then show ?thesis using r auth by (simp add: route_def)
qed

text \<open>A request of the panel, a header reader for the sample and the sample's node.\<close>

definition sample_request :: "http_method \<Rightarrow> string \<Rightarrow> request" where
  "sample_request m path =
     \<lparr>rq_method = m, rq_path = path, rq_authorization = Some (as_bytes ''Bearer tok''),
      rq_size_upper = Some 0, rq_body = Inr []\<rparr>"

definition sample_to_str :: "byte list \<Rightarrow> string option" where
  "sample_to_str bs = Some (of_bytes bs)"

lemma sample_authorized: "authorized sample_to_str (sample_request m path) (Some ''tok'')"
  by (simp add: authorized_def sample_request_def sample_to_str_def same_bytes_eq strip_prefix_def)

lemma sample_get: "registry_get ''a@x'' (with_users sample_sha sample_users) = Some 0"
  using replace_users_eq(1) [OF sample_users_distinct, of sample_sha registry_new]
  by (simp add: registry_get_def with_users_def sample_users_accepted)
    (simp add: sample_users_def sample_spec_def registry_new_def)

theorem route_effects_witness:
  "registry_inv (fst (route sample_sha sample_to_str as_bytes (\<lambda>_. Inr sample_body) (Some ''tok'')
     (sample_request PUT ''/users'') (with_users sample_sha sample_users)))"
  using route_effects [OF sample_registry_inv, of "\<lambda>_. Inr sample_body" sample_sha sample_to_str as_bytes
      "Some ''tok''" "sample_request PUT ''/users''"]
  by (cases "route sample_sha sample_to_str as_bytes (\<lambda>_. Inr sample_body) (Some ''tok'')
     (sample_request PUT ''/users'') (with_users sample_sha sample_users)")
    (auto simp: sample_body_def)

theorem reset_then_stats_witness:
  "snd (route sample_sha sample_to_str as_bytes (\<lambda>_. Inr sample_body) (Some ''tok'')
     (sample_request POST ''/users/a@x/reset-quota'') (with_users sample_sha sample_users)) =
   (200, EmailBody ''a@x'')"
  using reset_then_stats [OF sample_registry_inv sample_get sample_authorized, of POST "''/users/a@x/reset-quota''" "''a@x''"
      as_bytes sample_sha "\<lambda>_. Inr sample_body"]
  by (simp add: sample_request_def split_beta utf8_valid_ascii)

end
