(* ===== verification/Uot.thy ===== *)
theory Uot
  imports Codec Rust_Std
begin

text \<open>
  \<open>src/src/uot/mod.rs\<close>: UDP packets inside a stream. A request names the mode and a
  destination; in datagram mode every packet carries its destination, in connected mode none
  does. Addresses and their wire format belong to the crate \<open>socks5_impl\<close>: the type has the
  constructors the sources use, the encoder and the reader are arguments, and \<open>address_codec\<close>
  states what is relied on. A reader is the list of the bytes that arrive before its end.
\<close>

section \<open>Addresses\<close>

datatype socket_addr =
    SocketAddrV4 u32 u16
  | SocketAddrV6 "128 word" u16 u32 u32

datatype address = SocketAddress socket_addr | DomainAddress string u16

type_synonym addr_write = "address \<Rightarrow> byte list"
type_synonym 'a reader = "byte list \<Rightarrow> ('a \<times> byte list) io_result"

text \<open>
  An address that can be encoded is read back, whatever follows it, and a reader that ends
  within it reports the end.
\<close>

definition address_codec :: "(address \<Rightarrow> bool) \<Rightarrow> addr_write \<Rightarrow> address reader \<Rightarrow> bool" where
  "address_codec ok wr rd \<longleftrightarrow>
     (\<forall>a rest. ok a \<longrightarrow> rd (wr a @ rest) = Inr (a, rest)) \<and>
     (\<forall>a n. ok a \<longrightarrow> n < length (wr a) \<longrightarrow> (\<exists>m. rd (take n (wr a)) = Inl (IoError UnexpectedEof m)))"

section \<open>Reading from a stream\<close>

definition unexpected_eof :: io_error where
  "unexpected_eof = IoError UnexpectedEof ''unexpected end of file''"

definition read_u8 :: "byte reader" where
  "read_u8 bs = (case bs of [] \<Rightarrow> Inl unexpected_eof | b # r \<Rightarrow> Inr (b, r))"

definition read_u16 :: "u16 reader" where
  "read_u16 bs = (if length bs < 2 then Inl unexpected_eof else Inr (get_u16 bs, drop 2 bs))"

definition read_exact :: "nat \<Rightarrow> byte list reader" where
  "read_exact n bs =
     (if length bs < n then Inl (IoError UnexpectedEof ''early eof'') else Inr (take n bs, drop n bs))"

section \<open>Modes and requests\<close>

definition V2_MAGIC_ADDRESS :: string where
  "V2_MAGIC_ADDRESS = ''sp.v2.udp-over-tcp.arpa''"

datatype uot_mode = Datagram | Connected

definition uot_mode_of_u8 :: "byte \<Rightarrow> uot_mode io_result" where
  "uot_mode_of_u8 v =
     (if v = 0 then Inr Datagram
      else if v = 1 then Inr Connected
      else Inl (IoError InvalidData (''invalid UOT mode: '' @ show_u8 v)))"

fun u8_of_uot_mode :: "uot_mode \<Rightarrow> byte" where
  "u8_of_uot_mode Datagram = 0"
| "u8_of_uot_mode Connected = 1"

record uot_request =
  uq_mode :: uot_mode
  uq_destination :: address

definition uot_request_bytes :: "addr_write \<Rightarrow> uot_request \<Rightarrow> byte list" where
  "uot_request_bytes wr q = u8_of_uot_mode (uq_mode q) # wr (uq_destination q)"

definition uot_sentinel_destination :: address where
  "uot_sentinel_destination = DomainAddress V2_MAGIC_ADDRESS 0"

fun uot_is_sentinel_destination :: "address \<Rightarrow> bool" where
  "uot_is_sentinel_destination (DomainAddress domain _) \<longleftrightarrow> domain = V2_MAGIC_ADDRESS"
| "uot_is_sentinel_destination (SocketAddress _) \<longleftrightarrow> False"

definition uot_get_request_from_stream :: "address reader \<Rightarrow> uot_request reader" where
  "uot_get_request_from_stream rd bs =
     res_bind (read_u8 bs) (\<lambda>(v, r).
     res_bind (uot_mode_of_u8 v) (\<lambda>mode.
     res_bind (rd r) (\<lambda>(a, r').
     Inr (\<lparr>uq_mode = mode, uq_destination = a\<rparr>, r'))))"

section \<open>Packets\<close>

definition uot_encode_packet ::
    "addr_write \<Rightarrow> uot_mode \<Rightarrow> address option \<Rightarrow> byte list \<Rightarrow> byte list io_result" where
  "uot_encode_packet wr mode destination payload =
     (if 65535 < length payload then Inl (IoError InvalidInput ''UOT packet too large'')
      else
        (case mode of
           Datagram \<Rightarrow>
             (case destination of
                None \<Rightarrow> Inl (IoError InvalidInput ''Datagram mode requires a destination'')
              | Some a \<Rightarrow> Inr (wr a @ put_u16 (word_of_nat (length payload)) @ payload))
         | Connected \<Rightarrow>
             (case destination of
                Some _ \<Rightarrow> Inl (IoError InvalidInput ''Connected mode does not allow a destination'')
              | None \<Rightarrow> Inr (put_u16 (word_of_nat (length payload)) @ payload))))"

definition read_payload :: "byte list reader" where
  "read_payload bs = res_bind (read_u16 bs) (\<lambda>(n, r). read_exact (unat n) r)"

definition uot_get_packet_from_stream ::
    "address reader \<Rightarrow> uot_mode \<Rightarrow> (address option \<times> byte list) reader" where
  "uot_get_packet_from_stream rd mode bs =
     (case mode of
        Datagram \<Rightarrow>
          res_bind (rd bs) (\<lambda>(a, r).
          res_bind (read_payload r) (\<lambda>(payload, r').
          Inr ((Some a, payload), r')))
      | Connected \<Rightarrow>
          res_bind (read_payload bs) (\<lambda>(payload, r'). Inr ((None, payload), r')))"

text \<open>Reading until the first failure: the packets and the error that ended the loop.\<close>

function uot_packets ::
    "address reader \<Rightarrow> uot_mode \<Rightarrow> byte list \<Rightarrow> (address option \<times> byte list) list \<times> io_error option" where
  "uot_packets rd mode bs =
     (case uot_get_packet_from_stream rd mode bs of
        Inl e \<Rightarrow> ([], Some e)
      | Inr (p, r) \<Rightarrow>
          if length r < length bs then (case uot_packets rd mode r of (ps, e) \<Rightarrow> (p # ps, e))
          else ([p], None))"
  by pat_completeness auto
termination
  by (relation "measure (\<lambda>(rd, mode, bs). length bs)") auto

declare uot_packets.simps [simp del]

section \<open>Lemmas\<close>

lemma read_payload_encoded:
  assumes "length payload \<le> 65535"
  shows "read_payload (put_u16 (word_of_nat (length payload)) @ payload @ r) = Inr (payload, r)"
proof -
  have "unat (word_of_nat (length payload) :: u16) = length payload" using assms by (simp add: unat_of_nat)
  then show ?thesis by (simp add: read_payload_def read_u16_def read_exact_def)
qed

lemma read_payload_cut:
  assumes "length payload \<le> 65535" "n < 2 + length payload"
  shows "\<exists>m. read_payload (take n (put_u16 (word_of_nat (length payload)) @ payload)) = Inl (IoError UnexpectedEof m)"
proof (cases "n < 2")
  case True
  then show ?thesis by (simp add: read_payload_def read_u16_def unexpected_eof_def)
next
  case False
  have u: "unat (word_of_nat (length payload) :: u16) = length payload" using assms by (simp add: unat_of_nat)
  have t: "take n (put_u16 (word_of_nat (length payload)) @ payload) =
      put_u16 (word_of_nat (length payload)) @ take (n - 2) payload"
    using False by simp
  show ?thesis
    unfolding t using assms False u
    by (auto simp: read_payload_def read_u16_def read_exact_def)
qed

lemma read_payload_shrinks: "read_payload bs = Inr (p, r) \<Longrightarrow> length r < length bs"
  by (auto simp: read_payload_def read_u16_def read_exact_def res_bind_Inr_iff split: if_splits)

text \<open>A packet that can be sent in a mode.\<close>

definition packet_ok :: "(address \<Rightarrow> bool) \<Rightarrow> uot_mode \<Rightarrow> address option \<times> byte list \<Rightarrow> bool" where
  "packet_ok ok mode p \<longleftrightarrow> length (snd p) \<le> 65535 \<and>
     (case mode of Datagram \<Rightarrow> (\<exists>a. fst p = Some a \<and> ok a) | Connected \<Rightarrow> fst p = None)"

lemma encode_ok:
  assumes "packet_ok ok mode p"
  shows "\<exists>bs. uot_encode_packet wr mode (fst p) (snd p) = Inr bs"
  using assms by (auto simp: packet_ok_def uot_encode_packet_def split: uot_mode.splits)

definition encoded :: "addr_write \<Rightarrow> uot_mode \<Rightarrow> address option \<times> byte list \<Rightarrow> byte list" where
  "encoded wr mode p = (case uot_encode_packet wr mode (fst p) (snd p) of Inr bs \<Rightarrow> bs | Inl _ \<Rightarrow> [])"

lemma packet_okE:
  assumes "packet_ok ok mode p"
  obtains (datagram) a where "mode = Datagram" "fst p = Some a" "ok a"
      "encoded wr mode p = wr a @ put_u16 (word_of_nat (length (snd p))) @ snd p"
  | (connected) "mode = Connected" "fst p = None"
      "encoded wr mode p = put_u16 (word_of_nat (length (snd p))) @ snd p"
  using assms by (cases mode) (auto simp: packet_ok_def encoded_def uot_encode_packet_def)

lemma get_packet_encoded:
  assumes "address_codec ok wr rd" "packet_ok ok mode p"
  shows "uot_get_packet_from_stream rd mode (encoded wr mode p @ r) = Inr (p, r)"
proof -
  have n: "length (snd p) \<le> 65535" using assms(2) by (simp add: packet_ok_def)
  from assms(2) show ?thesis
  proof (cases rule: packet_okE [where wr = wr])
    case (datagram a)
    have "rd (wr a @ (put_u16 (word_of_nat (length (snd p))) @ snd p @ r)) =
        Inr (a, put_u16 (word_of_nat (length (snd p))) @ snd p @ r)"
      using assms(1) datagram(3) by (simp add: address_codec_def)
    with datagram read_payload_encoded [OF n, of r] show ?thesis
      by (cases p) (simp add: uot_get_packet_from_stream_def)
  next
    case connected
    with read_payload_encoded [OF n, of r] show ?thesis
      by (cases p) (simp add: uot_get_packet_from_stream_def)
  qed
qed

lemma get_packet_cut:
  assumes "address_codec ok wr rd" "packet_ok ok mode p" "n < length (encoded wr mode p)"
  shows "\<exists>m. uot_get_packet_from_stream rd mode (take n (encoded wr mode p)) = Inl (IoError UnexpectedEof m)"
proof -
  have len: "length (snd p) \<le> 65535" using assms(2) by (simp add: packet_ok_def)
  let ?pl = "put_u16 (word_of_nat (length (snd p))) @ snd p"
  from assms(2) show ?thesis
  proof (cases rule: packet_okE [where wr = wr])
    case (datagram a)
    show ?thesis
    proof (cases "n < length (wr a)")
      case True
      then have "take n (encoded wr mode p) = take n (wr a)" using datagram by simp
      moreover obtain m where "rd (take n (wr a)) = Inl (IoError UnexpectedEof m)"
        using assms(1) datagram(3) True unfolding address_codec_def by blast
      ultimately show ?thesis using datagram(1) by (auto simp: uot_get_packet_from_stream_def)
    next
      case False
      let ?k = "n - length (wr a)"
      have t: "take n (encoded wr mode p) = wr a @ take ?k ?pl" using False datagram by simp
      have "rd (wr a @ take ?k ?pl) = Inr (a, take ?k ?pl)"
        using assms(1) datagram(3) by (simp add: address_codec_def)
      moreover have "?k < 2 + length (snd p)" using assms(3) datagram False by simp
      from read_payload_cut [OF len this] obtain m
        where "read_payload (take ?k ?pl) = Inl (IoError UnexpectedEof m)" by blast
      ultimately show ?thesis
        unfolding t using datagram(1) by (simp add: uot_get_packet_from_stream_def del: take_append)
    qed
  next
    case connected
    have "n < 2 + length (snd p)" using assms(3) connected by simp
    from read_payload_cut [OF len this] connected show ?thesis
      by (auto simp: uot_get_packet_from_stream_def simp del: take_append)
  qed
qed

lemma encoded_nonempty: "packet_ok ok mode p \<Longrightarrow> encoded wr mode p \<noteq> []"
  by (erule packet_okE [where wr = wr]) (auto simp: put_u16_eval)

lemma uot_packets_encoded:
  assumes "address_codec ok wr rd" "list_all (packet_ok ok mode) ps"
  shows "uot_packets rd mode (concat (map (encoded wr mode) ps) @ r) =
    (ps @ fst (uot_packets rd mode r), snd (uot_packets rd mode r))"
  using assms(2)
proof (induction ps)
  case Nil
  then show ?case by simp
next
  case (Cons p ps)
  let ?rest = "concat (map (encoded wr mode) ps) @ r"
  have "uot_get_packet_from_stream rd mode (encoded wr mode p @ ?rest) = Inr (p, ?rest)"
    using get_packet_encoded [OF assms(1)] Cons.prems by simp
  moreover have "length ?rest < length (encoded wr mode p @ ?rest)"
    using encoded_nonempty [of ok mode p wr] Cons.prems by simp
  ultimately have "uot_packets rd mode (encoded wr mode p @ ?rest) =
      (p # fst (uot_packets rd mode ?rest), snd (uot_packets rd mode ?rest))"
    by (subst uot_packets.simps) (simp add: case_prod_beta)
  with Cons show ?case by simp
qed

section \<open>A concrete address format\<close>

text \<open>Domain names in the format of SOCKS 5: type 3, length, name, port.\<close>

definition domain_ok :: "address \<Rightarrow> bool" where
  "domain_ok a \<longleftrightarrow> (case a of DomainAddress d _ \<Rightarrow> length d < 256 | SocketAddress _ \<Rightarrow> False)"

fun domain_write :: "address \<Rightarrow> byte list" where
  "domain_write (DomainAddress d p) = 3 # word_of_nat (length d) # as_bytes d @ put_u16 p"
| "domain_write (SocketAddress _) = []"

definition domain_read :: "address reader" where
  "domain_read bs =
     res_bind (read_u8 bs) (\<lambda>(t, r).
     if t \<noteq> 3 then Inl (IoError InvalidData ''address type'')
     else
       res_bind (read_u8 r) (\<lambda>(n, r1).
       res_bind (read_exact (unat n) r1) (\<lambda>(d, r2).
       res_bind (read_u16 r2) (\<lambda>(p, r3). Inr (DomainAddress (of_bytes d) p, r3)))))"

lemma read_exact_append: "n = length xs \<Longrightarrow> read_exact n (xs @ r) = Inr (xs, r)"
  by (simp add: read_exact_def)

lemma read_u16_put: "read_u16 (put_u16 p @ r) = Inr (p, r)"
  by (simp add: read_u16_def)

lemma domain_codec: "address_codec domain_ok domain_write domain_read"
proof -
  have len: "unat (word_of_nat (length d) :: byte) = length d" if "length d < 256" for d :: string
    using that by (simp add: unat_of_nat)
  have rd: "domain_read (3 # word_of_nat (length d) # as_bytes d @ r) =
      res_bind (read_u16 r) (\<lambda>(p, r3). Inr (DomainAddress d p, r3))" if "length d < 256" for d r
    using len [OF that] by (simp add: domain_read_def read_u8_def read_exact_append)
  have whole: "domain_read (domain_write a @ rest) = Inr (a, rest)" if "domain_ok a" for a rest
    using that rd by (cases a) (simp_all add: domain_ok_def read_u16_put)
  have cut: "\<exists>m. domain_read (take n (domain_write a)) = Inl (IoError UnexpectedEof m)"
    if a: "domain_ok a" "n < length (domain_write a)" for a n
  proof -
    obtain d p where d: "a = DomainAddress d p" "length d < 256" using a(1) by (cases a) (auto simp: domain_ok_def)
    consider "n = 0" | "n = 1" | k where "n = Suc (Suc k)" "k < length d" | k where "n = Suc (Suc (length d + k))" "k < 2"
    proof -
      have "n < 4 + length d" using a(2) d by simp
      then have "n = 0 \<or> n = 1 \<or> (\<exists>k < length d. n = Suc (Suc k)) \<or> (\<exists>k < 2. n = Suc (Suc (length d + k)))"
        by presburger
      with that show thesis by blast
    qed
    then show ?thesis
    proof cases
      case 1
      then show ?thesis by (simp add: domain_read_def read_u8_def unexpected_eof_def)
    next
      case 2
      then show ?thesis by (simp add: d(1) domain_read_def read_u8_def unexpected_eof_def)
    next
      case (3 k)
      then show ?thesis using len [OF d(2)] by (simp add: d(1) domain_read_def read_u8_def read_exact_def)
    next
      case (4 k)
      have t: "take n (domain_write a) = 3 # word_of_nat (length d) # as_bytes d @ take k (put_u16 p)"
        using 4(1) by (simp add: d(1))
      show ?thesis unfolding t rd [OF d(2)] using 4(2) by (simp add: read_u16_def unexpected_eof_def)
    qed
  qed
  show ?thesis using whole cut by (simp add: address_codec_def)
qed

section \<open>Properties\<close>

text \<open>
  C22. Packets survive the stream. With an address format that reads back what it wrote, any
  sequence of packets whose payloads fit in 16 bits, each with a destination in datagram mode and
  none in connected mode, is read back exactly, in order; and when the stream is cut off inside a
  packet, the packets before it are read and the loop ends with an unexpected end of file, never
  with part of a payload.
\<close>

theorem uot_stream_roundtrip:
  assumes "address_codec ok wr rd" "list_all (packet_ok ok mode) ps" "packet_ok ok mode q"
    and "n < length (encoded wr mode q)"
  shows "\<exists>m. uot_packets rd mode (concat (map (encoded wr mode) ps) @ take n (encoded wr mode q)) =
    (ps, Some (IoError UnexpectedEof m))"
proof -
  obtain m where "uot_get_packet_from_stream rd mode (take n (encoded wr mode q)) = Inl (IoError UnexpectedEof m)"
    using get_packet_cut [OF assms(1,3,4)] by blast
  then have "uot_packets rd mode (take n (encoded wr mode q)) = ([], Some (IoError UnexpectedEof m))"
    by (subst uot_packets.simps) simp
  with uot_packets_encoded [OF assms(1,2)] show ?thesis by auto
qed

theorem uot_stream_roundtrip_witness:
  "\<exists>m. uot_packets domain_read Datagram
      (concat (map (encoded domain_write Datagram) [(Some (DomainAddress ''a.b'' 53), [1, 2])]) @
       take 5 (encoded domain_write Datagram (Some (DomainAddress ''c.d'' 80), [7]))) =
    ([(Some (DomainAddress ''a.b'' 53), [1, 2])], Some (IoError UnexpectedEof m))"
proof (rule uot_stream_roundtrip [OF domain_codec])
  show "list_all (packet_ok domain_ok Datagram) [(Some (DomainAddress ''a.b'' 53), [1, 2])]"
    "packet_ok domain_ok Datagram (Some (DomainAddress ''c.d'' 80), [7])"
    by (simp_all add: packet_ok_def domain_ok_def)
  show "5 < length (encoded domain_write Datagram (Some (DomainAddress ''c.d'' 80), [7]))"
    by (simp add: encoded_def uot_encode_packet_def)
qed

text \<open>
  Requests. A request is read back with its mode and destination; a mode byte other than 0 and
  1 is refused before the destination is looked at. A packet is refused exactly when its payload
  does not fit, when a datagram has no destination, or when a connected packet has one. The
  sentinel destination is recognised, with any port.
\<close>

theorem uot_requests:
  assumes "address_codec ok wr rd" "ok (uq_destination q)"
  shows "uot_get_request_from_stream rd (uot_request_bytes wr q @ rest) = Inr (q, rest) \<and>
    (1 < v \<longrightarrow> uot_get_request_from_stream rd (v # bs) =
       Inl (IoError InvalidData (''invalid UOT mode: '' @ show_u8 v))) \<and>
    (is_ok (uot_encode_packet wr mode dest payload) \<longleftrightarrow>
       length payload \<le> 65535 \<and> (mode = Datagram \<longleftrightarrow> dest \<noteq> None)) \<and>
    uot_is_sentinel_destination uot_sentinel_destination \<and>
    (uot_is_sentinel_destination a \<longleftrightarrow> (\<exists>port. a = DomainAddress V2_MAGIC_ADDRESS port))"
proof -
  have "uot_get_request_from_stream rd (uot_request_bytes wr q @ rest) = Inr (q, rest)"
    using assms
    by (cases q; cases "uq_mode q")
      (simp_all add: uot_get_request_from_stream_def uot_request_bytes_def read_u8_def uot_mode_of_u8_def
        address_codec_def)
  moreover have "1 < v \<longrightarrow> v \<noteq> 0 \<and> v \<noteq> 1" by auto
  ultimately show ?thesis
    by (cases a; cases mode; cases dest)
      (auto simp: uot_get_request_from_stream_def read_u8_def uot_mode_of_u8_def uot_encode_packet_def
        uot_sentinel_destination_def)
qed

theorem uot_requests_witness:
  "uot_get_request_from_stream domain_read
     (uot_request_bytes domain_write \<lparr>uq_mode = Connected, uq_destination = DomainAddress ''dns'' 53\<rparr> @ [9]) =
   Inr (\<lparr>uq_mode = Connected, uq_destination = DomainAddress ''dns'' 53\<rparr>, [9])"
  using uot_requests [OF domain_codec, of "\<lparr>uq_mode = Connected, uq_destination = DomainAddress ''dns'' 53\<rparr>" "[9]"]
  by (simp add: domain_ok_def)

end
