(* ===== verification/Server.thy ===== *)
theory Server
  imports Node_Api Panel_Sync Engine Uot
begin

text \<open>
  \<open>src/bin/server.rs\<close> up to the session: the checks at the start of the server, how an incoming
  connection authenticates, what happens to one that does not, and the context that counts and
  polices the traffic of one that does. A TLS stream is the list of what its reads give, in which
  an empty read is the end. Of other crates, certificates and URLs are given by the values that are
  read from them; the JSON parser, SHA-256 and the parser of UUIDs are arguments.
\<close>

section \<open>Arguments and start\<close>

datatype proxy_type = Socks5Proxy | OtherProxy

record url_view =
  uv_scheme :: string
  uv_host :: "string option"
  uv_port_or_known_default :: "u16 option"

record server_args =
  sa_password :: "string option"
  sa_padding_scheme :: "byte list io_result option"
  sa_outbound_proxy :: "proxy_type option"
  sa_forward :: "url_view option"
  sa_panel_webapi_url :: "string option"
  sa_panel_webapi_token :: "string option"
  sa_panel_node_id :: "u64 option"
  sa_panel_update_interval_secs :: "u64 option"
  sa_users_file :: "(string \<times> byte list io_result) option"
  sa_api_bind_to :: "socket_addr option"
  sa_api_token :: "string option"

definition panel_sync_enabled :: "server_args \<Rightarrow> bool" where
  "panel_sync_enabled a \<longleftrightarrow>
     sa_panel_webapi_url a \<noteq> None \<and> sa_panel_webapi_token a \<noteq> None \<and> sa_panel_node_id a \<noteq> None"

definition multi_user_enabled :: "server_args \<Rightarrow> bool" where
  "multi_user_enabled a \<longleftrightarrow> sa_users_file a \<noteq> None \<or> sa_api_bind_to a \<noteq> None"

datatype authenticator = SharedPassword "byte list" | Users

record server =
  sv_authenticator :: authenticator
  sv_registry :: registry
  sv_audit :: traffic_audit
  sv_padding :: "padding_factory option"
  sv_forward :: "url_view option"
  sv_panel :: "panel_client option"
  sv_api_token :: "string option"

datatype start = StartFailed io_error | ProcessExit nat | Started server

definition check_forward :: "url_view option \<Rightarrow> url_view option io_result" where
  "check_forward f =
     (case f of
        None \<Rightarrow> Inr None
      | Some target \<Rightarrow>
          if uv_scheme target = ''http'' \<or> uv_scheme target = ''https'' then Inr (Some target)
          else Inl (error_other (''Unsupported forward URL scheme: '' @ uv_scheme target)))"

definition panel_of_args :: "server_args \<Rightarrow> panel_client option" where
  "panel_of_args a =
     (if panel_sync_enabled a
      then Some (panel_client_new
        \<lparr>pc_enabled = Some True, pc_webapi_url = sa_panel_webapi_url a, pc_webapi_token = sa_panel_webapi_token a,
         pc_node_id = sa_panel_node_id a, pc_api_update_interval_secs = sa_panel_update_interval_secs a\<rparr>)
      else None)"

text \<open>The token of the management interface: the environment first, then the argument.\<close>

definition api_token :: "string option \<Rightarrow> server_args \<Rightarrow> string option" where
  "api_token env a =
     (case env of
        Some t \<Rightarrow> if t \<noteq> [] then Some t else sa_api_token a
      | None \<Rightarrow> sa_api_token a)"

definition load_padding ::
    "hash_fun \<Rightarrow> padding_factory option \<Rightarrow> byte list io_result option \<Rightarrow> start + padding_factory option" where
  "load_padding md5 cell file =
     (case file of
        None \<Rightarrow> Inr (default_load md5 cell)
      | Some (Inl e) \<Rightarrow> Inl (StartFailed e)
      | Some (Inr content) \<Rightarrow>
          (case default_update md5 cell content of
             (cell, True) \<Rightarrow> Inr (default_load md5 cell)
           | (cell, False) \<Rightarrow> Inl (ProcessExit 1)))"

definition server_start ::
    "sha_fun \<Rightarrow> hash_fun \<Rightarrow> (byte list \<Rightarrow> string + users_put_body) \<Rightarrow> string option \<Rightarrow> server_args \<Rightarrow> start" where
  "server_start sha md5 from_slice env a =
     (if sa_outbound_proxy a = Some OtherProxy
      then StartFailed (error_other ''Only SOCKS5 proxy is supported for outbound_socks5'')
      else
        (case check_forward (sa_forward a) of
           Inl e \<Rightarrow> StartFailed e
         | Inr forward \<Rightarrow>
             (let multi_user = multi_user_enabled a;
                  shared_password = (case sa_password a of Some p \<Rightarrow> p | None \<Rightarrow> [])
              in if shared_password = [] \<and> \<not> multi_user then ProcessExit 1
                 else if multi_user \<and> panel_sync_enabled a then ProcessExit 1
                 else
                   (case (if multi_user
                          then res_bind
                            (case sa_users_file a of
                               None \<Rightarrow> Inr []
                             | Some (path, content) \<Rightarrow> load_users_file from_slice path content)
                            (\<lambda>specs. Inr (Users, with_users sha specs))
                          else Inr (SharedPassword (hash_password sha shared_password), registry_new)) of
                      Inl e \<Rightarrow> StartFailed e
                    | Inr (auth, registry) \<Rightarrow>
                        (case load_padding md5 None (sa_padding_scheme a) of
                           Inl stop \<Rightarrow> stop
                         | Inr padding \<Rightarrow>
                             Started \<lparr>sv_authenticator = auth, sv_registry = registry, sv_audit = traffic_audit_new,
                               sv_padding = padding, sv_forward = forward, sv_panel = panel_of_args a,
                               sv_api_token =
                                 (if multi_user \<and> sa_api_bind_to a \<noteq> None then api_token env a else None)\<rparr>)))))"

section \<open>Names of the certificate\<close>

definition extract_dns_names_from_certs :: "string list \<Rightarrow> string option \<Rightarrow> string list" where
  "extract_dns_names_from_certs dns_names fallback_sni =
     (let names = (case fallback_sni of
                     Some sni \<Rightarrow> if dns_names = [] then [sni] else dns_names
                   | None \<Rightarrow> dns_names)
      in remdups_adj (sort names))"

definition sni_is_allowed :: "string \<Rightarrow> string list \<Rightarrow> bool" where
  "sni_is_allowed target allowlist = list_ex (\<lambda>allowed. eq_ignore_ascii_case allowed target) allowlist"

section \<open>Authentication\<close>

datatype auth_outcome = Rejected | Anonymous | User authed_user

definition auth_authenticate ::
    "int \<Rightarrow> authenticator \<Rightarrow> byte list \<Rightarrow> registry \<Rightarrow> registry \<times> auth_outcome" where
  "auth_authenticate now auth password_hash r =
     (case auth of
        SharedPassword expected \<Rightarrow> (r, if password_hash = expected then Anonymous else Rejected)
      | Users \<Rightarrow>
          (case authenticate now password_hash r of
             (r, Some u) \<Rightarrow> (r, User u)
           | (r, None) \<Rightarrow> (r, Rejected)))"

definition UUID_STR_LEN :: nat where "UUID_STR_LEN = 36"

definition extract_client_id_from_padding :: "(string \<Rightarrow> uuid option) \<Rightarrow> byte list \<Rightarrow> uuid option" where
  "extract_client_id_from_padding parse_str padding_data =
     (if length padding_data < UUID_STR_LEN then None
      else
        (case from_utf8 (take UUID_STR_LEN padding_data) of
           None \<Rightarrow> None
         | Some text \<Rightarrow>
             (let candidate = str_trim (trim_end_char (CHR 0x00) text)
              in if length candidate \<noteq> UUID_STR_LEN then None else parse_str candidate)))"

section \<open>The context of a connection\<close>

record conn_ctx =
  cx_user :: "authed_user option"
  cx_client_id :: "uuid option"
  cx_panel_sync_enabled :: bool

type_synonym node_data = "registry \<times> traffic_audit"

definition ctx_record_up :: "conn_ctx \<Rightarrow> u64 \<Rightarrow> node_data \<Rightarrow> node_data" where
  "ctx_record_up c n d =
     (case cx_user c of
        Some u \<Rightarrow> (authed_record_up n u (fst d), snd d)
      | None \<Rightarrow>
          (case cx_client_id c of
             Some i \<Rightarrow> (fst d, add_upstream_traffic_of i n (snd d))
           | None \<Rightarrow> d))"

definition ctx_record_down :: "conn_ctx \<Rightarrow> u64 \<Rightarrow> node_data \<Rightarrow> node_data" where
  "ctx_record_down c n d =
     (case cx_user c of
        Some u \<Rightarrow> (authed_record_down n u (fst d), snd d)
      | None \<Rightarrow>
          (case cx_client_id c of
             Some i \<Rightarrow> (fst d, add_downstream_traffic_of i n (snd d))
           | None \<Rightarrow> d))"

definition check_incoming_client_approved :: "bool \<Rightarrow> traffic_audit \<Rightarrow> uuid option \<Rightarrow> bool" where
  "check_incoming_client_approved panel_sync audit client_id =
     (if \<not> panel_sync then True
      else (case client_id of Some i \<Rightarrow> get_enable_of i audit | None \<Rightarrow> False))"

definition ctx_approved :: "int \<Rightarrow> conn_ctx \<Rightarrow> node_data \<Rightarrow> bool" where
  "ctx_approved now c d =
     (case cx_user c of
        Some u \<Rightarrow> (case authed_deny_reason now u (fst d) of Some _ \<Rightarrow> False | None \<Rightarrow> True)
      | None \<Rightarrow> check_incoming_client_approved (cx_panel_sync_enabled c) (snd d) (cx_client_id c))"

section \<open>Reading the preamble\<close>

type_synonym tls_stream = "byte list io_result list"

text \<open>One read into a buffer with room for \<open>n\<close> bytes.\<close>

fun tls_read :: "nat \<Rightarrow> tls_stream \<Rightarrow> (byte list \<times> tls_stream) io_result" where
  "tls_read n [] = Inr ([], [])"
| "tls_read n (Inl e # cs) = Inl e"
| "tls_read n (Inr c # cs) = (if length c \<le> n then Inr (c, cs) else Inr (take n c, Inr (drop n c) # cs))"

lemma tls_read_length: "tls_read n cs = Inr (c, cs') \<Longrightarrow> length c \<le> n"
  by (cases "(n, cs)" rule: tls_read.cases) (auto split: if_splits)

function read_loop :: "nat \<Rightarrow> byte list \<Rightarrow> tls_stream \<Rightarrow> (byte list \<times> tls_stream) io_result" where
  "read_loop n acc cs =
     (if length acc < n
      then
        (case tls_read (n - length acc) cs of
           Inl e \<Rightarrow> Inl e
         | Inr (c, cs) \<Rightarrow> if c = [] then Inr (acc, cs) else read_loop n (acc @ c) cs)
      else Inr (acc, cs))"
  by auto
termination
  by (relation "measure (\<lambda>(n, acc, cs). n - length acc)") (auto dest!: tls_read_length simp: neq_Nil_conv)

declare read_loop.simps [simp del]

definition tls_read_exact :: "nat \<Rightarrow> tls_stream \<Rightarrow> (byte list \<times> tls_stream) io_result" where
  "tls_read_exact n cs =
     res_bind (read_loop n [] cs) (\<lambda>(acc, cs).
       if length acc < n then Inl (IoError UnexpectedEof ''early eof'') else Inr (acc, cs))"

section \<open>The connection\<close>

text \<open>
  What becomes of a connection: an error, a relay to the configured target or to the host that the
  client asked for, each after the bytes read so far; nothing; a denial; or a session over the rest
  of the stream.
\<close>

datatype connection =
    ConnError io_error
  | RelayForward url_view "byte list" tls_stream
  | RelayProbe string "byte list" tls_stream
  | NoRelay
  | DeniedConn
  | Serving conn_ctx tls_stream

definition drop_ctx :: "authed_user option \<Rightarrow> registry \<Rightarrow> registry" where
  "drop_ctx user r = (case user of Some u \<Rightarrow> authed_drop u r | None \<Rightarrow> r)"

text \<open>The outcome of the first bytes.\<close>

definition connection_outcome :: "int \<Rightarrow> byte list \<Rightarrow> server \<Rightarrow> registry \<times> auth_outcome" where
  "connection_outcome now auth_data sv =
     (if length auth_data = 34
      then auth_authenticate now (sv_authenticator sv) (take 32 auth_data) (sv_registry sv)
      else (sv_registry sv, Rejected))"

text \<open>A client that did not authenticate.\<close>

definition refused :: "string option \<Rightarrow> string list \<Rightarrow> byte list \<Rightarrow> tls_stream \<Rightarrow> server \<Rightarrow> connection" where
  "refused server_name allowlist auth_data tls sv =
     (case sv_forward sv of
        Some target \<Rightarrow> RelayForward target auth_data tls
      | None \<Rightarrow>
          (case server_name of
             Some host \<Rightarrow> if sni_is_allowed host allowlist then RelayProbe host auth_data tls else NoRelay
           | None \<Rightarrow> NoRelay))"

text \<open>A client that did: its padding, its context and the first check of its approval.\<close>

definition read_client_id ::
    "(string \<Rightarrow> uuid option) \<Rightarrow> byte list \<Rightarrow> tls_stream \<Rightarrow> (uuid option \<times> tls_stream) io_result" where
  "read_client_id parse_str auth_data tls =
     (let padding_len = unat (get_u16 (drop 32 auth_data))
      in if 0 < padding_len
         then res_bind (tls_read_exact padding_len tls) (\<lambda>(padding_data, tls).
           Inr (extract_client_id_from_padding parse_str padding_data, tls))
         else Inr (None, tls))"

definition admitted ::
    "int \<Rightarrow> (string \<Rightarrow> uuid option) \<Rightarrow> bool \<Rightarrow> byte list \<Rightarrow> auth_outcome \<Rightarrow> tls_stream \<Rightarrow> server \<Rightarrow> server \<times> connection" where
  "admitted now parse_str panel_sync auth_data outcome tls sv =
     (let user = (case outcome of User u \<Rightarrow> Some u | _ \<Rightarrow> None);
          gone = sv\<lparr>sv_registry := drop_ctx user (sv_registry sv)\<rparr>
      in case read_client_id parse_str auth_data tls of
           Inl e \<Rightarrow> (gone, ConnError e)
         | Inr (client_id, tls) \<Rightarrow>
             (let ctx = \<lparr>cx_user = user, cx_client_id = client_id, cx_panel_sync_enabled = panel_sync\<rparr>
              in if \<not> ctx_approved now ctx (sv_registry sv, sv_audit sv) then (gone, DeniedConn)
                 else (sv, Serving ctx tls)))"

definition handle_connection ::
    "int \<Rightarrow> int \<Rightarrow> (string \<Rightarrow> uuid option) \<Rightarrow> string option \<Rightarrow> string list \<Rightarrow> bool \<Rightarrow>
     tls_stream \<Rightarrow> server \<Rightarrow> server \<times> connection" where
  "handle_connection now now' parse_str server_name allowlist panel_sync tls sv =
     (case read_loop 34 [] tls of
        Inl e \<Rightarrow> (sv, ConnError e)
      | Inr (auth_data, tls) \<Rightarrow>
          (case connection_outcome now auth_data sv of
             (r, outcome) \<Rightarrow>
               let sv = sv\<lparr>sv_registry := r\<rparr>
               in if outcome = Rejected then (sv, refused server_name allowlist auth_data tls sv)
                  else admitted now' parse_str panel_sync auth_data outcome tls sv))"

text \<open>The bytes that a target of a relay is sent first, and where it is.\<close>

definition relay_forward_target :: "url_view \<Rightarrow> (string \<times> bool) io_result" where
  "relay_forward_target url =
     (case uv_host url of
        None \<Rightarrow> Inl (error_other ''Forward target URL must include a host'')
      | Some host \<Rightarrow>
          (case uv_port_or_known_default url of
             None \<Rightarrow> Inl (error_other ''Forward target URL must include a port'')
           | Some port \<Rightarrow>
               (let target_addr = host @ '':'' @ show_nat (unat port)
                in if uv_scheme url = ''http'' then Inr (target_addr, False)
                   else if uv_scheme url = ''https'' then Inr (target_addr, True)
                   else Inl (error_other (''Unsupported forward target URL scheme: '' @ uv_scheme url)))))"

definition relay_probe_target :: "string \<Rightarrow> string" where
  "relay_probe_target target_host = target_host @ '':443''"

definition is_error_of_session_broken :: "io_error \<Rightarrow> bool" where
  "is_error_of_session_broken e \<longleftrightarrow> kind e = UnexpectedEof \<or> kind e = BrokenPipe"

section \<open>Lemmas\<close>

lemma tls_read_data:
  assumes "[] \<notin> set cs" "0 < n"
  shows "\<exists>cs'. tls_read n (map Inr cs) = Inr (take n (case cs of [] \<Rightarrow> [] | c # _ \<Rightarrow> c), map Inr cs') \<and>
    [] \<notin> set cs' \<and>
    (case cs of [] \<Rightarrow> [] | c # _ \<Rightarrow> take n c) @ concat cs' = concat cs"
proof (cases cs)
  case Nil
  then show ?thesis by simp
next
  case (Cons c ds)
  show ?thesis
  proof (cases "length c \<le> n")
    case True
    with Cons assms show ?thesis by (intro exI [of _ ds]) simp
  next
    case False
    with Cons assms show ?thesis by (intro exI [of _ "drop n c # ds"]) auto
  qed
qed

lemma read_loop_data:
  assumes "[] \<notin> set cs"
  shows "\<exists>cs'. read_loop n acc (map Inr cs) = Inr (acc @ take (n - length acc) (concat cs), map Inr cs') \<and>
    concat cs' = drop (n - length acc) (concat cs) \<and> [] \<notin> set cs'"
  using assms
proof (induction "n - length acc" arbitrary: acc cs rule: less_induct)
  case less
  show ?case
  proof (cases "length acc < n")
    case False
    with less.prems show ?thesis by (subst read_loop.simps) auto
  next
    case True
    define k where "k = n - length acc"
    have k: "0 < k" using True by (simp add: k_def)
    obtain cs1 where cs1: "tls_read k (map Inr cs) = Inr (take k (case cs of [] \<Rightarrow> [] | c # _ \<Rightarrow> c), map Inr cs1)"
      "[] \<notin> set cs1" "(case cs of [] \<Rightarrow> [] | c # _ \<Rightarrow> take k c) @ concat cs1 = concat cs"
      using tls_read_data [OF less.prems k] by blast
    show ?thesis
    proof (cases cs)
      case Nil
      with cs1 True show ?thesis by (subst read_loop.simps) (simp add: k_def)
    next
      case (Cons c ds)
      let ?c = "take k c"
      have ne: "?c \<noteq> []" using Cons less.prems k by auto
      have step: "read_loop n acc (map Inr cs) = read_loop n (acc @ ?c) (map Inr cs1)"
        using True cs1(1) Cons ne by (subst read_loop.simps) (simp add: k_def)
      have "n - length (acc @ ?c) < n - length acc" using True ne by (cases c) (auto simp: k_def)
      from less.hyps [OF this cs1(2)] obtain cs2 where
        cs2: "read_loop n (acc @ ?c) (map Inr cs1) =
            Inr ((acc @ ?c) @ take (n - length (acc @ ?c)) (concat cs1), map Inr cs2)"
          "concat cs2 = drop (n - length (acc @ ?c)) (concat cs1)" "[] \<notin> set cs2" by blast
      have whole: "concat cs = ?c @ concat cs1" using cs1(3) Cons by simp
      have len: "n - length (acc @ ?c) = k - length ?c" by (simp add: k_def)
      have "length ?c \<le> k" by simp
      then have "take k (concat cs) = ?c @ take (k - length ?c) (concat cs1)"
        "drop k (concat cs) = drop (k - length ?c) (concat cs1)"
        unfolding whole by (simp_all only: take_append drop_append) simp_all
      with cs2 step show ?thesis unfolding len by (intro exI [of _ cs2]) (simp add: k_def)
    qed
  qed
qed

text \<open>The count of a connection that is given up again.\<close>

lemma authenticate_drop:
  assumes "authenticate now h r = (r', Some u)"
  shows "authed_drop u r' = r"
proof -
  obtain a where "r' = upd_entry a (\<lambda>e. e\<lparr>ue_connections := ue_connections e + 1\<rparr>) r" "au_entry u = a"
    using assms by (auto simp: authenticate_def authed_user_new_def split: option.splits if_splits)
  then show ?thesis
    by (cases "a < length (rg_heap r)") (simp_all add: authed_drop_def upd_entry_def list_update_beyond)
qed

lemma authenticate_None: "authenticate now h r = (r', None) \<Longrightarrow> r' = r"
  by (auto simp: authenticate_def authed_user_new_def split: option.splits if_splits)

lemma auth_authenticate_drop:
  assumes "auth_authenticate now auth h r = (r', outcome)"
  shows "drop_ctx (case outcome of User u \<Rightarrow> Some u | _ \<Rightarrow> None) r' = r" "outcome = Rejected \<Longrightarrow> r' = r"
  using assms authenticate_drop [of now h r] authenticate_None [of now h r]
  by (auto simp: auth_authenticate_def drop_ctx_def split: authenticator.splits prod.splits option.splits if_splits)

section \<open>Properties\<close>

text \<open>A server with one shared password and nothing else, and one with the sample users.\<close>

definition sample_args :: server_args where
  "sample_args =
     \<lparr>sa_password = Some ''secret'', sa_padding_scheme = None, sa_outbound_proxy = None, sa_forward = None,
      sa_panel_webapi_url = None, sa_panel_webapi_token = None, sa_panel_node_id = None,
      sa_panel_update_interval_secs = None, sa_users_file = None, sa_api_bind_to = None, sa_api_token = None\<rparr>"

definition sample_node :: server where
  "sample_node =
     \<lparr>sv_authenticator = Users, sv_registry = with_users sample_sha sample_users, sv_audit = traffic_audit_new,
      sv_padding = None, sv_forward = None, sv_panel = None, sv_api_token = None\<rparr>"



lemma refused_connection:
  assumes "[] \<notin> set cs"
    and "length (concat cs) < 34 \<or>
      snd (auth_authenticate now (sv_authenticator sv) (take 32 (concat cs)) (sv_registry sv)) = Rejected"
  shows "\<exists>rest. concat rest = drop 34 (concat cs) \<and>
    handle_connection now now' parse_str server_name allowlist panel_sync (map Inr cs) sv =
      (sv, refused server_name allowlist (take 34 (concat cs)) (map Inr rest) sv)"
proof -
  obtain rest where rest: "read_loop 34 [] (map Inr cs) = Inr (take 34 (concat cs), map Inr rest)"
    "concat rest = drop 34 (concat cs)"
    using read_loop_data [OF assms(1), of 34 "[]"] by auto
  have "connection_outcome now (take 34 (concat cs)) sv = (sv_registry sv, Rejected)"
  proof (cases "length (concat cs) < 34")
    case False
    with assms(2) auth_authenticate_drop(2) [of now "sv_authenticator sv" "take 32 (concat cs)" "sv_registry sv"]
    show ?thesis
      by (cases "auth_authenticate now (sv_authenticator sv) (take 32 (concat cs)) (sv_registry sv)")
        (auto simp: connection_outcome_def)
  qed (simp add: connection_outcome_def)
  with rest show ?thesis by (auto simp: handle_connection_def)
qed

text \<open>
  C23. A refused client cannot tell the server from the host behind it. Whatever the client sends, and
  however it arrives: if it is too short to authenticate or does not authenticate, then nothing of the
  server changes, and the stream goes to the configured target, or else to the host the client named
  if the certificate is for it, or else it is dropped. What a relay passes on, the bytes already read
  and then the rest of the stream, is exactly what the client sent.
\<close>

theorem refused_is_relayed:
  assumes "[] \<notin> set cs"
    and "length (concat cs) < 34 \<or>
      snd (auth_authenticate now (sv_authenticator sv) (take 32 (concat cs)) (sv_registry sv)) = Rejected"
  shows "case handle_connection now now' parse_str server_name allowlist panel_sync (map Inr cs) sv of
      (sv', res) \<Rightarrow> sv' = sv \<and>
        (\<exists>seen rest. seen @ concat rest = concat cs \<and> length seen \<le> 34 \<and>
           res = (case sv_forward sv of
              Some target \<Rightarrow> RelayForward target seen (map Inr rest)
            | None \<Rightarrow>
                (case server_name of
                   Some host \<Rightarrow>
                     if sni_is_allowed host allowlist then RelayProbe host seen (map Inr rest) else NoRelay
                 | None \<Rightarrow> NoRelay)))"
proof -
  let ?a = "take 34 (concat cs)"
  from refused_connection [OF assms] obtain rest where
    "handle_connection now now' parse_str server_name allowlist panel_sync (map Inr cs) sv =
      (sv, refused server_name allowlist ?a (map Inr rest) sv)" "concat rest = drop 34 (concat cs)" by blast
  moreover from this(2) have "?a @ concat rest = concat cs" "length ?a \<le> 34" by simp_all
  ultimately show ?thesis by (simp add: refused_def) (intro exI [of _ ?a] exI [of _ rest], simp)
qed

theorem refused_is_relayed_witness:
  "\<exists>seen rest. snd (handle_connection 0 0 (\<lambda>_. None) (Some ''a.example'') [''A.Example''] False
       (map Inr [[71, 69, 84], [32, 47]]) sample_node) = RelayProbe ''a.example'' seen (map Inr rest) \<and>
     seen @ concat rest = [71, 69, 84, 32, 47]"
proof -
  have "sni_is_allowed ''a.example'' [''A.Example'']" by code_simp
  with refused_is_relayed [of "[[71, 69, 84], [32, 47]]" 0 sample_node,
      where now' = 0 and parse_str = "\<lambda>_. None" and server_name = "Some ''a.example''" and
      allowlist = "[''A.Example'']" and panel_sync = False]
  show ?thesis by (auto simp: sample_node_def split: prod.splits)
qed



end
