(* ===== verification/Mitm_Proxy.thy ===== *)
theory Mitm_Proxy
  imports Server
begin

text \<open>
  \<open>connect_via_mitm_proxy\<close> of \<open>src/src/client_runner.rs\<close>: asking an HTTP proxy for a tunnel. The
  response is read line by line through a buffer of 8192 bytes, which is given up together with what
  it still holds when the tunnel is ready.
\<close>

section \<open>Reading lines\<close>

type_synonym buffered = "byte list \<times> tls_stream"

definition LF :: byte where "LF = 10"

definition fill_buf :: "buffered \<Rightarrow> buffered io_result" where
  "fill_buf b = (if fst b = [] then tls_read 8192 (snd b) else Inr b)"

definition pending :: "buffered \<Rightarrow> nat" where
  "pending b = length (fst b) + (\<Sum>c \<leftarrow> snd b. case c of Inr bs \<Rightarrow> length bs | Inl _ \<Rightarrow> 0)"

lemma fill_buf_pending: "fill_buf b = Inr (avail, cs) \<Longrightarrow> pending (avail, cs) = pending b"
  by (cases b; cases "(8192 :: nat, snd b)" rule: tls_read.cases)
    (auto simp: fill_buf_def pending_def split: if_splits)

lemma pending_split: "pending (avail, cs) = length avail + pending ([], cs)"
  by (simp add: pending_def)

function read_line :: "byte list \<Rightarrow> buffered \<Rightarrow> (byte list \<times> buffered) io_result" where
  "read_line acc b =
     (case fill_buf b of
        Inl e \<Rightarrow> Inl e
      | Inr (avail, cs) \<Rightarrow>
          if LF \<in> set avail
          then
            (let used = Suc (length (takeWhile (\<lambda>x. x \<noteq> LF) avail))
             in Inr (acc @ take used avail, (drop used avail, cs)))
          else if avail = [] then Inr (acc, ([], cs))
          else read_line (acc @ avail) ([], cs))"
  by auto
termination
proof (relation "measure (\<lambda>(_, b). pending b)", goal_cases)
  case (2 acc b p avail cs)
  then have "pending (avail, cs) = pending b" by (intro fill_buf_pending) simp
  moreover have "0 < length avail" using 2(4) by simp
  ultimately have "pending ([], cs) < pending b" using pending_split [of avail cs] by linarith
  then show ?case by simp
qed simp

declare read_line.simps [simp del]

text \<open>\<open>read_line\<close> into a \<open>String\<close>.\<close>

definition read_text_line :: "buffered \<Rightarrow> (string \<times> buffered) io_result" where
  "read_text_line b =
     res_bind (read_line [] b) (\<lambda>(line, b).
       case from_utf8 line of
         None \<Rightarrow> Inl (IoError InvalidData ''stream did not contain valid UTF-8'')
       | Some s \<Rightarrow> Inr (s, b))"

lemma read_line_step:
  assumes "fill_buf b = Inr (avail, cs)"
  shows "LF \<in> set avail \<Longrightarrow> read_line acc b =
      (let used = Suc (length (takeWhile (\<lambda>x. x \<noteq> LF) avail)) in Inr (acc @ take used avail, (drop used avail, cs)))"
    "avail = [] \<Longrightarrow> read_line acc b = Inr (acc, ([], cs))"
    "LF \<notin> set avail \<Longrightarrow> avail \<noteq> [] \<Longrightarrow> read_line acc b = read_line (acc @ avail) ([], cs)"
  using assms by (subst read_line.simps, simp)+

lemma read_line_pending:
  "read_line acc b = Inr (line, b') \<Longrightarrow> length acc + pending b = length line + pending b'"
proof (induction acc b rule: read_line.induct)
  case (1 acc b)
  show ?case
  proof (cases "fill_buf b")
    case (Inl e)
    then have "read_line acc b = Inl e" by (subst read_line.simps) simp
    with "1.prems" show ?thesis by simp
  next
    case (Inr r)
    obtain avail cs where r: "r = (avail, cs)" by (cases r)
    note f = Inr [unfolded r]
    note p = fill_buf_pending [OF f]
    consider "LF \<in> set avail" | "avail = []" | "LF \<notin> set avail" "avail \<noteq> []" by blast
    then show ?thesis
    proof cases
      case lf: 1
      define used where "used = Suc (length (takeWhile (\<lambda>x. x \<noteq> LF) avail))"
      have eq: "line = acc @ take used avail" "b' = (drop used avail, cs)"
        using "1.prems" read_line_step(1) [OF f lf, of acc] by (simp_all add: used_def Let_def)
      have "length avail = length (take used avail) + length (drop used avail)"
        "length line = length acc + length (take used avail)" by (simp_all add: eq(1))
      with p pending_split [of avail cs] pending_split [of "drop used avail" cs] show ?thesis
        unfolding eq(2) by linarith
    next
      case 2
      then have "line = acc" "b' = ([], cs)" using "1.prems" read_line_step(2) [OF f 2, of acc] by simp_all
      with p 2 show ?thesis by simp
    next
      case 3
      then have "read_line (acc @ avail) ([], cs) = Inr (line, b')"
        using "1.prems" read_line_step(3) [OF f 3, of acc] by simp
      from "1.IH" [OF Inr r [symmetric] 3 this] p pending_split [of avail cs] show ?thesis
        unfolding length_append by linarith
    qed
  qed
qed

lemma read_text_line_Inr:
  assumes "read_text_line b = Inr (line, b')"
  shows "read_line [] b = Inr (as_bytes line, b')"
proof (cases "read_line [] b")
  case (Inr r)
  with assms show ?thesis
    by (cases r) (auto simp: read_text_line_def from_utf8_def split: if_splits)
qed (use assms in \<open>simp add: read_text_line_def\<close>)

section \<open>The tunnel\<close>

function skip_headers :: "buffered \<Rightarrow> buffered io_result" where
  "skip_headers b =
     (case read_text_line b of
        Inl e \<Rightarrow> Inl e
      | Inr (line, b') \<Rightarrow>
          if line = [] \<or> line = [CHR 0x0D, CHR 0x0A] \<or> line = [CHR 0x0A] then Inr b' else skip_headers b')"
  by auto
termination
proof (relation "measure pending", goal_cases)
  case (2 b p line b')
  have "read_text_line b = Inr (line, b')" using 2(1,2) by simp
  then have "pending b = length line + pending b'"
    using read_line_pending [OF read_text_line_Inr] by (simp add: as_bytes_def)
  moreover have "0 < length line" using 2(3) by simp
  ultimately show ?case by simp
qed simp

declare skip_headers.simps [simp del]

definition crlf :: string where "crlf = [CHR 0x0D, CHR 0x0A]"

definition connect_request :: "string \<Rightarrow> string" where
  "connect_request target =
     ''CONNECT '' @ target @ '' HTTP/1.1'' @ crlf @ ''Host: '' @ target @ crlf @ ''Proxy-Connection: Keep-Alive'' @ crlf @ crlf"

text \<open>The bytes sent to the proxy and the stream that is left of its answer.\<close>

definition connect_via_mitm_proxy ::
    "string \<Rightarrow> unit io_result \<Rightarrow> unit io_result \<Rightarrow> tls_stream \<Rightarrow> (byte list \<times> tls_stream) io_result" where
  "connect_via_mitm_proxy target connected written answer =
     res_bind connected (\<lambda>_. res_bind written (\<lambda>_.
       res_bind (read_text_line ([], answer)) (\<lambda>(status_line, b).
         if take 12 status_line \<noteq> ''HTTP/1.1 200'' \<and> take 12 status_line \<noteq> ''HTTP/1.0 200''
         then Inl (error_other (''HTTP proxy CONNECT failed: '' @ trim_end status_line))
         else res_bind (skip_headers b) (\<lambda>b. Inr (as_bytes (connect_request target), snd b)))))"

section \<open>Lines of a stream that arrives in pieces\<close>

lemma fill_buf_data:
  assumes "[] \<notin> set cs" "buf @ concat cs \<noteq> []"
  shows "\<exists>avail ds. fill_buf (buf, map Inr (cs @ more_cs)) = Inr (avail, map Inr (ds @ more_cs)) \<and>
    avail \<noteq> [] \<and> avail @ concat ds = buf @ concat cs \<and> [] \<notin> set ds"
proof (cases "buf = []")
  case True
  then obtain c ds where cs: "cs = c # ds" using assms(2) by (cases cs) auto
  show ?thesis
  proof (cases "length c \<le> 8192")
    case False
    with True cs assms(1) show ?thesis
      by (intro exI [of _ "take 8192 c"] exI [of _ "drop 8192 c # ds"]) (auto simp: fill_buf_def)
  qed (use True cs assms in \<open>auto simp: fill_buf_def\<close>)
next
  case False
  with assms(1) show ?thesis by (intro exI [of _ buf] exI [of _ cs]) (simp add: fill_buf_def)
qed

lemma split_at_LF:
  assumes "avail @ x = l @ LF # t" "LF \<notin> set l"
  shows "LF \<in> set avail \<Longrightarrow> \<exists>a. avail = l @ LF # a \<and> t = a @ x"
    "LF \<notin> set avail \<Longrightarrow> \<exists>l'. l = avail @ l' \<and> x = l' @ LF # t"
  using assms by (auto simp: append_eq_append_conv2 append_eq_Cons_conv)

lemma read_line_data:
  assumes "[] \<notin> set cs" "buf @ concat cs = l @ LF # t" "LF \<notin> set l"
  shows "\<exists>buf' cs'. read_line acc (buf, map Inr (cs @ more_cs)) =
      Inr (acc @ l @ [LF], (buf', map Inr (cs' @ more_cs))) \<and> buf' @ concat cs' = t \<and> [] \<notin> set cs'"
  using assms
proof (induction "length l" arbitrary: acc buf cs l rule: less_induct)
  case less
  have "buf @ concat cs \<noteq> []" using less.prems(2) by simp
  from fill_buf_data [OF less.prems(1) this, of more_cs] obtain avail ds where
    f: "fill_buf (buf, map Inr (cs @ more_cs)) = Inr (avail, map Inr (ds @ more_cs))" and
    a: "avail \<noteq> []" "avail @ concat ds = buf @ concat cs" "[] \<notin> set ds" by blast
  have eq: "avail @ concat ds = l @ LF # t" using a(2) less.prems(2) by simp
  show ?case
  proof (cases "LF \<in> set avail")
    case True
    then obtain y where y: "avail = l @ LF # y" "t = y @ concat ds" using split_at_LF(1) [OF eq less.prems(3)] by blast
    have "takeWhile (\<lambda>x. x \<noteq> LF) avail = l"
      unfolding y(1) using less.prems(3) by (subst takeWhile_append2) auto
    then have "read_line acc (buf, map Inr (cs @ more_cs)) = Inr (acc @ l @ [LF], (y, map Inr (ds @ more_cs)))"
      using read_line_step(1) [OF f True, of acc] y(1) by simp
    with y(2) a(3) show ?thesis by blast
  next
    case False
    then obtain l' where l': "l = avail @ l'" "concat ds = l' @ LF # t" using split_at_LF(2) [OF eq less.prems(3)] by blast
    have "length l' < length l" "LF \<notin> set l'" "[] @ concat ds = l' @ LF # t"
      using l' a(1) less.prems(3) by auto
    from less.hyps [OF this(1) a(3) this(3,2), of "acc @ avail"] read_line_step(3) [OF f False a(1), of acc] l'(1)
    show ?thesis by auto
  qed
qed

definition text_header :: "string \<Rightarrow> bool" where
  "text_header l \<longleftrightarrow> is_ascii l \<and> CHR 0x0A \<notin> set l"

lemma crlf_bytes: "as_bytes crlf = [13, LF]"
  by (simp add: crlf_def as_bytes_def LF_def byte_of_char_def)

lemma text_header_line:
  assumes "text_header l"
  shows "as_bytes (l @ crlf) = (as_bytes l @ [13]) @ [LF]" "LF \<notin> set (as_bytes l @ [13])"
    "from_utf8 (as_bytes (l @ crlf)) = Some (l @ crlf)"
proof -
  have LF: "LF = byte_of_char (CHR 0x0A)" by (simp add: LF_def byte_of_char_def)
  show "LF \<notin> set (as_bytes l @ [13])"
    using assms by (auto simp: text_header_def as_bytes_def LF) (simp add: byte_of_char_def)
  show "as_bytes (l @ crlf) = (as_bytes l @ [13]) @ [LF]" using crlf_bytes by (simp add: as_bytes_def)
  have "is_ascii (l @ crlf)" using assms by (simp add: text_header_def crlf_def)
  then have "utf8_valid (as_bytes (l @ crlf))" by (rule utf8_valid_ascii)
  moreover have "of_bytes (as_bytes (l @ crlf)) = l @ crlf" by (rule of_bytes_as_bytes)
  ultimately show "from_utf8 (as_bytes (l @ crlf)) = Some (l @ crlf)"
    unfolding from_utf8_def by (simp only: if_True)
qed

lemma read_text_line_fill:
  assumes "fill_buf b = Inr (as_bytes (l @ crlf) @ y, cs)" "text_header l"
  shows "read_text_line b = Inr (l @ crlf, (y, cs))"
proof -
  note h = text_header_line [OF assms(2)]
  have "takeWhile (\<lambda>x. x \<noteq> LF) (((as_bytes l @ [13]) @ [LF]) @ y) = as_bytes l @ [13]"
    using h(2) by (subst append_assoc, subst takeWhile_append2) auto
  then have "read_line [] b = Inr (as_bytes (l @ crlf), (y, cs))"
    using read_line_step(1) [OF assms(1), of "[]"] unfolding h(1) by simp
  then show ?thesis using h(3) unfolding read_text_line_def by (simp only: res_bind_simps prod.case option.case)
qed

lemma read_text_line_data:
  assumes "[] \<notin> set cs" "buf @ concat cs = as_bytes (l @ crlf) @ t" "text_header l"
  shows "\<exists>buf' cs'. read_text_line (buf, map Inr (cs @ more_cs)) = Inr (l @ crlf, (buf', map Inr (cs' @ more_cs))) \<and>
    buf' @ concat cs' = t \<and> [] \<notin> set cs'"
proof -
  note h = text_header_line [OF assms(3)]
  have "buf @ concat cs = (as_bytes l @ [13]) @ LF # t" using assms(2) unfolding h(1) by simp
  from read_line_data [OF assms(1) this h(2), of "[]" more_cs] obtain buf' cs' where
    r: "read_line [] (buf, map Inr (cs @ more_cs)) = Inr (as_bytes (l @ crlf), (buf', map Inr (cs' @ more_cs)))"
      "buf' @ concat cs' = t" "[] \<notin> set cs'" unfolding h(1) by auto
  then show ?thesis
    using h(3) unfolding read_text_line_def by (simp only: res_bind_simps prod.case option.case) blast
qed

lemma skip_headers_data:
  assumes "[] \<notin> set cs" "buf @ concat cs = as_bytes (concat (map (\<lambda>h. h @ crlf) headers) @ crlf)"
    and "list_all (\<lambda>h. text_header h \<and> h \<noteq> []) headers"
  shows "skip_headers (buf, map Inr (cs @ more_cs)) = Inr ([], map Inr more_cs)"
  using assms
proof (induction headers arbitrary: buf cs)
  case Nil
  then have "buf @ concat cs = as_bytes ([] @ crlf) @ []" "text_header []" by (simp_all add: text_header_def)
  from read_text_line_data [OF Nil.prems(1) this, of more_cs] obtain buf' cs' where
    r: "read_text_line (buf, map Inr (cs @ more_cs)) = Inr (crlf, (buf', map Inr (cs' @ more_cs)))"
      "buf' = []" "concat cs' = []" "[] \<notin> set cs'" by auto
  then have "cs' = []" by (cases cs') auto
  with r show ?case by (subst skip_headers.simps) (simp add: crlf_def)
next
  case (Cons h headers)
  then have "buf @ concat cs = as_bytes (h @ crlf) @ as_bytes (concat (map (\<lambda>h. h @ crlf) headers) @ crlf)" "text_header h"
    by (simp_all add: as_bytes_def)
  from read_text_line_data [OF Cons.prems(1) this, of more_cs] obtain buf' cs' where
    r: "read_text_line (buf, map Inr (cs @ more_cs)) = Inr (h @ crlf, (buf', map Inr (cs' @ more_cs)))"
      "buf' @ concat cs' = as_bytes (concat (map (\<lambda>h. h @ crlf) headers) @ crlf)" "[] \<notin> set cs'" by blast
  have "h @ crlf \<noteq> [] \<and> h @ crlf \<noteq> [CHR 0x0D, CHR 0x0A] \<and> h @ crlf \<noteq> [CHR 0x0A]"
    using Cons.prems(3) by (auto simp: crlf_def append_eq_Cons_conv)
  then have "skip_headers (buf, map Inr (cs @ more_cs)) = skip_headers (buf', map Inr (cs' @ more_cs))"
    using r(1) by (subst skip_headers.simps) auto
  with Cons.IH [OF r(3,2)] Cons.prems(3) show ?case by simp
qed

section \<open>Properties\<close>

text \<open>
  C35. The tunnel through a proxy. When the proxy answers with a status and headers, in whatever
  pieces they arrive, the tunnel is opened exactly for status 200, with the whole answer consumed;
  and what the proxy sends after it, in pieces of its own, is left for the connection.
\<close>

theorem mitm_tunnel:
  assumes "[] \<notin> set cs" "concat cs = as_bytes (status @ crlf @ concat (map (\<lambda>h. h @ crlf) headers) @ crlf)"
    and "text_header status" "list_all (\<lambda>h. text_header h \<and> h \<noteq> []) headers"
  shows "connect_via_mitm_proxy target (Inr ()) (Inr ()) (map Inr (cs @ tunnel)) =
    (if take 12 (status @ crlf) \<in> {''HTTP/1.1 200'', ''HTTP/1.0 200''}
     then Inr (as_bytes (connect_request target), map Inr tunnel)
     else Inl (error_other (''HTTP proxy CONNECT failed: '' @ trim_end (status @ crlf))))"
proof -
  have "[] @ concat cs = as_bytes (status @ crlf) @ as_bytes (concat (map (\<lambda>h. h @ crlf) headers) @ crlf)"
    using assms(2) by (simp add: as_bytes_def)
  from read_text_line_data [OF assms(1) this assms(3), of tunnel] obtain buf' cs' where
    r: "read_text_line ([], map Inr (cs @ tunnel)) = Inr (status @ crlf, (buf', map Inr (cs' @ tunnel)))"
      "buf' @ concat cs' = as_bytes (concat (map (\<lambda>h. h @ crlf) headers) @ crlf)" "[] \<notin> set cs'" by blast
  from skip_headers_data [OF r(3,2) assms(4), of tunnel] r(1) show ?thesis
    by (simp add: connect_via_mitm_proxy_def)
qed

theorem mitm_tunnel_witness:
  "connect_via_mitm_proxy ''a:443'' (Inr ()) (Inr ())
     (map Inr ([as_bytes (''HTTP/1.1 200 OK'' @ crlf @ crlf)] @ [[22, 3, 3]])) =
   Inr (as_bytes (connect_request ''a:443''), map Inr [[22, 3, 3]])"
proof -
  have "text_header ''HTTP/1.1 200 OK''" by (simp add: text_header_def)
  from mitm_tunnel [of "[as_bytes (''HTTP/1.1 200 OK'' @ crlf @ crlf)]" "''HTTP/1.1 200 OK''" "[]" "''a:443''" "[[22, 3, 3]]",
      OF _ _ this] show ?thesis
    by (simp add: as_bytes_def crlf_def)
qed

text \<open>What arrives in one piece with the end of the answer is dropped with the buffer.\<close>

lemma mitm_drops_buffered:
  assumes "length bs \<le> 8000"
  shows "connect_via_mitm_proxy target (Inr ()) (Inr ()) [Inr (as_bytes (''HTTP/1.1 200 OK'' @ crlf @ crlf) @ bs)] =
    Inr (as_bytes (connect_request target), [])"
proof -
  have "fill_buf ([], [Inr (as_bytes (''HTTP/1.1 200 OK'' @ crlf @ crlf) @ bs)]) =
      Inr (as_bytes (''HTTP/1.1 200 OK'' @ crlf) @ as_bytes ([] @ crlf) @ bs, [])"
    using assms by (simp add: fill_buf_def as_bytes_def crlf_def)
  from read_text_line_fill [OF this] have
    "read_text_line ([], [Inr (as_bytes (''HTTP/1.1 200 OK'' @ crlf @ crlf) @ bs)]) =
      Inr (''HTTP/1.1 200 OK'' @ crlf, (as_bytes ([] @ crlf) @ bs, []))"
    by (simp add: text_header_def)
  moreover have "read_text_line (as_bytes ([] @ crlf) @ bs, []) = Inr ([] @ crlf, (bs, []))"
    by (rule read_text_line_fill) (simp_all add: fill_buf_def as_bytes_def crlf_def text_header_def)
  then have "skip_headers (as_bytes ([] @ crlf) @ bs, []) = Inr (bs, [])"
    by (subst skip_headers.simps) (simp add: crlf_def)
  ultimately show ?thesis by (simp add: connect_via_mitm_proxy_def crlf_def)
qed

end
