(* ===== verification/Trojan_Killer.thy ===== *)
theory Trojan_Killer
  imports Mitm_Proxy
begin

text \<open>
  \<open>src/examples/trojan-killer.rs\<close>, the auditing proxy that a client can be sent through: its parser of
  \<open>CONNECT\<close> requests, its answer, and the detector that watches the sizes of the first exchange. The
  requests it parses are the ones of \<open>connect_via_mitm_proxy\<close>.
\<close>

section \<open>The request\<close>

text \<open>\<open>split_whitespace\<close>: the next part of a text, and what follows it; no part is the empty text.\<close>

fun take_word :: "string \<Rightarrow> string" where
  "take_word [] = []"
| "take_word (c # s) = (if find_start (map of_bytes white_spaces) (c # s) = None then c # take_word s else [])"

definition next_part :: "string \<Rightarrow> string \<times> string" where
  "next_part s = (let s = trim_start s; w = take_word s in (w, drop (length w) s))"

definition read_request :: "tls_stream \<Rightarrow> (string \<times> string \<times> buffered) io_result" where
  "read_request stream =
     res_bind (read_text_line ([], stream)) (\<lambda>(first_line, reader).
       if first_line = [] then Inl (IoError UnexpectedEof ''empty request'')
       else
         (case next_part first_line of (method, parts) \<Rightarrow>
            case next_part parts of (target, _) \<Rightarrow>
              res_bind (skip_headers reader) (\<lambda>reader. Inr (method, target, reader))))"

definition probe_reply :: "byte list" where
  "probe_reply = as_bytes (''HTTP/1.1 200 Connection established'' @ crlf @ crlf)"

datatype probe_next = ProbeRejected | ProbeFailed io_error | ProbeRelay string "byte list" buffered

definition probe_handle :: "tls_stream \<Rightarrow> unit io_result \<Rightarrow> unit io_result \<Rightarrow> probe_next" where
  "probe_handle stream connected written =
     (case read_request stream of
        Inl e \<Rightarrow> ProbeFailed e
      | Inr (method, target_host, reader) \<Rightarrow>
          if \<not> eq_ignore_ascii_case method ''CONNECT'' then ProbeRejected
          else
            (case res_bind connected (\<lambda>_. written) of
               Inl e \<Rightarrow> ProbeFailed e
             | Inr _ \<Rightarrow> ProbeRelay target_host probe_reply reader))"

section \<open>The detector\<close>

record probe_state =
  uploading :: bool
  up_count :: nat
  downloading :: bool
  down_count :: nat

definition probe_state_default :: probe_state where
  "probe_state_default = \<lparr>uploading = False, up_count = 0, downloading = False, down_count = 0\<rparr>"

definition CCS :: "byte list" where
  "CCS = [20, 3, 3, 0, 1, 1]"

definition trojan_sizes :: "nat \<Rightarrow> nat \<Rightarrow> bool" where
  "trojan_sizes up down \<longleftrightarrow>
     650 \<le> up \<and> up \<le> 750 \<and> (170 \<le> down \<and> down \<le> 180 \<or> 3000 \<le> down \<and> down \<le> 7500)"

text \<open>A piece from the client, with whether a line is printed, and a piece from the server.\<close>

definition probe_up :: "byte list \<Rightarrow> probe_state \<Rightarrow> probe_state \<times> bool" where
  "probe_up buf state =
     (let state =
            (if up_count state = 0 \<and> 6 \<le> length buf \<and> take 6 buf = CCS then state\<lparr>uploading := True\<rparr> else state);
          state = (if uploading state then state\<lparr>up_count := up_count state + length buf\<rparr> else state)
      in if downloading state
         then (state\<lparr>downloading := False\<rparr>, trojan_sizes (up_count state) (down_count state))
         else (state, False))"

definition probe_down :: "byte list \<Rightarrow> probe_state \<Rightarrow> probe_state" where
  "probe_down buf state =
     (let state = (if uploading state then state\<lparr>uploading := False, downloading := True\<rparr> else state)
      in if downloading state then state\<lparr>down_count := down_count state + length buf\<rparr> else state)"

datatype probe_event = Upload "byte list" | Download "byte list"

text \<open>The state after a run, and how many lines it has printed.\<close>

fun probe_run :: "probe_event list \<Rightarrow> probe_state \<times> nat \<Rightarrow> probe_state \<times> nat" where
  "probe_run [] st = st"
| "probe_run (Upload buf # es) st =
     (case probe_up buf (fst st) of (state, trojan) \<Rightarrow> probe_run es (state, snd st + (if trojan then 1 else 0)))"
| "probe_run (Download buf # es) st = probe_run es (probe_down buf (fst st), snd st)"

section \<open>Lemmas\<close>

lemma graphic_no_space:
  assumes "graphic c"
  shows "find_start (map of_bytes white_spaces) (c # s) = None"
proof (rule find_start_None)
  show "list_all (\<lambda>w. w = [] \<or> hd w \<noteq> hd (c # s)) (map of_bytes white_spaces)"
    using assms by (auto simp: white_spaces_def of_bytes_def byte_of_char_eq graphic_def)
qed simp

lemma space_found: "find_start (map of_bytes white_spaces) (CHR '' '' # s) = Some 1"
proof -
  have "CHR '' '' = char_of_byte b \<longleftrightarrow> b = 32" for b
    using byte_of_char_eq [of b "CHR '' ''"] by (auto simp: byte_of_char_def)
  then show ?thesis by (simp add: white_spaces_def of_bytes_def)
qed

lemma take_word_graphic: "list_all graphic w \<Longrightarrow> take_word (w @ CHR '' '' # s) = w"
  by (induction w) (simp_all add: graphic_no_space space_found)

lemma next_part_word:
  assumes "list_all graphic w" "w \<noteq> []"
  shows "next_part (w @ CHR '' '' # s) = (w, CHR '' '' # s)" "next_part (CHR '' '' # w @ CHR '' '' # s) = (w, CHR '' '' # s)"
proof -
  have t: "trim_start (w @ CHR '' '' # s) = w @ CHR '' '' # s"
    using assms graphic_no_space by (cases w) (simp_all add: trim_start_def drop_starts_id)
  moreover have "trim_start (CHR '' '' # w @ CHR '' '' # s) = trim_start (w @ CHR '' '' # s)"
    unfolding trim_start_def by (subst drop_starts.simps) (simp add: space_found)
  ultimately show "next_part (w @ CHR '' '' # s) = (w, CHR '' '' # s)"
    "next_part (CHR '' '' # w @ CHR '' '' # s) = (w, CHR '' '' # s)"
    using take_word_graphic [OF assms(1), of s] by (simp_all add: next_part_def)
qed

lemma graphic_header:
  assumes "list_all graphic w"
  shows "is_ascii w" "CHR 0x0A \<notin> set w"
proof -
  show "is_ascii w"
    using assms by (auto simp: is_ascii_def list_all_iff graphic_def byte_of_char_def word_less_nat_alt unat_of_nat)
  have "\<not> graphic (CHR 0x0A)" by (simp add: graphic_def byte_of_char_def)
  with assms show "CHR 0x0A \<notin> set w" by (auto simp: list_all_iff)
qed

lemma probe_reads_request:
  assumes "[] \<notin> set cs" "concat cs = as_bytes (connect_request target)" "list_all graphic target" "target \<noteq> []"
  shows "read_request (map Inr (cs @ up)) = Inr (''CONNECT'', target, ([], map Inr up))"
proof -
  let ?line = "''CONNECT '' @ target @ '' HTTP/1.1''"
  let ?headers = "[''Host: '' @ target, ''Proxy-Connection: Keep-Alive'']"
  have g: "list_all graphic ''CONNECT''" by (simp add: graphic_def byte_of_char_def)
  have h: "text_header ?line" "list_all (\<lambda>h. text_header h \<and> h \<noteq> []) ?headers"
    using graphic_header [OF assms(3)] by (simp_all add: text_header_def is_ascii_def)
  have "[] @ concat cs = as_bytes (?line @ crlf) @ as_bytes (concat (map (\<lambda>h. h @ crlf) ?headers) @ crlf)"
    using assms(2) by (simp add: connect_request_def as_bytes_def)
  from read_text_line_data [OF assms(1) this h(1), of up] obtain buf cs' where
    r: "read_text_line ([], map Inr (cs @ up)) = Inr (?line @ crlf, (buf, map Inr (cs' @ up)))"
      "buf @ concat cs' = as_bytes (concat (map (\<lambda>h. h @ crlf) ?headers) @ crlf)" "[] \<notin> set cs'" by blast
  have p: "next_part (?line @ crlf) = (''CONNECT'', CHR '' '' # target @ '' HTTP/1.1'' @ crlf)"
    using next_part_word(1) [OF g, of "target @ '' HTTP/1.1'' @ crlf"] by simp
  have q: "next_part (CHR '' '' # target @ '' HTTP/1.1'' @ crlf) = (target, '' HTTP/1.1'' @ crlf)"
    using next_part_word(2) [OF assms(3,4), of "''HTTP/1.1'' @ crlf"] by simp
  show ?thesis
    unfolding read_request_def r(1) res_bind_simps prod.case p q skip_headers_data [OF r(3,2) h(2)] by simp
qed

lemma probe_run_append: "probe_run (es @ fs) st = probe_run fs (probe_run es st)"
  by (induction es st rule: probe_run.induct) (simp_all split: prod.split)

section \<open>Properties\<close>

text \<open>
  The client's tunnel and the auditing proxy fit together. The request the client sends, in
  whatever pieces it arrives, is accepted for the target the client named, with nothing of it left and
  nothing of what follows it taken; and the answer, again in any pieces, opens the client's tunnel.
\<close>

theorem probe_serves_client:
  assumes "[] \<notin> set cs" "concat cs = as_bytes (connect_request target)" "list_all graphic target" "target \<noteq> []"
    and "[] \<notin> set rs" "concat rs = probe_reply"
  shows "probe_handle (map Inr (cs @ up)) (Inr ()) (Inr ()) = ProbeRelay target probe_reply ([], map Inr up) \<and>
    connect_via_mitm_proxy target (Inr ()) (Inr ()) (map Inr (rs @ down)) =
      Inr (as_bytes (connect_request target), map Inr down)"
proof -
  let ?status = "''HTTP/1.1 200 Connection established''"
  have "[] @ concat rs = as_bytes (?status @ crlf) @ as_bytes (concat (map (\<lambda>h. h @ crlf) []) @ crlf)" "text_header ?status"
    using assms(6) by (simp_all add: probe_reply_def as_bytes_def text_header_def)
  from read_text_line_data [OF assms(5) this, of down] obtain buf cs' where
    r: "read_text_line ([], map Inr (rs @ down)) = Inr (?status @ crlf, (buf, map Inr (cs' @ down)))"
      "buf @ concat cs' = as_bytes (concat (map (\<lambda>h. h @ crlf) []) @ crlf)" "[] \<notin> set cs'" by blast
  have "connect_via_mitm_proxy target (Inr ()) (Inr ()) (map Inr (rs @ down)) =
      Inr (as_bytes (connect_request target), map Inr down)"
    using r(1) skip_headers_data [OF r(3,2), of down] by (simp add: connect_via_mitm_proxy_def)
  with probe_reads_request [OF assms(1-4), of up] show ?thesis
    by (simp add: probe_handle_def eq_ignore_ascii_case_equiv(1))
qed

theorem probe_serves_client_witness:
  "probe_handle (map Inr ([as_bytes (connect_request ''a:443'')] @ [[20, 3]])) (Inr ()) (Inr ()) =
     ProbeRelay ''a:443'' probe_reply ([], map Inr [[20, 3]])"
proof -
  have "as_bytes (connect_request ''a:443'') \<noteq> []" "probe_reply \<noteq> []" "list_all graphic ''a:443''"
    by (simp_all add: connect_request_def probe_reply_def as_bytes_def graphic_def byte_of_char_def)
  with probe_serves_client [of "[as_bytes (connect_request ''a:443'')]" "''a:443''" "[probe_reply]" "[[20, 3]]"]
  show ?thesis by simp
qed

text \<open>Sizes of a run of pieces, and the pieces that do not start the detector.\<close>

definition total :: "byte list list \<Rightarrow> nat" where
  "total bss = sum_list (map length bss)"

fun quiet :: "probe_event \<Rightarrow> bool" where
  "quiet (Upload buf) \<longleftrightarrow> length buf < 6 \<or> take 6 buf \<noteq> CCS"
| "quiet (Download buf) \<longleftrightarrow> True"

lemma quiet_start: "list_all quiet es \<Longrightarrow> probe_run es (probe_state_default, n) = (probe_state_default, n)"
  by (induction es rule: list.induct)
    (auto simp: probe_state_default_def probe_up_def probe_down_def elim!: quiet.elims)

lemma uploads_counted:
  assumes "uploading st" "\<not> downloading st"
  shows "probe_run (map Upload bss) (st, n) = (st\<lparr>up_count := up_count st + total bss\<rparr>, n)"
  using assms by (induction bss arbitrary: st) (simp_all add: probe_up_def total_def)

lemma downloads_counted:
  assumes "\<not> uploading st" "downloading st"
  shows "probe_run (map Download bss) (st, n) = (st\<lparr>down_count := down_count st + total bss\<rparr>, n)"
  using assms by (induction bss arbitrary: st) (simp_all add: probe_down_def total_def)

lemma detector_done:
  assumes "\<not> uploading st" "\<not> downloading st" "up_count st \<noteq> 0"
  shows "probe_run es (st, n) = (st, n)"
  using assms by (induction es "(st, n)" rule: probe_run.induct) (simp_all add: probe_up_def probe_down_def)

text \<open>
  C36. What the detector reports. It watches one exchange per connection: from the first piece of the
  client that begins with the change-cipher-spec record, the pieces of the client up to the first
  piece of the server, and then the pieces of the server up to the next of the client. Whatever comes
  before and after, it reports the connection exactly when these two sizes are in the ranges of a
  Trojan handshake, and it reports it once.
\<close>

theorem detector_verdict:
  assumes "list_all quiet before" "6 \<le> length up" "take 6 up = CCS" "downs \<noteq> []"
  shows "snd (probe_run (before @ map Upload (up # ups) @ map Download downs @ Upload next_up # rest) (probe_state_default, 0)) =
    (if trojan_sizes (total (up # ups)) (total downs) then 1 else 0)"
proof -
  let ?s1 = "\<lparr>uploading = True, up_count = length up, downloading = False, down_count = 0\<rparr>"
  let ?s2 = "\<lparr>uploading = True, up_count = total (up # ups), downloading = False, down_count = 0\<rparr>"
  let ?s3 = "\<lparr>uploading = False, up_count = total (up # ups), downloading = True, down_count = total downs\<rparr>"
  obtain d ds where d: "downs = d # ds" using assms(4) by (cases downs) auto
  have up: "probe_up up probe_state_default = (?s1, False)"
    using assms(2,3) by (simp add: probe_up_def probe_state_default_def)
  have burst: "probe_run (map Upload (up # ups)) (probe_state_default, 0) = (?s2, 0)"
    using uploads_counted [of ?s1 ups 0] by (simp add: up total_def)
  have "probe_down d ?s2 = ?s3\<lparr>down_count := length d\<rparr>" by (simp add: probe_down_def)
  then have down: "probe_run (map Download downs) (?s2, 0) = (?s3, 0)"
    using downloads_counted [of "?s3\<lparr>down_count := length d\<rparr>" ds 0] by (simp add: d total_def)
  have pos: "total (up # ups) \<noteq> 0" using assms(2) by (auto simp: total_def)
  then have verdict: "probe_up next_up ?s3 = (?s3\<lparr>downloading := False\<rparr>, trojan_sizes (total (up # ups)) (total downs))"
    by (simp add: probe_up_def)
  show ?thesis
    unfolding probe_run_append quiet_start [OF assms(1)] burst down
    using pos by (simp add: verdict detector_done)
qed

theorem detector_verdict_witness:
  "snd (probe_run ([Upload [22, 3, 1], Download [22]] @ map Upload (CCS # [replicate 650 0]) @ map Download [replicate 175 0] @
      Upload [23] # [Download [23]]) (probe_state_default, 0)) = 1"
  using detector_verdict [of "[Upload [22, 3, 1], Download [22]]" CCS "[replicate 175 0]" "[replicate 650 0]" "[23]" "[Download [23]]"]
  by (simp add: CCS_def trojan_sizes_def total_def)

end
