(* ===== verification/Stream_Io.thy ===== *)
theory Stream_Io
  imports Pipe Uot
begin

text \<open>
  The adapters that make a stream readable with \<open>AsyncRead\<close>: \<open>StreamReader\<close>, of which
  \<open>src/bin/server.rs\<close> and \<open>src/src/client_runner.rs\<close> each have a copy, and \<open>StreamRw\<close> of the latter.
  An adapter keeps the future of a read that was not ready, together with the buffer this read was
  started with; a later poll goes on with it, whatever buffer it is given. Copying more into a buffer
  than it has room for is a panic. A future that reads a packet asks an adapter for the bytes that
  are missing; when it is dropped, the bytes it already has are dropped with it.
\<close>

section \<open>Polling a read\<close>

datatype 'a poll = Ready 'a | Pending

datatype polled = Polled "byte list io_result poll" | PollPanic

definition inner_poll :: "nat \<Rightarrow> pipe_inner \<Rightarrow> pipe_inner \<times> byte list io_result poll" where
  "inner_poll k p =
     (case pipe_get k False p of (p', None) \<Rightarrow> (p', Pending) | (p', Some r) \<Rightarrow> (p', Ready r))"

definition put_slice :: "nat \<Rightarrow> byte list \<Rightarrow> polled" where
  "put_slice room bs = (if length bs \<le> room then Polled (Ready (Inr bs)) else PollPanic)"

record stream_reader =
  sr_pipe :: pipe_inner
  sr_read_fut :: "nat option"

definition stream_reader_new :: "pipe_inner \<Rightarrow> stream_reader" where
  "stream_reader_new p = \<lparr>sr_pipe = p, sr_read_fut = None\<rparr>"

text \<open>The loop of the server's \<open>poll_read\<close>; its second round always has a future to poll.\<close>

function reader_poll_read :: "nat \<Rightarrow> stream_reader \<Rightarrow> stream_reader \<times> polled" where
  "reader_poll_read room r =
     (case sr_read_fut r of
        Some k \<Rightarrow>
          (case inner_poll k (sr_pipe r) of
             (p, Ready (Inr bs)) \<Rightarrow> (r\<lparr>sr_pipe := p, sr_read_fut := None\<rparr>, put_slice room bs)
           | (p, Ready (Inl e)) \<Rightarrow> (r\<lparr>sr_pipe := p, sr_read_fut := None\<rparr>, Polled (Ready (Inl e)))
           | (p, Pending) \<Rightarrow> (r\<lparr>sr_pipe := p\<rparr>, Polled Pending))
      | None \<Rightarrow>
          if room = 0 then (r, Polled (Ready (Inr [])))
          else reader_poll_read room (r\<lparr>sr_read_fut := Some room\<rparr>))"
  by auto
termination
  by (relation "measure (\<lambda>(_, r). case sr_read_fut r of None \<Rightarrow> 1 | Some _ \<Rightarrow> 0)") auto

declare reader_poll_read.simps [simp del]

text \<open>The copy of the client, and the adapter for reading and writing.\<close>

function client_poll_read :: "nat \<Rightarrow> stream_reader \<Rightarrow> stream_reader \<times> polled" where
  "client_poll_read room r =
     (case sr_read_fut r of
        Some k \<Rightarrow>
          (case inner_poll k (sr_pipe r) of
             (p, Ready (Inr bs)) \<Rightarrow> (r\<lparr>sr_pipe := p, sr_read_fut := None\<rparr>, put_slice room bs)
           | (p, Ready (Inl e)) \<Rightarrow> (r\<lparr>sr_pipe := p, sr_read_fut := None\<rparr>, Polled (Ready (Inl e)))
           | (p, Pending) \<Rightarrow> (r\<lparr>sr_pipe := p\<rparr>, Polled Pending))
      | None \<Rightarrow>
          if room = 0 then (r, Polled (Ready (Inr [])))
          else client_poll_read room (r\<lparr>sr_read_fut := Some room\<rparr>))"
  by auto
termination
  by (relation "measure (\<lambda>(_, r). case sr_read_fut r of None \<Rightarrow> 1 | Some _ \<Rightarrow> 0)") auto

declare client_poll_read.simps [simp del]

record stream_rw = stream_reader +
  rw_write_fut :: "byte list option"
  rw_shutdown_fut :: bool

definition stream_rw_new :: "pipe_inner \<Rightarrow> stream_rw" where
  "stream_rw_new p = \<lparr>sr_pipe = p, sr_read_fut = None, rw_write_fut = None, rw_shutdown_fut = False\<rparr>"

definition rw_poll_read :: "nat \<Rightarrow> stream_rw \<Rightarrow> stream_rw \<times> polled" where
  "rw_poll_read room r =
     (if sr_read_fut r = None \<and> room = 0 then (r, Polled (Ready (Inr [])))
      else
        (let k = (case sr_read_fut r of Some k \<Rightarrow> k | None \<Rightarrow> room)
         in case inner_poll k (sr_pipe r) of
              (p, Ready (Inr bs)) \<Rightarrow> (r\<lparr>sr_pipe := p, sr_read_fut := None\<rparr>, put_slice room bs)
            | (p, Ready (Inl e)) \<Rightarrow> (r\<lparr>sr_pipe := p, sr_read_fut := None\<rparr>, Polled (Ready (Inl e)))
            | (p, Pending) \<Rightarrow> (r\<lparr>sr_pipe := p, sr_read_fut := Some k\<rparr>, Polled Pending)))"

text \<open>
  A write keeps the data of its first poll; what the stream's write gives when it is polled with these
  data is an argument, as it is for the shutdown.
\<close>

definition rw_poll_write ::
    "(byte list \<Rightarrow> nat io_result poll) \<Rightarrow> byte list \<Rightarrow> stream_rw \<Rightarrow> stream_rw \<times> nat io_result poll" where
  "rw_poll_write inner buf r =
     (let data = (case rw_write_fut r of Some d \<Rightarrow> d | None \<Rightarrow> buf)
      in case inner data of
           Ready (Inr n) \<Rightarrow> (r\<lparr>rw_write_fut := None\<rparr>, Ready (Inr n))
         | Ready (Inl e) \<Rightarrow> (r\<lparr>rw_write_fut := None\<rparr>, Ready (Inl e))
         | Pending \<Rightarrow> (r\<lparr>rw_write_fut := Some data\<rparr>, Pending))"

definition rw_poll_flush :: "stream_rw \<Rightarrow> stream_rw \<times> unit io_result poll" where
  "rw_poll_flush r = (r, Ready (Inr ()))"

definition rw_poll_shutdown :: "unit io_result poll \<Rightarrow> stream_rw \<Rightarrow> stream_rw \<times> unit io_result poll" where
  "rw_poll_shutdown close r =
     (case close of
        Ready (Inr _) \<Rightarrow> (r\<lparr>rw_shutdown_fut := False\<rparr>, Ready (Inr ()))
      | Ready (Inl e) \<Rightarrow> (r\<lparr>rw_shutdown_fut := False\<rparr>, Ready (Inl e))
      | Pending \<Rightarrow> (r\<lparr>rw_shutdown_fut := True\<rparr>, Pending))"

section \<open>Reading a packet\<close>

text \<open>
  How many bytes the future of \<open>uot_get_packet_from_stream\<close> asks for next, after the bytes \<open>seen\<close>:
  the rest of the length field, then the rest of the payload; before that, in datagram mode, what the
  reader of addresses asks for.
\<close>

definition payload_room :: "byte list \<Rightarrow> nat" where
  "payload_room seen =
     (if length seen < 2 then 2 - length seen else unat (get_u16 seen) - (length seen - 2))"

definition packet_room :: "address reader \<Rightarrow> (byte list \<Rightarrow> nat) \<Rightarrow> uot_mode \<Rightarrow> byte list \<Rightarrow> nat" where
  "packet_room rd ask mode seen =
     (case mode of
        Connected \<Rightarrow> payload_room seen
      | Datagram \<Rightarrow> (case rd seen of Inl _ \<Rightarrow> ask seen | Inr (_, rest) \<Rightarrow> payload_room rest))"

datatype packet_polled =
    PacketReady "address option \<times> byte list"
  | PacketPending
  | PacketFailed io_error
  | PacketPanic

lemma pipe_get_shrinks:
  assumes "pipe_get n d p = (p', Some (Inr bs))" "bs \<noteq> []"
  shows "length (pipe_data p') < length (pipe_data p)"
  using assms
  by (auto simp: pipe_get_def pipe_data_def pipe_defs split: if_splits list.splits option.splits prod.splits
      pipe_event.splits fast_step.splits sum.splits)

text \<open>A poll without a kept future is a poll with one for the given room.\<close>

lemma reader_poll_read_None:
  assumes "sr_read_fut r = None"
  shows "reader_poll_read room r =
    (if room = 0 then (r, Polled (Ready (Inr []))) else reader_poll_read room (r\<lparr>sr_read_fut := Some room\<rparr>))"
  using assms by (subst reader_poll_read.simps) simp

lemma reader_poll_read_Some:
  assumes "sr_read_fut r = Some k"
  shows "reader_poll_read room r =
    (case inner_poll k (sr_pipe r) of
       (p, Ready (Inr bs)) \<Rightarrow> (r\<lparr>sr_pipe := p, sr_read_fut := None\<rparr>, put_slice room bs)
     | (p, Ready (Inl e)) \<Rightarrow> (r\<lparr>sr_pipe := p, sr_read_fut := None\<rparr>, Polled (Ready (Inl e)))
     | (p, Pending) \<Rightarrow> (r\<lparr>sr_pipe := p\<rparr>, Polled Pending))"
  using assms by (subst reader_poll_read.simps) simp

lemma inner_poll_shrinks:
  "inner_poll k p = (p', Ready (Inr bs)) \<Longrightarrow> bs \<noteq> [] \<Longrightarrow> length (pipe_data p') < length (pipe_data p)"
  using pipe_get_shrinks [of k False p p' bs] by (auto simp: inner_poll_def split: prod.splits option.splits)

lemma reader_poll_read_shrinks:
  assumes "reader_poll_read room r = (r', Polled (Ready (Inr bs)))" "bs \<noteq> []"
  shows "length (pipe_data (sr_pipe r')) < length (pipe_data (sr_pipe r))"
proof -
  have fut: "length (pipe_data (sr_pipe r')) < length (pipe_data (sr_pipe r))"
    if "sr_read_fut r = Some k" "reader_poll_read room r = (r', Polled (Ready (Inr bs)))" for k r
    using that assms(2) inner_poll_shrinks [of k "sr_pipe r"]
    by (auto simp: reader_poll_read_Some [OF that(1)] put_slice_def
        split: prod.splits poll.splits sum.splits if_splits)
  show ?thesis
  proof (cases "sr_read_fut r")
    case None
    with assms fut [of "r\<lparr>sr_read_fut := Some room\<rparr>" room] show ?thesis
      by (auto simp: reader_poll_read_None split: if_splits)
  next
    case (Some k)
    with assms(1) fut show ?thesis by blast
  qed
qed

function packet_poll ::
    "address reader \<Rightarrow> (byte list \<Rightarrow> nat) \<Rightarrow> uot_mode \<Rightarrow> stream_reader \<Rightarrow> byte list \<Rightarrow>
     stream_reader \<times> byte list \<times> packet_polled" where
  "packet_poll rd ask mode r seen =
     (case uot_get_packet_from_stream rd mode seen of
        Inr (packet, _) \<Rightarrow> (r, seen, PacketReady packet)
      | Inl e \<Rightarrow>
          if kind e \<noteq> UnexpectedEof then (r, seen, PacketFailed e)
          else
            (case reader_poll_read (packet_room rd ask mode seen) r of
               (r, PollPanic) \<Rightarrow> (r, seen, PacketPanic)
             | (r, Polled Pending) \<Rightarrow> (r, seen, PacketPending)
             | (r, Polled (Ready (Inl e))) \<Rightarrow> (r, seen, PacketFailed e)
             | (r', Polled (Ready (Inr bs))) \<Rightarrow>
                 if bs = [] then (r', seen, PacketFailed e) else packet_poll rd ask mode r' (seen @ bs)))"
  by pat_completeness auto
termination
  by (relation "measure (\<lambda>(_, _, _, r, _). length (pipe_data (sr_pipe r)))")
    (auto dest: reader_poll_read_shrinks [OF sym])

declare packet_poll.simps [simp del]

section \<open>Lemmas\<close>

lemma inner_poll_data:
  assumes "pipe_inv p" "inner_poll k p = (p', res)"
  shows "pipe_inv p' \<and>
    (case res of
       Ready (Inr bs) \<Rightarrow> pipe_data p = bs @ pipe_data p' \<and> length bs \<le> k
     | _ \<Rightarrow> pipe_data p = pipe_data p')"
proof -
  obtain p1 r1 where g: "pipe_get k False p = (p1, r1)" by (cases "pipe_get k False p")
  then have "pipe_inv p1 \<and> pipe_data p = got r1 @ pipe_data p1 \<and> length (got r1) \<le> k"
    using stream_pipe.get_contents [OF assms(1)] by blast
  with g assms(2) show ?thesis
    by (auto simp: inner_poll_def got_def split: option.splits sum.splits)
qed

lemma client_poll_read_eq: "client_poll_read room r = reader_poll_read room r"
proof -
  have fut: "client_poll_read room r = reader_poll_read room r" if "sr_read_fut r = Some k" for k r
    using that by (subst client_poll_read.simps) (simp add: reader_poll_read_Some)
  show ?thesis
  proof (cases "sr_read_fut r")
    case None
    then show ?thesis
      using fut [of "r\<lparr>sr_read_fut := Some room\<rparr>" room]
      by (subst client_poll_read.simps) (simp add: reader_poll_read_None)
  next
    case (Some k)
    then show ?thesis by (rule fut)
  qed
qed

section \<open>Properties\<close>

text \<open>
  The adapters agree. The two copies of \<open>StreamReader\<close>, and the reading half of \<open>StreamRw\<close>, do
  the same on every poll, whatever read they have kept.
\<close>

theorem adapters_agree:
  "client_poll_read room r = reader_poll_read room r \<and>
   (stream_reader.truncate (fst (rw_poll_read room w)), snd (rw_poll_read room w)) =
     reader_poll_read room (stream_reader.truncate w)"
proof
  show "client_poll_read room r = reader_poll_read room r" by (rule client_poll_read_eq)
  show "(stream_reader.truncate (fst (rw_poll_read room w)), snd (rw_poll_read room w)) =
      reader_poll_read room (stream_reader.truncate w)"
  proof (cases "sr_read_fut w")
    case (Some k)
    then show ?thesis
      by (auto simp: rw_poll_read_def reader_poll_read_Some [of _ k] stream_reader.defs
          split: prod.split poll.split sum.split)
  next
    case None
    then show ?thesis
      by (auto simp: rw_poll_read_def reader_poll_read_None reader_poll_read_Some [of _ room] stream_reader.defs
          split: prod.split poll.split sum.split)
  qed
qed

text \<open>
  When a read panics. A poll panics exactly when the adapter has kept a read that was started for a
  larger buffer than the one it is given now, and this read has become ready with more bytes than the
  buffer has room for. An adapter that is always polled with the same buffer, or whose reads are never
  dropped, does not panic.
\<close>

theorem reader_panics_iff:
  assumes "pipe_inv (sr_pipe r)"
  shows "snd (reader_poll_read room r) = PollPanic \<longleftrightarrow>
    (\<exists>k bs p. sr_read_fut r = Some k \<and> room < k \<and> inner_poll k (sr_pipe r) = (p, Ready (Inr bs)) \<and>
       room < length bs)"
proof (cases "sr_read_fut r")
  case (Some k)
  obtain p res where i: "inner_poll k (sr_pipe r) = (p, res)" by (cases "inner_poll k (sr_pipe r)")
  from inner_poll_data [OF assms i] i Some show ?thesis
    by (auto simp: reader_poll_read_Some put_slice_def split: poll.splits sum.splits)
next
  case None
  obtain p res where i: "inner_poll room (sr_pipe r) = (p, res)" by (cases "inner_poll room (sr_pipe r)")
  from inner_poll_data [OF assms i] i None show ?thesis
    by (auto simp: reader_poll_read_None reader_poll_read_Some [of _ room] put_slice_def
        split: poll.splits sum.splits)
qed

theorem reader_panics_iff_witness:
  "snd (reader_poll_read 2 \<lparr>sr_pipe = fst (pipe_write [1, 2, 3, 4, 5] (fst (inner_poll 5 pipe))), sr_read_fut = Some 5\<rparr>) =
     PollPanic"
proof -
  let ?r = "\<lparr>sr_pipe = fst (pipe_write [1, 2, 3, 4, 5] (fst (inner_poll 5 pipe))), sr_read_fut = Some 5\<rparr>"
  have "pipe_inv (fst (inner_poll 5 pipe))"
    using inner_poll_data [OF pipe_inv_new, of 5] by (metis prod.collapse)
  then have "pipe_inv (sr_pipe ?r)" using pipe_inv_write by simp
  moreover have "\<exists>p. inner_poll 5 (sr_pipe ?r) = (p, Ready (Inr [1, 2, 3, 4, 5]))"
    by (simp add: inner_poll_def pipe_get_def pipe_defs)
  ultimately show ?thesis using reader_panics_iff [of ?r 2] by auto
qed

end
