(* ===== verification/Server_Relay.thy ===== *)
theory Server_Relay
  imports Server Stream_Io Session_Inv
begin

text \<open>
  \<open>src/bin/server.rs\<close> from the session on: what a handler does with a stream until it has its
  destination and an outbound connection, and the relays between the two. A relay is a loop over
  \<open>select!\<close>: its state changes by events, each the completion of one branch, or the arrival of data at
  the stream in between. Completing one branch drops the futures of the others. Results of the
  outbound side are arguments of the events.
\<close>

section \<open>Handling a stream\<close>

datatype session_next = HandleUot | HandleTcp address | SessionTerminate | SessionReturn "unit io_result"

text \<open>One round of \<open>handle_session\<close>; \<open>terminated'\<close> is whether the stream has ended when reading failed.\<close>

definition handle_session :: "bool \<Rightarrow> bool \<Rightarrow> address io_result \<Rightarrow> bool \<Rightarrow> session_next" where
  "handle_session terminated approved destination terminated' =
     (if terminated then SessionReturn (Inr ())
      else if \<not> approved then SessionTerminate
      else
        (case destination of
           Inl err \<Rightarrow>
             if terminated' \<or> is_error_of_session_broken err then SessionReturn (Inr ())
             else SessionReturn (Inl err)
         | Inr d \<Rightarrow> if uot_is_sentinel_destination d then HandleUot else HandleTcp d))"

text \<open>The relay a UDP request asks for, and what the stream still holds after the request.\<close>

datatype uot_next = UotConnected uot_request | UotDatagram

definition handle_uot_stream :: "address reader \<Rightarrow> uot_next reader" where
  "handle_uot_stream rd bs =
     res_bind (uot_get_request_from_stream rd bs) (\<lambda>(request, r).
       Inr (case uq_mode request of Connected \<Rightarrow> UotConnected request | Datagram \<Rightarrow> UotDatagram, r))"

text \<open>Reporting a failed outbound connection to the client.\<close>

definition report_failure :: "nat \<Rightarrow> io_error \<Rightarrow> session \<Rightarrow> session \<times> unit io_result" where
  "report_failure a err s =
     (case handshake_failure a (message err) s of
        (s, Inl e) \<Rightarrow> (s, Inl e)
      | (s, Inr _) \<Rightarrow>
          (case stream_close a s of
             (s, Inl e) \<Rightarrow> (s, Inl e)
           | (s, Inr _) \<Rightarrow> (s, Inl err)))"

definition tcp_stream_start :: "nat \<Rightarrow> unit io_result \<Rightarrow> session \<Rightarrow> session \<times> unit io_result" where
  "tcp_stream_start a connected s =
     (case connected of
        Inl err \<Rightarrow> report_failure a err s
      | Inr _ \<Rightarrow> handshake_success a s)"

definition uot_datagram_start :: "nat \<Rightarrow> unit io_result \<Rightarrow> session \<Rightarrow> session \<times> unit io_result" where
  "uot_datagram_start a outbound s =
     (case outbound of
        Inl err \<Rightarrow> (s, Inl err)
      | Inr _ \<Rightarrow> handshake_success a s)"

definition uot_connected_start ::
    "nat \<Rightarrow> unit io_result \<Rightarrow> unit io_result \<Rightarrow> session \<Rightarrow> session \<times> unit io_result" where
  "uot_connected_start a outbound ready s =
     (case outbound of
        Inl err \<Rightarrow> (s, Inl err)
      | Inr _ \<Rightarrow>
          (case ready of
             Inl err \<Rightarrow> report_failure a err s
           | Inr _ \<Rightarrow> handshake_success a s))"

section \<open>Relaying datagrams\<close>

datatype relay_exit = RelayOk | RelayFailed io_error | RelayDenied | RelayPanic

record uot_relay =
  ur_reader :: stream_reader
  ur_seen :: "byte list"
  ur_sent :: "(address \<times> byte list) list"
  ur_written :: "byte list list"
  ur_node :: node_data
  ur_exit :: "relay_exit option"

datatype uot_event =
    Arrive "byte list"
  | PeerEnd "io_error option"
  | PollPacket "unit io_result"
  | Tick int
  | Datagram_received "(byte list \<times> address) io_result" "nat io_result"

definition uot_relay_new :: "pipe_inner \<Rightarrow> node_data \<Rightarrow> uot_relay" where
  "uot_relay_new p d =
     \<lparr>ur_reader = stream_reader_new p, ur_seen = [], ur_sent = [], ur_written = [], ur_node = d, ur_exit = None\<rparr>"

text \<open>A packet from the client: counted, then sent on.\<close>

definition forward_packet ::
    "conn_ctx \<Rightarrow> address \<Rightarrow> address option \<times> byte list \<Rightarrow> unit io_result \<Rightarrow> uot_relay \<Rightarrow> uot_relay" where
  "forward_packet ctx fixed packet sent st =
     (case packet of
        (destination, payload) \<Rightarrow>
          (let st = st\<lparr>ur_seen := [], ur_node := ctx_record_up ctx (word_of_nat (length payload)) (ur_node st)\<rparr>
           in case sent of
                Inl e \<Rightarrow> st\<lparr>ur_exit := Some (RelayFailed e)\<rparr>
              | Inr _ \<Rightarrow>
                  st\<lparr>ur_sent := ur_sent st @
                    [(case destination of Some d \<Rightarrow> d | None \<Rightarrow> fixed, payload)]\<rparr>))"

text \<open>A datagram from outside: encoded, counted, then written to the stream.\<close>

definition return_datagram ::
    "addr_write \<Rightarrow> conn_ctx \<Rightarrow> uot_mode \<Rightarrow> (byte list \<times> address) io_result \<Rightarrow> nat io_result \<Rightarrow> uot_relay \<Rightarrow> uot_relay" where
  "return_datagram wr ctx mode received written st =
     (let st = st\<lparr>ur_seen := []\<rparr>
      in case received of
           Inl e \<Rightarrow> st\<lparr>ur_exit := Some (RelayFailed e)\<rparr>
         | Inr (payload, source) \<Rightarrow>
             (case uot_encode_packet wr mode (case mode of Datagram \<Rightarrow> Some source | Connected \<Rightarrow> None) payload of
                Inl e \<Rightarrow> st\<lparr>ur_exit := Some (RelayFailed e)\<rparr>
              | Inr frame \<Rightarrow>
                  (let st = st\<lparr>ur_node := ctx_record_down ctx (word_of_nat (length payload)) (ur_node st)\<rparr>
                   in case written of
                        Inl e \<Rightarrow> st\<lparr>ur_exit := Some (RelayFailed e)\<rparr>
                      | Inr _ \<Rightarrow> st\<lparr>ur_written := ur_written st @ [frame]\<rparr>)))"

definition poll_packet ::
    "address reader \<Rightarrow> (byte list \<Rightarrow> nat) \<Rightarrow> conn_ctx \<Rightarrow> uot_mode \<Rightarrow> address \<Rightarrow> unit io_result \<Rightarrow>
     uot_relay \<Rightarrow> uot_relay" where
  "poll_packet rd ask ctx mode fixed sent st =
     (case packet_poll rd ask mode (ur_reader st) (ur_seen st) of
        (r, seen, res) \<Rightarrow>
          (let st = st\<lparr>ur_reader := r, ur_seen := seen\<rparr>
           in case res of
                PacketPending \<Rightarrow> st
              | PacketReady packet \<Rightarrow> forward_packet ctx fixed packet sent st
              | PacketFailed e \<Rightarrow>
                  st\<lparr>ur_exit := Some (if is_error_of_session_broken e then RelayOk else RelayFailed e)\<rparr>
              | PacketPanic \<Rightarrow> st\<lparr>ur_exit := Some RelayPanic\<rparr>))"

definition on_pipe :: "(pipe_inner \<Rightarrow> pipe_inner) \<Rightarrow> stream_reader \<Rightarrow> stream_reader" where
  "on_pipe f r = r\<lparr>sr_pipe := f (sr_pipe r)\<rparr>"

fun uot_step ::
    "addr_write \<Rightarrow> address reader \<Rightarrow> (byte list \<Rightarrow> nat) \<Rightarrow> conn_ctx \<Rightarrow> uot_mode \<Rightarrow> address \<Rightarrow>
     uot_event \<Rightarrow> uot_relay \<Rightarrow> uot_relay" where
  "uot_step wr rd ask ctx mode fixed (Arrive bs) st =
     st\<lparr>ur_reader := on_pipe (\<lambda>p. fst (pipe_write bs p)) (ur_reader st)\<rparr>"
| "uot_step wr rd ask ctx mode fixed (PeerEnd e) st =
     st\<lparr>ur_reader := on_pipe (finish_stream e) (ur_reader st)\<rparr>"
| "uot_step wr rd ask ctx mode fixed (PollPacket sent) st = poll_packet rd ask ctx mode fixed sent st"
| "uot_step wr rd ask ctx mode fixed (Tick now) st =
     (let st = st\<lparr>ur_seen := []\<rparr>
      in if ctx_approved now ctx (ur_node st) then st else st\<lparr>ur_exit := Some RelayDenied\<rparr>)"
| "uot_step wr rd ask ctx mode fixed (Datagram_received received written) st =
     return_datagram wr ctx mode received written st"

fun uot_run ::
    "addr_write \<Rightarrow> address reader \<Rightarrow> (byte list \<Rightarrow> nat) \<Rightarrow> conn_ctx \<Rightarrow> uot_mode \<Rightarrow> address \<Rightarrow>
     uot_event list \<Rightarrow> uot_relay \<Rightarrow> uot_relay" where
  "uot_run wr rd ask ctx mode fixed [] st = st"
| "uot_run wr rd ask ctx mode fixed (e # es) st =
     (if ur_exit st \<noteq> None then st
      else uot_run wr rd ask ctx mode fixed es (uot_step wr rd ask ctx mode fixed e st))"

section \<open>Relaying a connection\<close>

text \<open>
  The two directions run side by side until both have ended; an error of one cancels the other. The
  stream is closed when the outbound side ends and when the client is no longer approved, and a task
  then closes its pipe.
\<close>

datatype side = Active | Ended "unit io_result"

record tcp_relay =
  tr_reader :: stream_reader
  tr_s2o :: side
  tr_o2s :: side
  tr_cancel :: bool
  tr_out :: "byte list"
  tr_out_shutdown :: bool
  tr_in :: "byte list list"
  tr_stream_closed :: bool
  tr_node :: node_data

datatype tcp_event =
    TcpArrive "byte list"
  | TcpPeerEnd "io_error option"
  | TcpPipeClosed
  | S2oCancelled
  | S2oTick int "unit io_result"
  | S2oPoll "unit io_result" "unit io_result"
  | O2sCancelled
  | O2sTick int
  | O2sRead "byte list io_result" "nat io_result" "unit io_result"

definition tcp_relay_new :: "stream_reader \<Rightarrow> node_data \<Rightarrow> tcp_relay" where
  "tcp_relay_new r d =
     \<lparr>tr_reader = r, tr_s2o = Active, tr_o2s = Active, tr_cancel = False, tr_out = [], tr_out_shutdown = False,
      tr_in = [], tr_stream_closed = False, tr_node = d\<rparr>"

text \<open>The end of the loop towards the outbound side, with the result of shutting it down.\<close>

definition s2o_end :: "bool \<Rightarrow> unit io_result \<Rightarrow> unit io_result \<Rightarrow> tcp_relay \<Rightarrow> tcp_relay" where
  "s2o_end cancelled res shutdown st =
     (if \<not> cancelled \<and> \<not> is_ok shutdown then st\<lparr>tr_s2o := Ended shutdown\<rparr>
      else
        st\<lparr>tr_s2o := Ended (Inr ()),
           tr_out_shutdown := tr_out_shutdown st \<or> \<not> cancelled,
           tr_cancel := tr_cancel st \<or> \<not> is_ok res\<rparr>)"

definition o2s_end :: "unit io_result \<Rightarrow> tcp_relay \<Rightarrow> tcp_relay" where
  "o2s_end res st = st\<lparr>tr_o2s := Ended (Inr ()), tr_cancel := tr_cancel st \<or> \<not> is_ok res\<rparr>"

definition s2o_poll :: "conn_ctx \<Rightarrow> unit io_result \<Rightarrow> unit io_result \<Rightarrow> tcp_relay \<Rightarrow> tcp_relay" where
  "s2o_poll ctx written shutdown st =
     (case reader_poll_read 4096 (tr_reader st) of
        (r, res) \<Rightarrow>
          (let st = st\<lparr>tr_reader := r\<rparr>
           in case res of
                Polled Pending \<Rightarrow> st
              | Polled (Ready (Inl e)) \<Rightarrow> s2o_end False (Inl e) shutdown st
              | Polled (Ready (Inr bs)) \<Rightarrow>
                  if bs = [] then s2o_end False (Inr ()) shutdown st
                  else
                    (let st = st\<lparr>tr_node := ctx_record_up ctx (word_of_nat (length bs)) (tr_node st)\<rparr>
                     in case written of
                          Inl e \<Rightarrow> s2o_end False (Inl e) shutdown st
                        | Inr _ \<Rightarrow> st\<lparr>tr_out := tr_out st @ bs\<rparr>)
              | PollPanic \<Rightarrow> st\<lparr>tr_s2o := Ended (Inl (error_other ''panic''))\<rparr>))"

definition o2s_read :: "conn_ctx \<Rightarrow> byte list io_result \<Rightarrow> nat io_result \<Rightarrow> unit io_result \<Rightarrow> tcp_relay \<Rightarrow> tcp_relay" where
  "o2s_read ctx res written closed st =
     (case res of
        Inl e \<Rightarrow> o2s_end (Inl e) st
      | Inr bs \<Rightarrow>
          if bs = []
          then
            (case closed of
               Inl e \<Rightarrow> st\<lparr>tr_stream_closed := True, tr_o2s := Ended (Inl e)\<rparr>
             | Inr _ \<Rightarrow> o2s_end (Inr ()) (st\<lparr>tr_stream_closed := True\<rparr>))
          else
            (let st = st\<lparr>tr_node := ctx_record_down ctx (word_of_nat (length bs)) (tr_node st)\<rparr>
             in case written of
                  Inl e \<Rightarrow> o2s_end (Inl e) st
                | Inr _ \<Rightarrow> st\<lparr>tr_in := tr_in st @ [bs]\<rparr>))"

fun tcp_step :: "conn_ctx \<Rightarrow> tcp_event \<Rightarrow> tcp_relay \<Rightarrow> tcp_relay" where
  "tcp_step ctx (TcpArrive bs) st = st\<lparr>tr_reader := on_pipe (\<lambda>p. fst (pipe_write bs p)) (tr_reader st)\<rparr>"
| "tcp_step ctx (TcpPeerEnd e) st = st\<lparr>tr_reader := on_pipe (finish_stream e) (tr_reader st)\<rparr>"
| "tcp_step ctx TcpPipeClosed st =
     (if tr_stream_closed st then st\<lparr>tr_reader := on_pipe (close_with_error None) (tr_reader st)\<rparr> else st)"
| "tcp_step ctx S2oCancelled st =
     (if tr_s2o st = Active \<and> tr_cancel st then s2o_end True (Inr ()) (Inr ()) st else st)"
| "tcp_step ctx (S2oTick now shutdown) st =
     (if tr_s2o st = Active \<and> \<not> ctx_approved now ctx (tr_node st)
      then s2o_end False (Inr ()) shutdown (st\<lparr>tr_stream_closed := True\<rparr>) else st)"
| "tcp_step ctx (S2oPoll written shutdown) st =
     (if tr_s2o st = Active then s2o_poll ctx written shutdown st else st)"
| "tcp_step ctx O2sCancelled st =
     (if tr_o2s st = Active \<and> tr_cancel st then o2s_end (Inr ()) st else st)"
| "tcp_step ctx (O2sTick now) st =
     (if tr_o2s st = Active \<and> \<not> ctx_approved now ctx (tr_node st)
      then o2s_end (Inr ()) (st\<lparr>tr_stream_closed := True\<rparr>) else st)"
| "tcp_step ctx (O2sRead res written closed) st =
     (if tr_o2s st = Active then o2s_read ctx res written closed st else st)"

fun tcp_run :: "conn_ctx \<Rightarrow> tcp_event list \<Rightarrow> tcp_relay \<Rightarrow> tcp_relay" where
  "tcp_run ctx [] st = st"
| "tcp_run ctx (e # es) st = tcp_run ctx es (tcp_step ctx e st)"

section \<open>Reading an open pipe\<close>

definition open_pipe :: "pipe_inner \<Rightarrow> bool" where
  "open_pipe p \<longleftrightarrow> pipe_open p \<and> no_empty_data p"

lemma pipe_get_receiver: "pi_receiver p \<noteq> Dropped \<Longrightarrow> pi_receiver (fst (pipe_get n d p)) \<noteq> Dropped"
  by (auto simp: pipe_get_def pipe_defs split: if_splits list.splits option.splits prod.splits
      pipe_event.splits fast_step.splits sum.splits)

lemma open_pipe_get:
  assumes "open_pipe p" "pipe_get n d p = (p', r)"
  shows "open_pipe p'"
proof -
  have inv: "pipe_inv p" using assms(1) by (simp add: open_pipe_def pipe_open_def)
  from stream_pipe.get_contents [OF inv assms(2)] pipe_get_flags [OF inv, of n d] pipe_get_receiver [of p n d]
    assms show ?thesis by (auto simp: open_pipe_def pipe_open_def)
qed

lemma open_pipe_empty:
  assumes "open_pipe p" "pipe_data p = []"
  shows "pi_buffer p = [] \<and> pi_queue p = []"
proof -
  have "list_all (\<lambda>ev. \<not> is_end ev) (pi_queue p)" "PipeData [] \<notin> set (pi_queue p)"
    using assms(1) by (auto simp: open_pipe_def pipe_open_def pipe_inv_def no_empty_data_def)
  moreover have "concat (map event_data (pi_queue p)) = []" "pi_buffer p = []"
    using assms(2) by (auto simp: pipe_data_def)
  ultimately show ?thesis
    by (cases "pi_queue p") (auto, metis event_data.simps(1) is_end.elims(3))
qed

lemma inner_poll_open:
  assumes "open_pipe p" "0 < k" "inner_poll k p = (p', res)"
  shows "open_pipe p' \<and>
    (if pipe_data p = [] then res = Pending \<and> pipe_data p' = []
     else \<exists>bs. res = Ready (Inr bs) \<and> bs \<noteq> [] \<and> length bs \<le> k \<and> pipe_data p = bs @ pipe_data p')"
proof -
  obtain r1 where g: "pipe_get k False p = (p', r1)" "res = (case r1 of None \<Rightarrow> Pending | Some r \<Rightarrow> Ready r)"
    using assms(3) by (auto simp: inner_poll_def split: prod.splits option.splits)
  have inv: "pipe_inv p" "\<not> pi_closed p" "pi_receiver p \<noteq> Dropped" "no_empty_data p"
    using assms(1) by (auto simp: open_pipe_def pipe_open_def)
  show ?thesis
  proof (cases "pipe_data p = []")
    case True
    have "pi_sender p" using inv(1,2) by (simp add: pipe_inv_def)
    with open_pipe_empty [OF assms(1) True] inv(2,3) g have "res = Pending"
      by (auto simp: pipe_get_def pipe_defs split: if_splits receiver_place.splits)
    moreover have "pipe_data p' = []" using inner_poll_data [OF inv(1) assms(3)] True calculation by simp
    ultimately show ?thesis using open_pipe_get [OF assms(1) g(1)] True by simp
  next
    case False
    with read_finds_data [OF inv False assms(2)] g(1) obtain xs where "r1 = Some (Inr xs)" "xs \<noteq> []" by auto
    with g(2) inner_poll_data [OF inv(1) assms(3)] open_pipe_get [OF assms(1) g(1)] False show ?thesis by simp
  qed
qed

lemma open_pipe_write:
  assumes "open_pipe p" "bs \<noteq> []"
  shows "open_pipe (fst (pipe_write bs p))" "pipe_data (fst (pipe_write bs p)) = pipe_data p @ bs"
proof -
  have o: "pipe_open p" "no_empty_data p" using assms(1) by (auto simp: open_pipe_def)
  have w: "pipe_write bs p = (p\<lparr>pi_queue := pi_queue p @ [PipeData bs]\<rparr>, Inr (length bs))"
    using o(1) by (auto simp: pipe_write_def channel_send_def pipe_open_def pipe_inv_def)
  have "pipe_inv (fst (pipe_write bs p))" using o(1) by (intro pipe_inv_write) (simp add: pipe_open_def)
  with w o no_empty_data_write [OF o(2) assms(2)] show "open_pipe (fst (pipe_write bs p))"
    by (simp add: open_pipe_def pipe_open_def)
  show "pipe_data (fst (pipe_write bs p)) = pipe_data p @ bs" using w by (simp add: pipe_data_def)
qed

text \<open>A read of an empty pipe is given the next data as they were written.\<close>

lemma inner_poll_event:
  assumes "open_pipe p" "pipe_data p = []" "bs \<noteq> []" "length bs \<le> k"
  shows "\<exists>p'. inner_poll k (fst (pipe_write bs p)) = (p', Ready (Inr bs))"
proof -
  have o: "pipe_open p" using assms(1) by (simp add: open_pipe_def)
  have "pi_sender p" "\<not> pi_closed p" "pi_receiver p \<noteq> Dropped" "\<not> pi_stream_end_queued p" using o by (auto simp: pipe_open_def pipe_inv_def)
  with open_pipe_empty [OF assms(1,2)] assms(3,4) show ?thesis
    by (cases "pi_receiver p") (auto simp: inner_poll_def pipe_get_def pipe_defs)
qed

text \<open>An adapter that has kept no read, or one for the buffer it is polled with.\<close>

definition fits :: "nat \<Rightarrow> stream_reader \<Rightarrow> bool" where
  "fits room r \<longleftrightarrow> open_pipe (sr_pipe r) \<and> (sr_read_fut r = None \<or> sr_read_fut r = Some room)"

lemma reader_poll_started:
  assumes "sr_read_fut r = None \<or> sr_read_fut r = Some room" "0 < room"
  shows "reader_poll_read room r = reader_poll_read room (r\<lparr>sr_read_fut := Some room\<rparr>)"
proof (cases "sr_read_fut r")
  case None
  then show ?thesis using assms(2) by (simp add: reader_poll_read_None)
next
  case (Some k)
  then have "r\<lparr>sr_read_fut := Some room\<rparr> = r" using assms(1) by simp
  then show ?thesis by simp
qed

lemma reader_poll_fits:
  assumes "fits room r" "0 < room"
  shows "\<exists>r'. open_pipe (sr_pipe r') \<and>
    (if pipe_data (sr_pipe r) = []
     then reader_poll_read room r = (r', Polled Pending) \<and> pipe_data (sr_pipe r') = [] \<and> sr_read_fut r' = Some room
     else sr_read_fut r' = None \<and>
       (\<exists>bs. reader_poll_read room r = (r', Polled (Ready (Inr bs))) \<and> bs \<noteq> [] \<and> length bs \<le> room \<and>
          pipe_data (sr_pipe r) = bs @ pipe_data (sr_pipe r')))"
proof -
  define r0 where "r0 = r\<lparr>sr_read_fut := Some room\<rparr>"
  have eq: "reader_poll_read room r = reader_poll_read room r0"
    using assms reader_poll_started [of r room] by (simp add: fits_def r0_def)
  have op: "open_pipe (sr_pipe r0)" "sr_pipe r0 = sr_pipe r" "sr_read_fut r0 = Some room"
    using assms(1) by (simp_all add: fits_def r0_def)
  obtain p res where i: "inner_poll room (sr_pipe r0) = (p, res)" by (cases "inner_poll room (sr_pipe r0)")
  note data = inner_poll_open [OF op(1) assms(2) i]
  show ?thesis
  proof (cases "pipe_data (sr_pipe r) = []")
    case True
    with data op i show ?thesis unfolding eq
      by (intro exI [of _ "r0\<lparr>sr_pipe := p\<rparr>"]) (simp add: reader_poll_read_Some)
  next
    case False
    with data op(2) obtain bs where "res = Ready (Inr bs)" "bs \<noteq> []" "length bs \<le> room"
      "pipe_data (sr_pipe r) = bs @ pipe_data p" "open_pipe p" by auto
    with False op i show ?thesis unfolding eq
      by (intro exI [of _ "r0\<lparr>sr_pipe := p, sr_read_fut := None\<rparr>"])
        (simp add: reader_poll_read_Some put_slice_def)
  qed
qed

section \<open>Reading packets from an open pipe\<close>

text \<open>The reader of addresses asks for at least one byte, and never for later than the address has.\<close>

definition asks_within :: "(address \<Rightarrow> bool) \<Rightarrow> addr_write \<Rightarrow> (byte list \<Rightarrow> nat) \<Rightarrow> bool" where
  "asks_within ok wr ask \<longleftrightarrow>
     (\<forall>a n. ok a \<longrightarrow> n < length (wr a) \<longrightarrow> 0 < ask (take n (wr a)) \<and> ask (take n (wr a)) \<le> length (wr a) - n)"

lemma payload_room_take:
  assumes "length payload \<le> 65535" "n < 2 + length payload"
  shows "0 < payload_room (take n (put_u16 (word_of_nat (length payload)) @ payload)) \<and>
    payload_room (take n (put_u16 (word_of_nat (length payload)) @ payload)) \<le> 2 + length payload - n"
proof (cases "n < 2")
  case True
  then show ?thesis by (simp add: payload_room_def)
next
  case False
  have u: "unat (word_of_nat (length payload) :: u16) = length payload" using assms by (simp add: unat_of_nat)
  have t: "take n (put_u16 (word_of_nat (length payload)) @ payload) =
      put_u16 (word_of_nat (length payload)) @ take (n - 2) payload"
    using False by (simp add: take_append)
  have "get_u16 (put_u16 (word_of_nat (length payload)) @ take (n - 2) payload) = word_of_nat (length payload)"
    by simp
  with False assms u show ?thesis unfolding t payload_room_def by (simp add: min_def)
qed

lemma encoded_cases:
  assumes "packet_ok ok mode p"
  obtains (datagram) a where "mode = Datagram" "fst p = Some a" "ok a"
      "encoded wr mode p = wr a @ put_u16 (word_of_nat (length (snd p))) @ snd p"
  | (connected) "mode = Connected" "fst p = None"
      "encoded wr mode p = put_u16 (word_of_nat (length (snd p))) @ snd p"
  using assms by (auto simp: packet_ok_def encoded_def uot_encode_packet_def split: uot_mode.splits)

lemma packet_room_take:
  assumes "address_codec ok wr rd" "asks_within ok wr ask" "packet_ok ok mode p" "n < length (encoded wr mode p)"
  shows "0 < packet_room rd ask mode (take n (encoded wr mode p)) \<and>
    packet_room rd ask mode (take n (encoded wr mode p)) \<le> length (encoded wr mode p) - n"
proof -
  have len: "length (snd p) \<le> 65535" using assms(3) by (simp add: packet_ok_def)
  from assms(3) show ?thesis
  proof (cases rule: encoded_cases [where wr = wr])
    case connected
    then show ?thesis using payload_room_take [OF len, of n] assms(4) by (simp add: packet_room_def)
  next
    case (datagram a)
    let ?pl = "put_u16 (word_of_nat (length (snd p))) @ snd p"
    show ?thesis
    proof (cases "n < length (wr a)")
      case True
      then have "\<exists>m. rd (take n (wr a)) = Inl (IoError UnexpectedEof m)"
        using assms(1) datagram(3) unfolding address_codec_def by blast
      moreover have "0 < ask (take n (wr a)) \<and> ask (take n (wr a)) \<le> length (wr a) - n"
        using True datagram(3) assms(2) by (simp add: asks_within_def)
      ultimately show ?thesis using True datagram by (auto simp: packet_room_def)
    next
      case False
      then have "take n (encoded wr mode p) = wr a @ take (n - length (wr a)) ?pl" using datagram by simp
      moreover have "rd (wr a @ take (n - length (wr a)) ?pl) = Inr (a, take (n - length (wr a)) ?pl)"
        using assms(1) datagram(3) unfolding address_codec_def by blast
      moreover have "n - length (wr a) < 2 + length (snd p)" using False assms(4) datagram by simp
      note payload_room_take [OF len this]
      moreover have "2 + length (snd p) - (n - length (wr a)) = length (encoded wr mode p) - n"
        using False datagram by simp
      ultimately show ?thesis using datagram(1) by (simp only: packet_room_def uot_mode.case sum.case prod.case)
    qed
  qed
qed

lemma packet_poll_wait:
  assumes "uot_get_packet_from_stream rd mode seen = Inl (IoError UnexpectedEof m)"
  shows "packet_poll rd ask mode r seen =
    (case reader_poll_read (packet_room rd ask mode seen) r of
       (r, PollPanic) \<Rightarrow> (r, seen, PacketPanic)
     | (r, Polled Pending) \<Rightarrow> (r, seen, PacketPending)
     | (r, Polled (Ready (Inl e))) \<Rightarrow> (r, seen, PacketFailed e)
     | (r', Polled (Ready (Inr bs))) \<Rightarrow>
         if bs = [] then (r', seen, PacketFailed (IoError UnexpectedEof m))
         else packet_poll rd ask mode r' (seen @ bs))"
  using assms by (subst packet_poll.simps) simp

text \<open>One step of reading a packet that is not complete: what is in the pipe is taken up.\<close>

lemma packet_poll_step:
  assumes "address_codec ok wr rd" "asks_within ok wr ask" "packet_ok ok mode p"
    and "n < length (encoded wr mode p)"
    and "fits (packet_room rd ask mode (take n (encoded wr mode p))) r"
    and "pipe_data (sr_pipe r) \<noteq> []" "pipe_data (sr_pipe r) @ later = drop n (encoded wr mode p) @ rest"
    and "later = [] \<or> rest = []"
  shows "\<exists>r' k. 0 < k \<and> n + k \<le> length (encoded wr mode p) \<and> k \<le> length (pipe_data (sr_pipe r)) \<and>
    packet_poll rd ask mode r (take n (encoded wr mode p)) =
      packet_poll rd ask mode r' (take (n + k) (encoded wr mode p)) \<and>
    open_pipe (sr_pipe r') \<and> sr_read_fut r' = None \<and> pipe_data (sr_pipe r') = drop k (pipe_data (sr_pipe r))"
proof -
  let ?enc = "encoded wr mode p"
  let ?room = "packet_room rd ask mode (take n ?enc)"
  have room: "0 < ?room" "?room \<le> length ?enc - n" using packet_room_take [OF assms(1-4)] by auto
  obtain m where m: "uot_get_packet_from_stream rd mode (take n ?enc) = Inl (IoError UnexpectedEof m)"
    using get_packet_cut [OF assms(1,3,4)] by blast
  obtain r' bs where r': "open_pipe (sr_pipe r')" "sr_read_fut r' = None"
    "reader_poll_read ?room r = (r', Polled (Ready (Inr bs)))" "bs \<noteq> []" "length bs \<le> ?room"
    "pipe_data (sr_pipe r) = bs @ pipe_data (sr_pipe r')"
    using reader_poll_fits [OF assms(5) room(1)] assms(6) by auto
  have len: "length bs \<le> length (drop n ?enc)" using r'(5) room(2) by simp
  have "bs = take (length bs) (pipe_data (sr_pipe r) @ later)" using r'(6) by simp
  also have "\<dots> = take (length bs) (drop n ?enc)" unfolding assms(7) using len by simp
  finally have bs: "take n ?enc @ bs = take (n + length bs) ?enc" by (metis take_add)
  show ?thesis
    using r' len assms(4) bs packet_poll_wait [OF m, of ask r]
    by (intro exI [of _ r'] exI [of _ "length bs"]) auto
qed

lemma packet_poll_ready:
  assumes "address_codec ok wr rd" "asks_within ok wr ask" "packet_ok ok mode p"
    and "fits (packet_room rd ask mode (take n (encoded wr mode p))) r" "n \<le> length (encoded wr mode p)"
    and "pipe_data (sr_pipe r) = drop n (encoded wr mode p) @ rest"
  shows "\<exists>r'. packet_poll rd ask mode r (take n (encoded wr mode p)) = (r', encoded wr mode p, PacketReady p) \<and>
    open_pipe (sr_pipe r') \<and> pipe_data (sr_pipe r') = rest \<and>
    (n < length (encoded wr mode p) \<or> sr_read_fut r = None \<longrightarrow> sr_read_fut r' = None)"
  using assms(4-6)
proof (induction "length (encoded wr mode p) - n" arbitrary: n r rule: less_induct)
  case less
  let ?enc = "encoded wr mode p"
  show ?case
  proof (cases "n < length ?enc")
    case False
    have "uot_get_packet_from_stream rd mode ?enc = Inr (p, [])"
      using get_packet_encoded [OF assms(1,3), of "[]"] by simp
    then have "packet_poll rd ask mode r ?enc = (r, ?enc, PacketReady p)" by (subst packet_poll.simps) simp
    with False less.prems show ?thesis by (intro exI [of _ r]) (simp add: fits_def)
  next
    case True
    then have "pipe_data (sr_pipe r) \<noteq> []" using less.prems(3) by auto
    from packet_poll_step [OF assms(1-3) True less.prems(1) this, of "[]" rest] less.prems(3)
    obtain r1 k where r1: "0 < k" "n + k \<le> length ?enc"
      "packet_poll rd ask mode r (take n ?enc) = packet_poll rd ask mode r1 (take (n + k) ?enc)"
      "open_pipe (sr_pipe r1)" "sr_read_fut r1 = None" "pipe_data (sr_pipe r1) = drop k (pipe_data (sr_pipe r))"
      by auto
    have "pipe_data (sr_pipe r1) = drop (n + k) ?enc @ rest"
      using r1(2,6) less.prems(3) by (simp add: add.commute)
    moreover have "length ?enc - (n + k) < length ?enc - n" using r1(1) True by simp
    ultimately obtain r2 where "packet_poll rd ask mode r1 (take (n + k) ?enc) = (r2, ?enc, PacketReady p)"
      "open_pipe (sr_pipe r2)" "pipe_data (sr_pipe r2) = rest" "sr_read_fut r2 = None"
      using less.hyps [of "n + k" r1] r1(2,4,5) by (auto simp: fits_def)
    with r1(3) show ?thesis by auto
  qed
qed

lemma packet_poll_pending:
  assumes "address_codec ok wr rd" "asks_within ok wr ask" "packet_ok ok mode p"
    and "fits (packet_room rd ask mode (take n (encoded wr mode p))) r"
    and "pipe_data (sr_pipe r) @ later = drop n (encoded wr mode p)" "later \<noteq> []"
  shows "\<exists>r'. packet_poll rd ask mode r (take n (encoded wr mode p)) =
      (r', take (n + length (pipe_data (sr_pipe r))) (encoded wr mode p), PacketPending) \<and>
    pipe_data (sr_pipe r') = [] \<and> open_pipe (sr_pipe r') \<and>
    sr_read_fut r' =
      Some (packet_room rd ask mode (take (n + length (pipe_data (sr_pipe r))) (encoded wr mode p)))"
  using assms(4,5)
proof (induction "length (pipe_data (sr_pipe r))" arbitrary: n r rule: less_induct)
  case less
  let ?enc = "encoded wr mode p"
  have n: "n < length ?enc" using less.prems(2) assms(6) by (metis append_is_Nil_conv drop_all not_le)
  show ?case
  proof (cases "pipe_data (sr_pipe r) = []")
    case True
    obtain m where m: "uot_get_packet_from_stream rd mode (take n ?enc) = Inl (IoError UnexpectedEof m)"
      using get_packet_cut [OF assms(1,3) n] by blast
    have "0 < packet_room rd ask mode (take n ?enc)" using packet_room_take [OF assms(1-3) n] by simp
    from reader_poll_fits [OF less.prems(1) this] True obtain r' where
      "open_pipe (sr_pipe r')" "reader_poll_read (packet_room rd ask mode (take n ?enc)) r = (r', Polled Pending)"
      "pipe_data (sr_pipe r') = []" "sr_read_fut r' = Some (packet_room rd ask mode (take n ?enc))" by auto
    with True packet_poll_wait [OF m, of ask r] show ?thesis by (intro exI [of _ r']) (simp add: fits_def)
  next
    case False
    from packet_poll_step [OF assms(1-3) n less.prems(1) False, of later "[]"] less.prems(2)
    obtain r1 k where r1: "0 < k" "k \<le> length (pipe_data (sr_pipe r))"
      "packet_poll rd ask mode r (take n ?enc) = packet_poll rd ask mode r1 (take (n + k) ?enc)"
      "open_pipe (sr_pipe r1)" "sr_read_fut r1 = None" "pipe_data (sr_pipe r1) = drop k (pipe_data (sr_pipe r))"
      by auto
    have "drop k (pipe_data (sr_pipe r)) @ later = drop (n + k) ?enc"
      using r1(2) less.prems(2) by (metis (no_types) add.commute diff_is_0_eq drop0 drop_append drop_drop)
    then have eq: "pipe_data (sr_pipe r1) @ later = drop (n + k) ?enc" using r1(6) by simp
    have less: "length (pipe_data (sr_pipe r1)) < length (pipe_data (sr_pipe r))" using r1(1,2,6) False by simp
    have total: "n + k + length (pipe_data (sr_pipe r1)) = n + length (pipe_data (sr_pipe r))"
      using r1(2,6) by simp
    have "fits (packet_room rd ask mode (take (n + k) ?enc)) r1" using r1(4,5) by (simp add: fits_def)
    from less.hyps [OF less this eq] show ?thesis unfolding r1(3) total .
  qed
qed

lemma packet_poll_waits:
  assumes "address_codec ok wr rd" "asks_within ok wr ask" "packet_ok ok mode p"
    and "fits (packet_room rd ask mode (take n (encoded wr mode p))) r"
    and "pipe_data (sr_pipe r) @ later = drop n (encoded wr mode p)" "later \<noteq> []"
  shows "\<exists>r'. packet_poll rd ask mode r (take n (encoded wr mode p)) =
      (r', take (n + length (pipe_data (sr_pipe r))) (encoded wr mode p), PacketPending) \<and>
    pipe_data (sr_pipe r') = [] \<and>
    fits (packet_room rd ask mode (take (n + length (pipe_data (sr_pipe r))) (encoded wr mode p))) r'"
proof -
  from packet_poll_pending [OF assms] obtain r' where
    "packet_poll rd ask mode r (take n (encoded wr mode p)) =
      (r', take (n + length (pipe_data (sr_pipe r))) (encoded wr mode p), PacketPending)"
    "pipe_data (sr_pipe r') = []" "open_pipe (sr_pipe r')"
    "sr_read_fut r' =
      Some (packet_room rd ask mode (take (n + length (pipe_data (sr_pipe r))) (encoded wr mode p)))" by blast
  then show ?thesis by (intro exI [of _ r']) (simp add: fits_def)
qed

section \<open>A relay whose packets are not interrupted\<close>

lemma append_split_le:
  assumes "a @ b = c @ d" "length c \<le> length a"
  shows "a = c @ drop (length c) a \<and> drop (length c) a @ b = d"
  using assms by (auto simp: append_eq_append_conv2)

text \<open>Whether an event completes another branch than the one that reads packets.\<close>

fun interrupts :: "uot_event \<Rightarrow> bool" where
  "interrupts (Tick _) = True"
| "interrupts (Datagram_received _ _) = True"
| "interrupts _ = False"

text \<open>Runs in which no other branch completes while a packet has been read in part.\<close>

fun uninterrupted ::
    "addr_write \<Rightarrow> address reader \<Rightarrow> (byte list \<Rightarrow> nat) \<Rightarrow> conn_ctx \<Rightarrow> uot_mode \<Rightarrow> address \<Rightarrow>
     uot_event list \<Rightarrow> uot_relay \<Rightarrow> bool" where
  "uninterrupted wr rd ask ctx mode fixed [] st = True"
| "uninterrupted wr rd ask ctx mode fixed (e # es) st =
     ((interrupts e \<longrightarrow> ur_seen st = []) \<and>
      uninterrupted wr rd ask ctx mode fixed es (uot_step wr rd ask ctx mode fixed e st))"

text \<open>Events in which nothing fails outside.\<close>

fun smooth :: "(address \<Rightarrow> bool) \<Rightarrow> uot_event \<Rightarrow> bool" where
  "smooth ok (Arrive bs) = (bs \<noteq> [])"
| "smooth ok (PeerEnd _) = False"
| "smooth ok (PollPacket sent) = is_ok sent"
| "smooth ok (Tick _) = True"
| "smooth ok (Datagram_received received written) =
     (is_ok written \<and> (case received of Inl _ \<Rightarrow> False | Inr (payload, a) \<Rightarrow> length payload \<le> 65535 \<and> ok a))"

fun arrived :: "uot_event list \<Rightarrow> byte list" where
  "arrived [] = []"
| "arrived (Arrive bs # es) = bs @ arrived es"
| "arrived (_ # es) = arrived es"

definition target :: "address \<Rightarrow> address option \<times> byte list \<Rightarrow> address \<times> byte list" where
  "target fixed p = (case fst p of Some d \<Rightarrow> d | None \<Rightarrow> fixed, snd p)"

text \<open>
  What holds between the packets \<open>ps\<close> of the client, of which \<open>todo\<close> are not sent on yet, and the
  bytes of the stream, of which \<open>coming\<close> have not arrived yet.
\<close>

fun begun :: "addr_write \<Rightarrow> uot_mode \<Rightarrow> byte list \<Rightarrow> (address option \<times> byte list) list \<Rightarrow> bool" where
  "begun wr mode seen [] = (seen = [])"
| "begun wr mode seen (q # qs) =
     (length seen < length (encoded wr mode q) \<and> seen = take (length seen) (encoded wr mode q))"

definition relay_inv ::
    "(address \<Rightarrow> bool) \<Rightarrow> addr_write \<Rightarrow> address reader \<Rightarrow> (byte list \<Rightarrow> nat) \<Rightarrow> uot_mode \<Rightarrow> address \<Rightarrow>
     (address option \<times> byte list) list \<Rightarrow> byte list \<Rightarrow> uot_relay \<Rightarrow> bool" where
  "relay_inv ok wr rd ask mode fixed ps coming st \<longleftrightarrow>
     (\<exists>gone todo. ps = gone @ todo \<and> ur_sent st = map (target fixed) gone \<and>
        ur_seen st @ pipe_data (sr_pipe (ur_reader st)) @ coming = concat (map (encoded wr mode) todo) \<and>
        begun wr mode (ur_seen st) todo \<and>
        fits (packet_room rd ask mode (ur_seen st)) (ur_reader st))"

lemma relay_invI:
  assumes "ps = gone @ todo" "ur_sent st = map (target fixed) gone"
    and "ur_seen st @ pipe_data (sr_pipe (ur_reader st)) @ coming = concat (map (encoded wr mode) todo)"
    and "begun wr mode (ur_seen st) todo"
    and "fits (packet_room rd ask mode (ur_seen st)) (ur_reader st)"
  shows "relay_inv ok wr rd ask mode fixed ps coming st"
  unfolding relay_inv_def using assms by blast

lemma relay_invE:
  assumes "relay_inv ok wr rd ask mode fixed ps coming st"
  obtains gone todo where "ps = gone @ todo" "ur_sent st = map (target fixed) gone"
    "ur_seen st @ pipe_data (sr_pipe (ur_reader st)) @ coming = concat (map (encoded wr mode) todo)"
    "begun wr mode (ur_seen st) todo"
    "fits (packet_room rd ask mode (ur_seen st)) (ur_reader st)"
  using assms unfolding relay_inv_def by blast

lemma relay_inv_arrive:
  assumes "relay_inv ok wr rd ask mode fixed ps (bs @ coming) st" "bs \<noteq> []"
  shows "relay_inv ok wr rd ask mode fixed ps coming (uot_step wr rd ask ctx mode fixed (Arrive bs) st)"
  using assms(1)
proof (rule relay_invE)
  fix dn todo
  assume a: "ps = dn @ todo" "ur_sent st = map (target fixed) dn"
    "ur_seen st @ pipe_data (sr_pipe (ur_reader st)) @ bs @ coming = concat (map (encoded wr mode) todo)"
    "begun wr mode (ur_seen st) todo"
    "fits (packet_room rd ask mode (ur_seen st)) (ur_reader st)"
  have "open_pipe (sr_pipe (ur_reader st))" using a(5) by (simp add: fits_def)
  from open_pipe_write [OF this assms(2)] a show ?thesis
    by (intro relay_invI [where gone = dn and todo = todo]) (simp_all add: on_pipe_def fits_def)
qed

lemma relay_inv_same:
  assumes "relay_inv ok wr rd ask mode fixed ps coming st"
    and "ur_sent st' = ur_sent st" "ur_seen st' = ur_seen st" "ur_reader st' = ur_reader st"
  shows "relay_inv ok wr rd ask mode fixed ps coming st'"
  using assms by (simp add: relay_inv_def)

lemma relay_inv_poll:
  assumes "address_codec ok wr rd" "asks_within ok wr ask" "list_all (packet_ok ok mode) ps" "ps \<noteq> []"
    and "relay_inv ok wr rd ask mode fixed ps coming st" "ur_exit st = None"
  shows "relay_inv ok wr rd ask mode fixed ps coming (poll_packet rd ask ctx mode fixed (Inr ()) st) \<and>
    ur_exit (poll_packet rd ask ctx mode fixed (Inr ()) st) = None"
  using assms(5)
proof (rule relay_invE)
  fix dn todo
  assume a: "ps = dn @ todo" "ur_sent st = map (target fixed) dn"
    "ur_seen st @ pipe_data (sr_pipe (ur_reader st)) @ coming = concat (map (encoded wr mode) todo)"
    "begun wr mode (ur_seen st) todo"
    "fits (packet_room rd ask mode (ur_seen st)) (ur_reader st)"
  show ?thesis
  proof (cases todo)
    case Nil
    obtain q where q: "q \<in> set ps" "packet_ok ok mode q" using assms(3,4) by (cases ps) auto
    have e: "ur_seen st = take 0 (encoded wr mode q)" "pipe_data (sr_pipe (ur_reader st)) = []" "coming = []"
      using a(3,4) Nil by simp_all
    have "encoded wr mode q \<noteq> []" using encoded_nonempty [OF q(2)] by simp
    from packet_poll_waits [OF assms(1,2) q(2), of 0 "ur_reader st" "encoded wr mode q"] this a(5) e
    obtain r' where "packet_poll rd ask mode (ur_reader st) [] = (r', [], PacketPending)"
      "pipe_data (sr_pipe r') = []" "fits (packet_room rd ask mode []) r'" by auto
    with a(1,2) Nil e assms(6) show ?thesis
      by (auto simp: poll_packet_def intro!: relay_invI [where gone = dn and todo = "[]"])
  next
    case (Cons q rest)
    have q: "packet_ok ok mode q" using a(1) Cons assms(3) by simp
    let ?enc = "encoded wr mode q"
    let ?n = "length (ur_seen st)"
    have n: "?n < length ?enc" "ur_seen st = take ?n ?enc" using a(4) Cons by simp_all
    have stream: "pipe_data (sr_pipe (ur_reader st)) @ coming = drop ?n ?enc @ concat (map (encoded wr mode) rest)"
    proof -
      have "?enc = ur_seen st @ drop ?n ?enc" using n(2) by (metis append_take_drop_id)
      then have "ur_seen st @ pipe_data (sr_pipe (ur_reader st)) @ coming =
          ur_seen st @ drop ?n ?enc @ concat (map (encoded wr mode) rest)"
        using a(3) Cons by (metis append_assoc concat.simps(2) list.map(2))
      then show ?thesis by (simp only: same_append_eq)
    qed
    show ?thesis
    proof (cases "length (drop ?n ?enc) \<le> length (pipe_data (sr_pipe (ur_reader st)))")
      case True
      define left where "left = drop (length (drop ?n ?enc)) (pipe_data (sr_pipe (ur_reader st)))"
      have split: "pipe_data (sr_pipe (ur_reader st)) = drop ?n ?enc @ left"
        "left @ coming = concat (map (encoded wr mode) rest)"
        using append_split_le [OF stream True] by (simp_all add: left_def)
      from packet_poll_ready [OF assms(1,2) q _ _ split(1)] a(5) n obtain r' where
        "packet_poll rd ask mode (ur_reader st) (ur_seen st) = (r', ?enc, PacketReady q)"
        "open_pipe (sr_pipe r')" "pipe_data (sr_pipe r') = left" "sr_read_fut r' = None"
        by (metis less_imp_le)
      moreover have "begun wr mode [] rest"
        using a(1) Cons assms(3) encoded_nonempty [of ok mode _ wr] by (cases rest) auto
      ultimately show ?thesis
        using a(1,2) Cons split(2) assms(6)
        by (auto simp: poll_packet_def forward_packet_def target_def fits_def split: list.splits prod.splits
            intro!: relay_invI [where gone = "dn @ [q]" and todo = rest])
    next
      case False
      define later where "later = drop (length (pipe_data (sr_pipe (ur_reader st)))) (drop ?n ?enc)"
      have split: "pipe_data (sr_pipe (ur_reader st)) @ later = drop ?n ?enc" "later \<noteq> []"
        "coming = later @ concat (map (encoded wr mode) rest)"
        using append_split_le [OF stream [symmetric]] False by (simp_all add: later_def)
      from packet_poll_waits [OF assms(1,2) q _ split(1,2)] a(5) n(2) obtain r' where
        "packet_poll rd ask mode (ur_reader st) (ur_seen st) =
           (r', take (?n + length (pipe_data (sr_pipe (ur_reader st)))) ?enc, PacketPending)"
        "pipe_data (sr_pipe r') = []"
        "fits (packet_room rd ask mode (take (?n + length (pipe_data (sr_pipe (ur_reader st)))) ?enc)) r'"
        by metis
      moreover have "take (?n + length (pipe_data (sr_pipe (ur_reader st)))) ?enc @ later = ?enc"
        by (simp add: later_def add.commute [of ?n])
      ultimately show ?thesis
        using a(1,2) Cons split assms(6) False
        by (auto simp: poll_packet_def intro!: relay_invI [where gone = dn and todo = todo])
    qed
  qed
qed

lemma return_datagram_ok:
  assumes "length payload \<le> 65535" "ok a"
  shows "\<exists>frame. return_datagram wr ctx mode (Inr (payload, a)) (Inr n) st =
    st\<lparr>ur_seen := [], ur_node := ctx_record_down ctx (word_of_nat (length payload)) (ur_node st),
       ur_written := ur_written st @ [frame]\<rparr> \<and>
    frame = encoded wr mode (case mode of Datagram \<Rightarrow> Some a | Connected \<Rightarrow> None, payload)"
proof -
  let ?p = "(case mode of Datagram \<Rightarrow> Some a | Connected \<Rightarrow> None, payload)"
  have "packet_ok ok mode ?p" using assms by (auto simp: packet_ok_def split: uot_mode.splits)
  from encode_ok [OF this, of wr] obtain frame where "uot_encode_packet wr mode (fst ?p) (snd ?p) = Inr frame" by blast
  then show ?thesis by (auto simp: return_datagram_def encoded_def Let_def)
qed

text \<open>The counters of a connection's user.\<close>

lemma ctx_record_user:
  assumes "cx_user ctx = Some u" "au_entry u < length (rg_heap (fst d))"
  shows "ue_up (entry_at (fst (ctx_record_up ctx n d)) (au_entry u)) = ue_up (entry_at (fst d) (au_entry u)) + n"
    "ue_down (entry_at (fst (ctx_record_up ctx n d)) (au_entry u)) = ue_down (entry_at (fst d) (au_entry u))"
    "length (rg_heap (fst (ctx_record_up ctx n d))) = length (rg_heap (fst d))"
    "ue_up (entry_at (fst (ctx_record_down ctx n d)) (au_entry u)) = ue_up (entry_at (fst d) (au_entry u))"
    "ue_down (entry_at (fst (ctx_record_down ctx n d)) (au_entry u)) = ue_down (entry_at (fst d) (au_entry u)) + n"
    "length (rg_heap (fst (ctx_record_down ctx n d))) = length (rg_heap (fst d))"
  using assms
  by (simp_all add: ctx_record_up_def ctx_record_down_def authed_record_up_def authed_record_down_def upd_entry_def
      entry_record_up_def entry_record_down_def)

definition payload_total :: "('a \<times> byte list) list \<Rightarrow> nat" where
  "payload_total ps = sum_list (map (\<lambda>p. length (snd p)) ps)"

lemma payload_total_simps [simp]:
  "payload_total [] = 0" "payload_total (ps @ qs) = payload_total ps + payload_total qs"
  "payload_total [p] = length (snd p)"
  by (simp_all add: payload_total_def)

text \<open>The datagrams of the events, as they are written to the stream.\<close>

fun returned :: "uot_mode \<Rightarrow> uot_event list \<Rightarrow> (address option \<times> byte list) list" where
  "returned mode [] = []"
| "returned mode (Datagram_received (Inr (payload, a)) w # es) =
     (case mode of Datagram \<Rightarrow> Some a | Connected \<Rightarrow> None, payload) # returned mode es"
| "returned mode (e # es) = returned mode es"

definition counted :: "conn_ctx \<Rightarrow> uot_relay \<Rightarrow> node_data \<Rightarrow> nat \<Rightarrow> bool" where
  "counted ctx st d down \<longleftrightarrow>
     (\<forall>u. cx_user ctx = Some u \<longrightarrow> au_entry u < length (rg_heap (fst d)) \<longrightarrow>
        length (rg_heap (fst (ur_node st))) = length (rg_heap (fst d)) \<and>
        ue_up (entry_at (fst (ur_node st)) (au_entry u)) =
          ue_up (entry_at (fst d) (au_entry u)) + word_of_nat (payload_total (ur_sent st)) \<and>
        ue_down (entry_at (fst (ur_node st)) (au_entry u)) =
          ue_down (entry_at (fst d) (au_entry u)) + word_of_nat down)"

lemma counted_same:
  "counted ctx st d n \<Longrightarrow> ur_node st' = ur_node st \<Longrightarrow> ur_sent st' = ur_sent st \<Longrightarrow> counted ctx st' d n"
  by (simp add: counted_def)

lemma counted_up:
  assumes "counted ctx st d n" "ur_node st' = ctx_record_up ctx (word_of_nat (length payload)) (ur_node st)"
    and "ur_sent st' = ur_sent st @ [(a, payload)]"
  shows "counted ctx st' d n"
  using assms by (simp add: counted_def ctx_record_user)

lemma counted_down:
  assumes "counted ctx st d n" "ur_node st' = ctx_record_down ctx (word_of_nat m) (ur_node st)"
    and "ur_sent st' = ur_sent st"
  shows "counted ctx st' d (n + m)"
  using assms by (simp add: counted_def ctx_record_user)

lemma poll_packet_counted:
  assumes "counted ctx st d n"
  shows "counted ctx (poll_packet rd ask ctx mode fixed (Inr ()) st) d n"
    "ur_written (poll_packet rd ask ctx mode fixed (Inr ()) st) = ur_written st"
proof -
  obtain r seen res where p: "packet_poll rd ask mode (ur_reader st) (ur_seen st) = (r, seen, res)"
    using prod_cases3 by blast
  show "ur_written (poll_packet rd ask ctx mode fixed (Inr ()) st) = ur_written st"
    using p by (auto simp: poll_packet_def forward_packet_def Let_def split: packet_polled.splits prod.splits)
  show "counted ctx (poll_packet rd ask ctx mode fixed (Inr ()) st) d n"
  proof (cases res)
    case (PacketReady packet)
    obtain dst payload where "packet = (dst, payload)" by (cases packet)
    with p PacketReady show ?thesis
      by (intro counted_up [OF assms, where payload = payload and a = "case dst of Some d \<Rightarrow> d | None \<Rightarrow> fixed"])
        (simp_all add: poll_packet_def forward_packet_def)
  qed (use p in \<open>auto simp: poll_packet_def intro: counted_same [OF assms]\<close>)
qed

lemma relay_inv_prefix:
  "relay_inv ok wr rd ask mode fixed ps coming st \<Longrightarrow> \<exists>k. ur_sent st = map (target fixed) (take k ps)"
proof (erule relay_invE)
  fix gone todo
  assume "ps = gone @ todo" "ur_sent st = map (target fixed) gone"
  then show "\<exists>k. ur_sent st = map (target fixed) (take k ps)" by (intro exI [of _ "length gone"]) simp
qed

lemma uot_run_exit: "ur_exit st \<noteq> None \<Longrightarrow> uot_run wr rd ask ctx mode fixed es st = st"
  by (cases es) auto

lemma relay_run:
  assumes "address_codec ok wr rd" "asks_within ok wr ask" "list_all (packet_ok ok mode) ps" "ps \<noteq> []"
    and "relay_inv ok wr rd ask mode fixed ps (arrived es @ coming) st" "ur_exit st = None"
    and "uninterrupted wr rd ask ctx mode fixed es st" "list_all (smooth ok) es" "counted ctx st d n"
  defines "st' \<equiv> uot_run wr rd ask ctx mode fixed es st"
  shows "ur_exit st' = Some RelayDenied \<and> (\<exists>k. ur_sent st' = map (target fixed) (take k ps)) \<or>
    ur_exit st' = None \<and> relay_inv ok wr rd ask mode fixed ps coming st' \<and>
      ur_written st' = ur_written st @ map (encoded wr mode) (returned mode es) \<and>
      counted ctx st' d (n + payload_total (returned mode es))"
  using assms(5-9) unfolding st'_def
proof (induction es arbitrary: st n)
  case Nil
  then show ?case by simp
next
  case (Cons e es)
  let ?st = "uot_step wr rd ask ctx mode fixed e st"
  have rest: "uninterrupted wr rd ask ctx mode fixed es ?st" "list_all (smooth ok) es" using Cons.prems by simp_all
  have run: "uot_run wr rd ask ctx mode fixed (e # es) st = uot_run wr rd ask ctx mode fixed es ?st"
    using Cons.prems(2) by simp
  show ?case
  proof (cases e)
    case (Arrive bs)
    have "relay_inv ok wr rd ask mode fixed ps (arrived es @ coming) ?st"
      using relay_inv_arrive Cons.prems(1,4) Arrive by simp
    moreover have "ur_exit ?st = None" "counted ctx ?st d n" "ur_written ?st = ur_written st"
      using Cons.prems(2,5) Arrive by (auto intro: counted_same)
    ultimately show ?thesis using Cons.IH [OF _ _ rest] run Arrive by simp
  next
    case (PeerEnd x)
    then show ?thesis using Cons.prems(4) by simp
  next
    case (PollPacket sent)
    then have "sent = Inr ()" using Cons.prems(4) by (cases sent) auto
    with relay_inv_poll [OF assms(1-4) _ Cons.prems(2)] poll_packet_counted [OF Cons.prems(5)] Cons.prems(1) PollPacket
    have "relay_inv ok wr rd ask mode fixed ps (arrived es @ coming) ?st" "ur_exit ?st = None"
      "counted ctx ?st d n" "ur_written ?st = ur_written st" by auto
    then show ?thesis using Cons.IH [OF _ _ rest] run PollPacket by simp
  next
    case (Tick now)
    then have seen: "ur_seen st = []" using Cons.prems(3) by simp
    have inv: "relay_inv ok wr rd ask mode fixed ps (arrived es @ coming) ?st"
    proof (rule relay_inv_same)
      show "relay_inv ok wr rd ask mode fixed ps (arrived es @ coming) st" using Cons.prems(1) Tick by simp
    qed (simp_all add: Tick seen Let_def)
    show ?thesis
    proof (cases "ctx_approved now ctx (ur_node st)")
      case True
      then have "ur_exit ?st = None" "counted ctx ?st d n" "ur_written ?st = ur_written st"
        using Cons.prems(2,5) Tick by (auto intro: counted_same)
      then show ?thesis using Cons.IH [OF inv _ rest] run Tick by simp
    next
      case False
      then have "ur_exit ?st = Some RelayDenied" using Tick by simp
      then show ?thesis using relay_inv_prefix [OF inv] run uot_run_exit [of ?st] by simp
    qed
  next
    case (Datagram_received received written)
    then obtain payload a k where r: "received = Inr (payload, a)" "written = Inr k" "length payload \<le> 65535" "ok a"
      using Cons.prems(4) by (cases written) (auto split: sum.splits)
    have seen: "ur_seen st = []" using Cons.prems(3) Datagram_received by simp
    obtain frame where f: "?st = st\<lparr>ur_seen := [],
        ur_node := ctx_record_down ctx (word_of_nat (length payload)) (ur_node st),
        ur_written := ur_written st @ [frame]\<rparr>"
      "frame = encoded wr mode (case mode of Datagram \<Rightarrow> Some a | Connected \<Rightarrow> None, payload)"
      using return_datagram_ok [where ok = ok and a = a, OF r(3,4), of wr ctx mode k st] Datagram_received r(1,2) by auto
    have inv: "relay_inv ok wr rd ask mode fixed ps (arrived es @ coming) ?st"
    proof (rule relay_inv_same)
      show "relay_inv ok wr rd ask mode fixed ps (arrived es @ coming) st" using Cons.prems(1) Datagram_received by simp
    qed (simp_all add: f seen)
    have c: "counted ctx ?st d (n + length payload)" by (rule counted_down [OF Cons.prems(5)]) (simp_all add: f)
    have "ur_exit ?st = None" using Cons.prems(2) f by simp
    from Cons.IH [OF inv this rest c] run f Datagram_received r show ?thesis
      by (simp add: payload_total_def add.assoc)
  qed
qed

section \<open>Properties\<close>

text \<open>
  C26. Datagrams arrive whole and in order. Let a client send any packets over its stream, cut in any
  way, and let the relay's branches complete in any order, except that the check of the approval and
  datagrams from outside do not come while a packet has been read in part. Then the relay neither
  panics nor fails: it sends on the packets in order, each to its destination, and when all bytes have
  been read, all of them; it writes the datagrams from outside to the stream in order; and it counts
  for the user exactly the payload of both directions. It ends only when the approval ends.
\<close>

theorem uot_relay_exact:
  assumes "address_codec ok wr rd" "asks_within ok wr ask" "list_all (packet_ok ok mode) ps" "ps \<noteq> []"
    and "open_pipe p" "pipe_data p = []"
    and "arrived es @ coming = concat (map (encoded wr mode) ps)" "list_all (smooth ok) es"
    and "uninterrupted wr rd ask ctx mode fixed es (uot_relay_new p d)"
    and "cx_user ctx = Some u" "au_entry u < length (rg_heap (fst d))"
  shows "let st = uot_run wr rd ask ctx mode fixed es (uot_relay_new p d) in
    (\<exists>k. ur_sent st = map (target fixed) (take k ps)) \<and>
    (ur_exit st = Some RelayDenied \<or>
     ur_exit st = None \<and>
     (ur_seen st @ pipe_data (sr_pipe (ur_reader st)) @ coming = [] \<longrightarrow> ur_sent st = map (target fixed) ps) \<and>
     ur_written st = map (encoded wr mode) (returned mode es) \<and>
     ue_up (entry_at (fst (ur_node st)) (au_entry u)) =
       ue_up (entry_at (fst d) (au_entry u)) + word_of_nat (payload_total (ur_sent st)) \<and>
     ue_down (entry_at (fst (ur_node st)) (au_entry u)) =
       ue_down (entry_at (fst d) (au_entry u)) + word_of_nat (payload_total (returned mode es)))"
proof -
  let ?new = "uot_relay_new p d"
  define st where "st = uot_run wr rd ask ctx mode fixed es ?new"
  have ne: "encoded wr mode q \<noteq> []" if "q \<in> set ps" for q
    using that assms(3) encoded_nonempty [of ok mode q wr] by (auto simp: list_all_iff)
  have "begun wr mode [] ps" using ne [of "hd ps"] by (cases ps) auto
  then have "relay_inv ok wr rd ask mode fixed ps (arrived es @ coming) ?new"
    using assms(5-7)
    by (intro relay_invI [where gone = "[]" and todo = ps])
      (simp_all add: uot_relay_new_def stream_reader_new_def fits_def)
  moreover have "ur_exit ?new = None" "counted ctx ?new d 0" by (simp_all add: uot_relay_new_def counted_def)
  ultimately have run: "ur_exit st = Some RelayDenied \<and> (\<exists>k. ur_sent st = map (target fixed) (take k ps)) \<or>
    ur_exit st = None \<and> relay_inv ok wr rd ask mode fixed ps coming st \<and>
      ur_written st = map (encoded wr mode) (returned mode es) \<and>
      counted ctx st d (payload_total (returned mode es))"
    using relay_run [OF assms(1-4) _ _ assms(9,8), of coming d 0] unfolding st_def by (simp add: uot_relay_new_def)
  have all: "ur_sent st = map (target fixed) ps"
    if "relay_inv ok wr rd ask mode fixed ps coming st" "ur_seen st @ pipe_data (sr_pipe (ur_reader st)) @ coming = []"
    using that(1)
  proof (rule relay_invE)
    fix gone todo
    assume g: "ps = gone @ todo" "ur_sent st = map (target fixed) gone"
      "ur_seen st @ pipe_data (sr_pipe (ur_reader st)) @ coming = concat (map (encoded wr mode) todo)"
    then have "todo = []" using that(2) ne [of "hd todo"] by (cases todo) auto
    with g show ?thesis by simp
  qed
  show ?thesis
    unfolding st_def [symmetric] Let_def
    using run relay_inv_prefix [of ok wr rd ask mode fixed ps coming st] all assms(10,11)
    by (auto simp: counted_def)
qed

text \<open>How the reader of addresses works on the concrete format: type, length, then name and port.\<close>

definition domain_ask :: "byte list \<Rightarrow> nat" where
  "domain_ask seen = (if length seen < 2 then 1 else unat (seen ! 1) + 4 - length seen)"

definition sample_destination :: address where
  "sample_destination = DomainAddress ''a'' 53"

definition sample_ctx :: conn_ctx where
  "sample_ctx = \<lparr>cx_user = Some \<lparr>au_entry = 0, au_generation = 0\<rparr>, cx_client_id = None, cx_panel_sync_enabled = False\<rparr>"

definition sample_registry :: registry where
  "sample_registry = \<lparr>rg_heap = [user_entry_new (sample_spec ''a@x'' ''pw-a'')], rg_by_email = [(''a@x'', 0)], rg_by_hash = []\<rparr>"

definition sample_events :: "uot_event list" where
  "sample_events =
     [Tick 5, Arrive [0], PollPacket (Inr ()), Arrive [2, 7, 8], PollPacket (Inr ())]"

lemma domain_asks: "asks_within domain_ok domain_write domain_ask"
  unfolding asks_within_def
proof (intro allI impI)
  fix a n
  assume a: "domain_ok a" "n < length (domain_write a)"
  then obtain d p where d: "a = DomainAddress d p" "length d < 256" by (cases a) (auto simp: domain_ok_def)
  have len: "unat (word_of_nat (length d) :: byte) = length d" using d(2) by (simp add: unat_of_nat)
  show "0 < domain_ask (take n (domain_write a)) \<and> domain_ask (take n (domain_write a)) \<le> length (domain_write a) - n"
  proof (cases "n < 2")
    case True
    then show ?thesis using a(2) by (simp add: domain_ask_def)
  next
    case False
    then obtain k where "n = Suc (Suc k)" by (metis add_2_eq_Suc le_add_diff_inverse not_less)
    then show ?thesis using a(2) d len by (auto simp: domain_ask_def min_def)
  qed
qed

theorem uot_relay_exact_witness:
  "\<exists>k. ur_sent (uot_run domain_write domain_read domain_ask sample_ctx Connected sample_destination sample_events
       (uot_relay_new pipe (sample_registry, []))) = map (target sample_destination) (take k [(None, [7, 8])])"
proof -
  have c: "list_all (packet_ok domain_ok Connected) [(None, [7, 8])]" by (simp add: packet_ok_def)
  have o: "open_pipe pipe" "pipe_data pipe = []"
    by (simp_all add: open_pipe_def pipe_open_def no_empty_data_def pipe_inv_new) (simp_all add: pipe_def pipe_data_def)
  have e: "arrived sample_events @ [] = concat (map (encoded domain_write Connected) [(None, [7, 8])])"
    by (simp add: sample_events_def encoded_def uot_encode_packet_def put_u16_eval)
  have s: "list_all (smooth domain_ok) sample_events" by (simp add: sample_events_def)
  have u: "uninterrupted domain_write domain_read domain_ask sample_ctx Connected sample_destination sample_events
      (uot_relay_new pipe (sample_registry, []))"
    by (simp add: sample_events_def uot_relay_new_def)
  show ?thesis
    using uot_relay_exact [OF domain_codec domain_asks c _ o e s u]
    by (simp add: sample_ctx_def sample_registry_def Let_def)
qed

section \<open>A packet that is interrupted\<close>

text \<open>
  C27. A tick between the length of a packet and its payload makes the relay panic: the tick drops the
  future that had read the length, the adapter keeps the read for the payload, and the new future,
  which asks for the two bytes of a length, is given the whole payload.
\<close>

theorem interrupted_packet_panics:
  assumes "address_codec ok wr rd" "asks_within ok wr ask"
    and "2 < length payload" "length payload \<le> 65535" "open_pipe p" "pipe_data p = []"
    and "ctx_approved now ctx d"
  shows "ur_exit (uot_run wr rd ask ctx Connected fixed
      [Arrive (put_u16 (word_of_nat (length payload))), PollPacket sent, Tick now, Arrive payload, PollPacket sent]
      (uot_relay_new p d)) = Some RelayPanic"
proof -
  define len :: "byte list" where "len = put_u16 (word_of_nat (length payload))"
  let ?q = "(None :: address option, payload)"
  have q: "packet_ok ok Connected ?q" using assms(4) by (simp add: packet_ok_def)
  have enc: "encoded wr Connected ?q = len @ payload"
    using assms(4) by (simp add: encoded_def uot_encode_packet_def len_def)
  have len: "length len = 2" by (simp add: len_def)
  then have ne: "len \<noteq> []" "payload \<noteq> []" using assms(3) by auto
  have room: "packet_room rd ask Connected len = length payload"
    using assms(4) get_put_u16 [of "word_of_nat (length payload)" "[]"]
    by (simp add: packet_room_def payload_room_def unat_of_nat len_def)
  define r where "r = on_pipe (\<lambda>p. fst (pipe_write len p)) (stream_reader_new p)"
  have r: "open_pipe (sr_pipe r)" "pipe_data (sr_pipe r) = len" "sr_read_fut r = None"
    using open_pipe_write [OF assms(5) ne(1)] assms(6) by (simp_all add: r_def on_pipe_def stream_reader_new_def)
  from packet_poll_pending [OF assms(1,2) q, of 0 r payload] r ne(2) enc len room
  obtain r' where r': "packet_poll rd ask Connected r [] = (r', len, PacketPending)"
    "pipe_data (sr_pipe r') = []" "open_pipe (sr_pipe r')" "sr_read_fut r' = Some (length payload)"
    by (auto simp: fits_def)
  define r2 where "r2 = on_pipe (\<lambda>p. fst (pipe_write payload p)) r'"
  have r2: "open_pipe (sr_pipe r2)" "pipe_data (sr_pipe r2) = payload" "sr_read_fut r2 = Some (length payload)"
    using open_pipe_write [OF r'(3) ne(2)] r'(2,4) by (simp_all add: r2_def on_pipe_def)
  obtain p3 where i: "inner_poll (length payload) (sr_pipe r2) = (p3, Ready (Inr payload))"
    using inner_poll_event [OF r'(3,2) ne(2), of "length payload"] by (auto simp: r2_def on_pipe_def)
  obtain m where m: "uot_get_packet_from_stream rd Connected [] = Inl (IoError UnexpectedEof m)"
    using get_packet_cut [OF assms(1) q, of 0] enc ne(1) by auto
  have "packet_room rd ask Connected [] = 2" by (simp add: packet_room_def payload_room_def)
  then have "reader_poll_read (packet_room rd ask Connected []) r2 = (r2\<lparr>sr_pipe := p3, sr_read_fut := None\<rparr>, PollPanic)"
    using i r2(3) assms(3) by (simp add: reader_poll_read_Some put_slice_def)
  with m have panic: "snd (packet_poll rd ask Connected r2 []) = ([], PacketPanic)"
    by (simp add: packet_poll.simps)
  have run: "uot_run wr rd ask ctx Connected fixed
      [Arrive len, PollPacket sent, Tick now, Arrive payload, PollPacket sent] (uot_relay_new p d) =
    poll_packet rd ask ctx Connected fixed sent ((uot_relay_new p d)\<lparr>ur_reader := r2\<rparr>)"
    using r'(1) assms(7) by (simp add: uot_relay_new_def r_def [symmetric] poll_packet_def r2_def)
  show ?thesis
    unfolding len_def [symmetric] run
    using panic by (auto simp: poll_packet_def uot_relay_new_def split: prod.splits)
qed

theorem interrupted_packet_panics_witness:
  "ur_exit (uot_run domain_write domain_read domain_ask sample_ctx Connected sample_destination
      [Arrive (put_u16 (word_of_nat (length [1, 2, 3 :: byte]))), PollPacket (Inr ()), Tick 5, Arrive [1, 2, 3],
       PollPacket (Inr ())] (uot_relay_new pipe (sample_registry, []))) = Some RelayPanic"
proof -
  have o: "open_pipe pipe" "pipe_data pipe = []"
    by (simp_all add: open_pipe_def pipe_open_def no_empty_data_def pipe_inv_new) (simp_all add: pipe_def pipe_data_def)
  have "ctx_approved 5 sample_ctx (sample_registry, [])"
    by (simp add: ctx_approved_def sample_ctx_def sample_registry_def authed_deny_reason_def deny_reason_at_def
        user_entry_new_def sample_spec_def quota_used_def saturating_add_def saturating_sub_def)
  then show ?thesis
    by (intro interrupted_packet_panics [OF domain_codec domain_asks _ _ o]) simp_all
qed

end
