(* ===== verification/Tcp_Relay.thy ===== *)
theory Tcp_Relay
  imports Server_Relay Session_Props
begin

text \<open>
  Properties of \<open>handle_tcp_stream\<close> of \<open>src/bin/server.rs\<close>: what a relayed connection carries and
  counts in both directions, how an error of one direction reaches the other, and what the client is
  told when there is no outbound connection.
\<close>

section \<open>Reading with a buffer of one size\<close>

definition steady :: "nat \<Rightarrow> stream_reader \<Rightarrow> bool" where
  "steady room r \<longleftrightarrow> pipe_inv (sr_pipe r) \<and> (sr_read_fut r = None \<or> sr_read_fut r = Some room)"

lemma reader_poll_steady:
  assumes "steady room r" "0 < room" "reader_poll_read room r = (r', res)"
  shows "steady room r' \<and> res \<noteq> PollPanic \<and>
    (\<forall>bs. res = Polled (Ready (Inr bs)) \<longrightarrow> pipe_data (sr_pipe r) = bs @ pipe_data (sr_pipe r')) \<and>
    ((\<nexists>bs. res = Polled (Ready (Inr bs))) \<longrightarrow> pipe_data (sr_pipe r') = pipe_data (sr_pipe r))"
proof -
  define r0 where "r0 = r\<lparr>sr_read_fut := Some room\<rparr>"
  have "reader_poll_read room r = reader_poll_read room r0"
    using assms(1,2) reader_poll_started [of r room] by (simp add: steady_def r0_def)
  moreover obtain p res0 where i: "inner_poll room (sr_pipe r) = (p, res0)" by (cases "inner_poll room (sr_pipe r)")
  moreover have inv: "pipe_inv (sr_pipe r)" using assms(1) by (simp add: steady_def)
  ultimately show ?thesis
    using assms(3) inner_poll_data [OF inv i]
    by (auto simp: r0_def steady_def reader_poll_read_Some put_slice_def split: poll.splits sum.splits)
qed

lemma steady_on_pipe:
  "steady room r \<Longrightarrow> (pipe_inv (sr_pipe r) \<Longrightarrow> pipe_inv (f (sr_pipe r))) \<Longrightarrow> steady room (on_pipe f r)"
  by (simp add: steady_def on_pipe_def)

lemma pipe_data_ends:
  "pipe_data (finish_stream e p) = pipe_data p" "pipe_data (close_with_error e p) = pipe_data p"
  by (auto simp: pipe_data_def finish_stream_def close_with_error_def channel_send_def Let_def)

lemma pipe_data_written:
  "pipe_data (fst (pipe_write bs p)) = pipe_data p @ (if is_ok (snd (pipe_write bs p)) then bs else [])"
  by (auto simp: pipe_write_def channel_send_def pipe_data_def)

section \<open>What a connection carries\<close>

text \<open>The bytes the stream took from the client during a run, and the bytes read from the outbound side.\<close>

fun taken_by :: "tcp_relay \<Rightarrow> tcp_event \<Rightarrow> byte list" where
  "taken_by st (TcpArrive bs) = (if is_ok (snd (pipe_write bs (sr_pipe (tr_reader st)))) then bs else [])"
| "taken_by st _ = []"

fun fetched_by :: "tcp_relay \<Rightarrow> tcp_event \<Rightarrow> byte list" where
  "fetched_by st (O2sRead (Inr bs) _ _) = (if tr_o2s st = Active then bs else [])"
| "fetched_by st _ = []"

fun over_run :: "(tcp_relay \<Rightarrow> tcp_event \<Rightarrow> byte list) \<Rightarrow> conn_ctx \<Rightarrow> tcp_event list \<Rightarrow> tcp_relay \<Rightarrow> byte list" where
  "over_run f ctx [] st = []"
| "over_run f ctx (e # es) st = f st e @ over_run f ctx es (tcp_step ctx e st)"

text \<open>Both directions, with the bytes that were read and counted when writing them failed.\<close>

definition outward :: "byte list \<Rightarrow> byte list \<Rightarrow> tcp_relay \<Rightarrow> bool" where
  "outward sent lost st \<longleftrightarrow>
     steady 4096 (tr_reader st) \<and> tr_out st @ lost @ pipe_data (sr_pipe (tr_reader st)) = sent \<and>
     (tr_s2o st = Active \<longrightarrow> lost = [])"

definition inward :: "byte list \<Rightarrow> byte list \<Rightarrow> tcp_relay \<Rightarrow> bool" where
  "inward sent lost st \<longleftrightarrow> concat (tr_in st) @ lost = sent \<and> (tr_o2s st = Active \<longrightarrow> lost = [])"

definition traffic :: "nat \<Rightarrow> node_data \<Rightarrow> nat \<Rightarrow> nat \<Rightarrow> node_data \<Rightarrow> bool" where
  "traffic a d up down d' \<longleftrightarrow>
     length (rg_heap (fst d')) = length (rg_heap (fst d)) \<and>
     ue_up (entry_at (fst d') a) = ue_up (entry_at (fst d) a) + word_of_nat up \<and>
     ue_down (entry_at (fst d') a) = ue_down (entry_at (fst d) a) + word_of_nat down"

lemma traffic_record:
  assumes "traffic (au_entry u) d up down d'" "cx_user ctx = Some u" "au_entry u < length (rg_heap (fst d))"
  shows "traffic (au_entry u) d (up + n) down (ctx_record_up ctx (word_of_nat n) d')"
    "traffic (au_entry u) d up (down + n) (ctx_record_down ctx (word_of_nat n) d')"
  using assms by (simp_all add: traffic_def ctx_record_user)

definition carried :: "authed_user \<Rightarrow> node_data \<Rightarrow> byte list \<Rightarrow> byte list \<Rightarrow> tcp_relay \<Rightarrow> bool" where
  "carried u d sent fetched st \<longleftrightarrow>
     (\<exists>lost lost'. outward sent lost st \<and> inward fetched lost' st \<and>
        traffic (au_entry u) d (length (tr_out st @ lost)) (length fetched) (tr_node st))"

lemma carried_ends:
  assumes "carried u d sent fetched st"
  shows "carried u d sent fetched (s2o_end c r s st)" "carried u d sent fetched (o2s_end r st)"
    "carried u d sent fetched (st\<lparr>tr_stream_closed := b\<rparr>)"
  using assms by (auto simp: carried_def outward_def inward_def s2o_end_def o2s_end_def)

lemma s2o_end_fields [simp]:
  "tr_reader (s2o_end c r s st) = tr_reader st" "tr_out (s2o_end c r s st) = tr_out st"
  "tr_in (s2o_end c r s st) = tr_in st" "tr_node (s2o_end c r s st) = tr_node st"
  "tr_o2s (s2o_end c r s st) = tr_o2s st" "tr_s2o (s2o_end c r s st) \<noteq> Active"
  by (simp_all add: s2o_end_def)

lemma carried_s2o_poll:
  assumes "carried u d sent fetched st" "tr_s2o st = Active"
    and "cx_user ctx = Some u" "au_entry u < length (rg_heap (fst d))"
  shows "carried u d sent fetched (s2o_poll ctx written shutdown st)"
proof -
  obtain lost' where c: "outward sent [] st" "inward fetched lost' st"
    "traffic (au_entry u) d (length (tr_out st)) (length fetched) (tr_node st)"
    using assms(1,2) by (auto simp: carried_def outward_def)
  obtain r res where r: "reader_poll_read 4096 (tr_reader st) = (r, res)" by (cases "reader_poll_read 4096 (tr_reader st)")
  have st: "steady 4096 (tr_reader st)" using c(1) by (simp add: outward_def)
  note s = reader_poll_steady [OF st _ r, simplified]
  have quiet: "carried u d sent fetched (st\<lparr>tr_reader := r\<rparr>)" if "\<nexists>bs. res = Polled (Ready (Inr bs))"
    using c s that unfolding carried_def
    by (intro exI [of _ "[]"] exI [of _ lost']) (simp add: outward_def inward_def)
  consider bs where "res = Polled (Ready (Inr bs))" | e where "res = Polled (Ready (Inl e))" | "res = Polled Pending"
    using s by (cases res) (auto split: poll.splits sum.splits, metis poll.exhaust sum.exhaust)
  then show ?thesis
  proof cases
    case (1 bs)
    then have d: "pipe_data (sr_pipe (tr_reader st)) = bs @ pipe_data (sr_pipe r)" using s by simp
    note t = traffic_record(1) [OF c(3) assms(3,4), of "length bs"]
    show ?thesis
    proof (cases "bs = []")
      case True
      then show ?thesis using 1 r c s d unfolding carried_def s2o_poll_def
        by (intro exI [of _ "[]"] exI [of _ lost']) (simp add: outward_def inward_def)
    next
      case False
      show ?thesis
      proof (cases written)
        case (Inl e)
        with 1 False r c s d t show ?thesis unfolding carried_def s2o_poll_def
          by (intro exI [of _ bs] exI [of _ lost']) (simp add: outward_def inward_def)
      next
        case (Inr x)
        with 1 False r c s d t assms(2) show ?thesis unfolding carried_def s2o_poll_def
          by (intro exI [of _ "[]"] exI [of _ lost']) (simp add: outward_def inward_def)
      qed
    qed
  qed (use r quiet in \<open>auto simp: s2o_poll_def intro: carried_ends\<close>)
qed

lemma carried_o2s_read:
  assumes "carried u d sent fetched st" "tr_o2s st = Active"
    and "cx_user ctx = Some u" "au_entry u < length (rg_heap (fst d))"
  shows "carried u d sent (fetched @ fetched_by st (O2sRead res written closed)) (o2s_read ctx res written closed st)"
proof -
  obtain lost where c: "outward sent lost st" "inward fetched [] st"
    "traffic (au_entry u) d (length (tr_out st @ lost)) (length fetched) (tr_node st)"
    using assms(1,2) by (auto simp: carried_def inward_def)
  show ?thesis
  proof (cases res)
    case (Inl e)
    then show ?thesis using assms(1) by (simp add: o2s_read_def carried_ends)
  next
    case (Inr bs)
    note t = traffic_record(2) [OF c(3) assms(3,4), of "length bs"]
    show ?thesis
    proof (cases "bs = []")
      case True
      then show ?thesis using Inr assms(1) unfolding o2s_read_def
        by (cases closed) (auto simp: carried_def outward_def inward_def o2s_end_def)
    next
      case False
      show ?thesis
      proof (cases written)
        case (Inl e)
        with Inr False c t assms(2) show ?thesis unfolding carried_def o2s_read_def
          by (intro exI [of _ lost] exI [of _ bs]) (simp add: outward_def inward_def o2s_end_def)
      next
        case wr: (Inr x)
        with Inr False c t assms(2) show ?thesis unfolding carried_def o2s_read_def
          by (intro exI [of _ lost] exI [of _ "[]"]) (simp add: outward_def inward_def)
      qed
    qed
  qed
qed

lemma carried_pipe:
  assumes "carried u d sent fetched st" "\<And>p. pipe_inv p \<Longrightarrow> pipe_inv (f p)" "\<And>p. pipe_data (f p) = pipe_data p @ g p"
  shows "carried u d (sent @ g (sr_pipe (tr_reader st))) fetched (st\<lparr>tr_reader := on_pipe f (tr_reader st)\<rparr>)"
proof -
  obtain lost lost' where "outward sent lost st" "inward fetched lost' st"
    "traffic (au_entry u) d (length (tr_out st @ lost)) (length fetched) (tr_node st)"
    using assms(1) by (auto simp: carried_def)
  then show ?thesis
    using assms(2,3) unfolding carried_def
    by (intro exI [of _ lost] exI [of _ lost']) (auto simp: outward_def inward_def steady_def on_pipe_def)
qed

lemma carried_step:
  assumes "carried u d sent fetched st" "cx_user ctx = Some u" "au_entry u < length (rg_heap (fst d))"
  shows "carried u d (sent @ taken_by st e) (fetched @ fetched_by st e) (tcp_step ctx e st)"
proof (cases e)
  case (TcpArrive bs)
  from carried_pipe [OF assms(1), of "\<lambda>p. fst (pipe_write bs p)"
      "\<lambda>p. if is_ok (snd (pipe_write bs p)) then bs else []"] TcpArrive
  show ?thesis by (simp add: pipe_inv_write pipe_data_written)
next
  case (TcpPeerEnd x)
  from carried_pipe [OF assms(1), of "finish_stream x" "\<lambda>_. []"] TcpPeerEnd
  show ?thesis by (simp add: pipe_inv_finish pipe_data_ends)
next
  case TcpPipeClosed
  from carried_pipe [OF assms(1), of "close_with_error None" "\<lambda>_. []"] TcpPipeClosed assms(1)
  show ?thesis by (simp add: pipe_inv_close pipe_data_ends)
next
  case (S2oPoll w s)
  with carried_s2o_poll [OF assms(1) _ assms(2,3)] assms(1) show ?thesis by simp
next
  case (O2sRead res w c)
  with carried_o2s_read [OF assms(1) _ assms(2,3), of res w c] assms(1) show ?thesis
    by (cases res) auto
qed (use assms(1) in \<open>auto intro: carried_ends\<close>)

lemma carried_run:
  assumes "carried u d sent fetched st" "cx_user ctx = Some u" "au_entry u < length (rg_heap (fst d))"
  shows "carried u d (sent @ over_run taken_by ctx es st) (fetched @ over_run fetched_by ctx es st) (tcp_run ctx es st)"
  using assms(1)
proof (induction es arbitrary: sent fetched st)
  case (Cons e es)
  from Cons.IH [OF carried_step [OF Cons.prems assms(2,3), of e]] show ?case by simp
qed simp

text \<open>
  C28. A relayed connection carries the bytes of both sides unchanged, in order, with none added, for
  every interleaving of its branches: towards the outbound side, what was written, followed by at most
  one piece whose write failed, and by what the stream still holds, is what the client sent; while the
  direction runs nothing is lost. The same holds towards the client. The traffic counters of the user
  advance by the bytes that were read, modulo \<open>2\<^sup>6\<^sup>4\<close>.
\<close>

theorem tcp_relay_exact:
  assumes "pipe_inv p" "pipe_data p = []" "cx_user ctx = Some u" "au_entry u < length (rg_heap (fst d))"
    and "st = tcp_run ctx es (tcp_relay_new (stream_reader_new p) d)"
    and "sent = over_run taken_by ctx es (tcp_relay_new (stream_reader_new p) d)"
    and "fetched = over_run fetched_by ctx es (tcp_relay_new (stream_reader_new p) d)"
  shows "\<exists>lost lost'.
    tr_out st @ lost @ pipe_data (sr_pipe (tr_reader st)) = sent \<and> (tr_s2o st = Active \<longrightarrow> lost = []) \<and>
    concat (tr_in st) @ lost' = fetched \<and> (tr_o2s st = Active \<longrightarrow> lost' = []) \<and>
    ue_up (entry_at (fst (tr_node st)) (au_entry u)) =
      ue_up (entry_at (fst d) (au_entry u)) + word_of_nat (length (tr_out st @ lost)) \<and>
    ue_down (entry_at (fst (tr_node st)) (au_entry u)) =
      ue_down (entry_at (fst d) (au_entry u)) + word_of_nat (length fetched)"
proof -
  have "carried u d [] [] (tcp_relay_new (stream_reader_new p) d)"
    using assms(1,2)
    by (simp add: carried_def outward_def inward_def traffic_def steady_def tcp_relay_new_def stream_reader_new_def)
  from carried_run [OF this assms(3,4), of es] assms(5-7) have "carried u d sent fetched st" by simp
  then show ?thesis unfolding carried_def outward_def inward_def traffic_def by blast
qed

theorem tcp_relay_exact_witness:
  "\<exists>lost. let st = tcp_run sample_ctx [TcpArrive [1, 2], S2oCancelled, O2sRead (Inr [9]) (Inr 1) (Inr ())]
      (tcp_relay_new (stream_reader_new pipe) (sample_registry, []))
    in concat (tr_in st) @ lost = [9] \<and> ue_down (entry_at (fst (tr_node st)) 0) = 1"
proof -
  let ?new = "tcp_relay_new (stream_reader_new pipe) (sample_registry, [])"
  let ?es = "[TcpArrive [1, 2], S2oCancelled, O2sRead (Inr [9]) (Inr 1) (Inr ())]"
  have c: "cx_user sample_ctx = Some \<lparr>au_entry = 0, au_generation = 0\<rparr>" by (simp add: sample_ctx_def)
  have p: "pipe_data pipe = []" by (simp add: pipe_def pipe_data_def)
  have f: "over_run fetched_by sample_ctx ?es ?new = [9]"
    by (simp add: tcp_relay_new_def)
  have e: "au_entry \<lparr>au_entry = 0, au_generation = 0\<rparr> < length (rg_heap (fst (sample_registry, [])))"
    "ue_down (entry_at sample_registry 0) = 0"
    by (simp_all add: sample_registry_def user_entry_new_def)
  from tcp_relay_exact [OF pipe_inv_new p c e(1) refl refl f [symmetric]] obtain lost' where
    "concat (tr_in (tcp_run sample_ctx ?es ?new)) @ lost' = [9]"
    "ue_down (entry_at (fst (tr_node (tcp_run sample_ctx ?es ?new))) 0) = 0 + word_of_nat (length [9 :: byte])"
    unfolding authed_user.simps fst_conv e(2) by blast
  then show ?thesis unfolding Let_def by (intro exI [of _ lost']) simp
qed

section \<open>Errors\<close>

text \<open>
  When writing to the outbound side fails, the direction towards the client is cancelled, unless
  shutting the outbound side down fails as well.
\<close>

lemma failed_write_cancels:
  assumes "tr_s2o st = Active" "reader_poll_read 4096 (tr_reader st) = (r, Polled (Ready (Inr bs)))" "bs \<noteq> []"
  shows "tr_cancel (tcp_step ctx (S2oPoll (Inl e) shutdown) st) \<longleftrightarrow> tr_cancel st \<or> is_ok shutdown"
  using assms by (auto simp: s2o_poll_def s2o_end_def Let_def)

lemma stream_close_open:
  assumes "\<not> sm_closed (stream_at s a)" "\<not> se_tx_closed s" "stream_close a s = (s', res)"
  shows "res = Inr ()" "se_frames s' = se_frames s @ [(frame_new Fin (sm_id (stream_at s a)), False)]"
    "se_streams s' = AList.delete (sm_id (stream_at s a)) (se_streams s)"
    "se_heap s' = (se_heap s)[a := (stream_at s a)\<lparr>sm_closed := True, sm_close_task := True\<rparr>]"
  using assms(2,3) unfolding stream_close_eq [OF assms(1)]
  by (auto simp: channel_frame_def remove_stream_def upd_stream_def Let_def split: if_splits)

text \<open>
  C29. When the connection to a destination fails, the client of version 2 is told the reason with a
  \<open>SynAck\<close> for its stream, followed by a \<open>Fin\<close>; the stream is closed and forgotten, every other stream
  stays as it was, and the handler ends with the error of the connection.
\<close>

theorem connect_failure_reported:
  assumes "session_inv s" "map_of (se_streams s) sid = Some a" "\<not> se_tx_closed s"
    and "MIN_PROTOCOL_VERSION \<le> st_peer_version (se_state s)"
    and "tcp_stream_start a (Inl err) s = (s', res)"
  shows "res = Inl err \<and>
    se_frames s' = se_frames s @
      [(frame_with_data SynAck sid (as_bytes (message err)), False), (frame_new Fin sid, False)] \<and>
    se_streams s' = AList.delete sid (se_streams s) \<and> sm_closed (stream_at s' a) \<and>
    (\<forall>b. b \<noteq> a \<longrightarrow> stream_at s' b = stream_at s b) \<and> session_inv s'"
proof -
  have a: "a < length (se_heap s)" "sm_id (stream_at s a) = sid" "\<not> sm_closed (stream_at s a)"
    using streams_inv_SomeD [OF streams_inv_session [OF assms(1)] assms(2)] by (auto simp: entry_inv_def)
  define s1 where "s1 = fst (handshake_failure a (message err) s)"
  have h: "handshake_failure a (message err) s = (s1, Inr ())"
    "s1 = s\<lparr>se_frames := se_frames s @ [(frame_with_data SynAck sid (as_bytes (message err)), False)]\<rparr>"
    using assms(3,4) a(2) by (simp_all add: s1_def handshake_failure_def channel_frame_def)
  have i: "session_inv s1"
    using session_inv_same [OF same_handshake(2) assms(1)] by (simp add: s1_def)
  have st: "\<not> sm_closed (stream_at s1 a)" "\<not> se_tx_closed s1" using assms(3) a(3) h(2) by simp_all
  obtain s2 r2 where c: "stream_close a s1 = (s2, r2)" by (cases "stream_close a s1")
  note closed = stream_close_open [OF st c]
  have eq: "s2 = s'" "res = Inl err"
    using assms(5) h(1) c closed(1) by (simp_all add: tcp_stream_start_def report_failure_def)
  have "session_inv s'" using session_inv_stream_close [OF i, of a] c a(1) h(2) eq by simp
  with eq closed(2-4) a h(2) show ?thesis by simp
qed

theorem connect_failure_reported_witness:
  "let s = sample_session\<lparr>se_state := (se_state sample_session)\<lparr>st_peer_version := 2\<rparr>\<rparr>;
       (s', res) = tcp_stream_start 0 (Inl (IoError OtherKind ''refused'')) s
   in res = Inl (IoError OtherKind ''refused'') \<and> map fst (se_streams s') = [7] \<and>
      map fst (se_frames s') = [frame_with_data SynAck 5 (as_bytes ''refused''), frame_new Fin 5]"
proof -
  let ?s = "sample_session\<lparr>se_state := (se_state sample_session)\<lparr>st_peer_version := 2\<rparr>\<rparr>"
  let ?e = "IoError OtherKind ''refused''"
  have i: "session_inv ?s" using sample_session_inv(1) by (simp add: session_inv_def)
  obtain s' res where r: "tcp_stream_start 0 (Inl ?e) ?s = (s', res)"
    by (cases "tcp_stream_start 0 (Inl ?e) ?s")
  have m: "map_of (se_streams ?s) 5 = Some 0" by (simp add: sample_session_eq)
  from connect_failure_reported [OF i m _ _ r] show ?thesis
    unfolding r Let_def by (simp add: sample_session_eq MIN_PROTOCOL_VERSION_def)
qed

end
