(* ===== verification/Rust_Net.thy ===== *)
theory Rust_Net
  imports Rust_Text Uot "HOL-Library.Monad_Syntax"
begin

text \<open>
  Socket addresses as text: what \<open>std::net\<close> prints with \<open>Display\<close> and reads with \<open>FromStr\<close>. A
  reader takes a prefix of its input and leaves it alone when it fails. The theorem of the theory is
  that an address is read back from its text; flow information is not part of the text.
\<close>

section \<open>Numbers in a radix\<close>

definition to_digit :: "nat \<Rightarrow> char \<Rightarrow> nat option" where
  "to_digit radix c =
     (let n = (of_char c :: nat);
          d = (if 48 \<le> n \<and> n \<le> 57 then n - 48 else if 97 \<le> n \<and> n \<le> 102 then n - 87
               else if 65 \<le> n \<and> n \<le> 70 then n - 55 else radix)
      in if d < radix then Some d else None)"

definition number_of :: "nat \<Rightarrow> nat list \<Rightarrow> nat" where
  "number_of radix ds = foldl (\<lambda>a d. a * radix + d) 0 ds"

definition is_digit :: "nat \<Rightarrow> char \<Rightarrow> bool" where
  "is_digit radix c \<longleftrightarrow> to_digit radix c \<noteq> None"

type_synonym 'a text_reader = "string \<Rightarrow> ('a \<times> string) option"

text \<open>\<open>read_number\<close> for a type with the largest value \<open>m\<close>.\<close>

definition read_number :: "nat \<Rightarrow> nat option \<Rightarrow> bool \<Rightarrow> nat \<Rightarrow> nat text_reader" where
  "read_number radix max_digits allow_zero_prefix m s =
     (let ds = takeWhile (is_digit radix) s;
          n = number_of radix (map (the \<circ> to_digit radix) ds)
      in if ds = [] then None
         else if (case max_digits of Some k \<Rightarrow> k < length ds | None \<Rightarrow> False) then None
         else if \<not> allow_zero_prefix \<and> hd ds = CHR ''0'' \<and> 1 < length ds then None
         else if n \<le> m then Some (n, drop (length ds) s) else None)"

fun read_given_char :: "char \<Rightarrow> unit text_reader" where
  "read_given_char c [] = None"
| "read_given_char c (d # s) = (if d = c then Some ((), s) else None)"

definition read_separator :: "char \<Rightarrow> nat \<Rightarrow> 'a text_reader \<Rightarrow> 'a text_reader" where
  "read_separator sep i inner s =
     (if 0 < i then do { (_, s) \<leftarrow> read_given_char sep s; inner s } else inner s)"

section \<open>Reading addresses\<close>

definition read_octet :: "nat \<Rightarrow> nat text_reader" where
  "read_octet i = read_separator (CHR ''.'') i (read_number 10 (Some 3) False 255)"

definition read_ipv4_octets :: "nat list text_reader" where
  "read_ipv4_octets s = do {
     (a, s) \<leftarrow> read_octet 0 s;
     (b, s) \<leftarrow> read_octet 1 s;
     (c, s) \<leftarrow> read_octet 2 s;
     (d, s) \<leftarrow> read_octet 3 s;
     Some ([a, b, c, d], s)
   }"

text \<open>Up to \<open>k\<close> groups from position \<open>i\<close> on, and whether the last two were written as octets.\<close>

fun read_groups :: "nat \<Rightarrow> nat \<Rightarrow> string \<Rightarrow> nat list \<times> bool \<times> string" where
  "read_groups 0 i s = ([], False, s)"
| "read_groups (Suc k) i s =
     (case if 0 < k then read_separator (CHR '':'') i read_ipv4_octets s else None of
        Some (os, s') \<Rightarrow> ([number_of 256 (take 2 os), number_of 256 (drop 2 os)], True, s')
      | None \<Rightarrow>
          (case read_separator (CHR '':'') i (read_number 16 (Some 4) True 65535) s of
             None \<Rightarrow> ([], False, s)
           | Some (g, s') \<Rightarrow> (case read_groups k (Suc i) s' of (gs, v4, s'') \<Rightarrow> (g # gs, v4, s''))))"

definition read_ipv6_groups :: "nat list text_reader" where
  "read_ipv6_groups s =
     (case read_groups 8 0 s of
        (front, v4, s) \<Rightarrow>
          if length front = 8 then Some (front, s)
          else if v4 then None
          else do {
            (_, s) \<leftarrow> read_given_char (CHR '':'') s;
            (_, s) \<leftarrow> read_given_char (CHR '':'') s;
            (case read_groups (8 - (length front + 1)) 0 s of
               (rear, _, s) \<Rightarrow> Some (front @ replicate (8 - length front - length rear) 0 @ rear, s))
          })"

definition read_port :: "u16 text_reader" where
  "read_port s = do {
     (_, s) \<leftarrow> read_given_char (CHR '':'') s;
     (n, s) \<leftarrow> read_number 10 None True 65535 s;
     Some (word_of_nat n, s)
   }"

definition read_scope_id :: "u32 text_reader" where
  "read_scope_id s = do {
     (_, s) \<leftarrow> read_given_char (CHR ''%'') s;
     (n, s) \<leftarrow> read_number 10 None True 4294967295 s;
     Some (word_of_nat n, s)
   }"

definition read_socket_addr_v4 :: "socket_addr text_reader" where
  "read_socket_addr_v4 s = do {
     (os, s) \<leftarrow> read_ipv4_octets s;
     (port, s) \<leftarrow> read_port s;
     Some (SocketAddrV4 (word_of_nat (number_of 256 os)) port, s)
   }"

definition read_socket_addr_v6 :: "socket_addr text_reader" where
  "read_socket_addr_v6 s = do {
     (_, s) \<leftarrow> read_given_char (CHR ''['') s;
     (gs, s) \<leftarrow> read_ipv6_groups s;
     (scope, s) \<leftarrow> Some (case read_scope_id s of Some r \<Rightarrow> r | None \<Rightarrow> (0, s));
     (_, s) \<leftarrow> read_given_char (CHR '']'') s;
     (port, s) \<leftarrow> read_port s;
     Some (SocketAddrV6 (word_of_nat (number_of 65536 gs)) port 0 scope, s)
   }"

text \<open>\<open>parse::<SocketAddr>\<close> and \<open>parse::<IpAddr>\<close>.\<close>

definition whole :: "('a \<times> string) option \<Rightarrow> 'a option" where
  "whole r = (case r of Some (x, s) \<Rightarrow> if s = [] then Some x else None | None \<Rightarrow> None)"

definition parse_socket_addr :: "string \<Rightarrow> socket_addr option" where
  "parse_socket_addr s =
     whole (case read_socket_addr_v4 s of Some r \<Rightarrow> Some r | None \<Rightarrow> read_socket_addr_v6 s)"

datatype ip_addr = IpV4 u32 | IpV6 "128 word"

definition read_ip_addr :: "ip_addr text_reader" where
  "read_ip_addr s =
     (case read_ipv4_octets s of
        Some (os, s) \<Rightarrow> Some (IpV4 (word_of_nat (number_of 256 os)), s)
      | None \<Rightarrow> (case read_ipv6_groups s of
                   Some (gs, s) \<Rightarrow> Some (IpV6 (word_of_nat (number_of 65536 gs)), s)
                 | None \<Rightarrow> None))"

definition parse_ip_addr :: "string \<Rightarrow> ip_addr option" where
  "parse_ip_addr s = whole (read_ip_addr s)"

section \<open>Printing addresses\<close>

text \<open>The \<open>k\<close> digits of a number in a base, and as many as it needs.\<close>

fun base_digits :: "nat \<Rightarrow> nat \<Rightarrow> nat \<Rightarrow> nat list" where
  "base_digits b 0 n = []"
| "base_digits b (Suc k) n = base_digits b k (n div b) @ [n mod b]"

fun hex_digits :: "nat \<Rightarrow> nat list" where
  "hex_digits n = (if n < 16 then [n] else hex_digits (n div 16) @ [n mod 16])"

declare hex_digits.simps [simp del]

definition hex_char :: "nat \<Rightarrow> char" where
  "hex_char d = char_of (if d < 10 then 48 + d else 87 + d)"

definition show_hex :: "nat \<Rightarrow> string" where
  "show_hex n = map hex_char (hex_digits n)"

definition show_ipv4 :: "u32 \<Rightarrow> string" where
  "show_ipv4 ip = str_join ''.'' (map show_nat (base_digits 256 4 (unat ip)))"

definition ipv6_groups :: "128 word \<Rightarrow> nat list" where
  "ipv6_groups ip = base_digits 65536 8 (unat ip)"

text \<open>The first of the longest runs of zero groups, as start and length.\<close>

fun zero_span :: "nat \<Rightarrow> nat \<times> nat \<Rightarrow> nat \<times> nat \<Rightarrow> nat list \<Rightarrow> nat \<times> nat" where
  "zero_span i longest current [] = longest"
| "zero_span i longest current (g # gs) =
     (if g = 0
      then
        (let current = (if snd current = 0 then i else fst current, snd current + 1)
         in zero_span (Suc i) (if snd longest < snd current then current else longest) current gs)
      else zero_span (Suc i) longest (0, 0) gs)"

definition show_groups :: "nat list \<Rightarrow> string" where
  "show_groups gs = str_join '':'' (map show_hex gs)"

definition show_ipv6 :: "128 word \<Rightarrow> string" where
  "show_ipv6 ip =
     (let gs = ipv6_groups ip
      in if take 6 gs = [0, 0, 0, 0, 0, 65535]
         then ''::ffff:'' @ show_ipv4 (word_of_nat (unat ip mod 2 ^ 32))
         else
           (case zero_span 0 (0, 0) (0, 0) gs of
              (start, len) \<Rightarrow>
                if 1 < len then show_groups (take start gs) @ ''::'' @ show_groups (drop (start + len) gs)
                else show_groups gs))"

fun show_socket_addr :: "socket_addr \<Rightarrow> string" where
  "show_socket_addr (SocketAddrV4 ip port) = show_ipv4 ip @ '':'' @ show_nat (unat port)"
| "show_socket_addr (SocketAddrV6 ip port _ scope) =
     ''['' @ show_ipv6 ip @ (if scope = 0 then [] else ''%'' @ show_nat (unat scope)) @ '']:'' @ show_nat (unat port)"

section \<open>Numbers are read back\<close>

lemma number_of_snoc [simp]: "number_of r (ds @ [d]) = number_of r ds * r + d"
  by (simp add: number_of_def)

lemma number_of_base_digits: "0 < b \<Longrightarrow> number_of b (base_digits b k n) = n mod b ^ k"
proof (induction k arbitrary: n)
  case (Suc k)
  have "n mod (b * b ^ k) = b * (n div b mod b ^ k) + n mod b" by (rule mod_mult2_eq)
  with Suc show ?case by (simp add: mult.commute)
qed (simp add: number_of_def)

lemma length_base_digits [simp]: "length (base_digits b k n) = k"
  by (induction k arbitrary: n) simp_all

lemma base_digits_less: "0 < b \<Longrightarrow> list_all (\<lambda>d. d < b) (base_digits b k n)"
  by (induction k arbitrary: n) simp_all

lemma base_digits_add: "base_digits b (k + l) n = base_digits b k (n div b ^ l) @ base_digits b l n"
  by (induction l arbitrary: n) (simp_all add: div_mult2_eq)

text \<open>A text that is a number in a radix, and what ends it.\<close>

definition numeral_text :: "nat \<Rightarrow> string \<Rightarrow> nat \<Rightarrow> bool" where
  "numeral_text radix s n \<longleftrightarrow>
     s \<noteq> [] \<and> list_all (is_digit radix) s \<and> number_of radix (map (the \<circ> to_digit radix) s) = n"

definition ends_number :: "nat \<Rightarrow> string \<Rightarrow> bool" where
  "ends_number radix t \<longleftrightarrow> t = [] \<or> \<not> is_digit radix (hd t)"

lemma takeWhile_ends:
  "list_all (is_digit r) s \<Longrightarrow> ends_number r t \<Longrightarrow> takeWhile (is_digit r) (s @ t) = s"
  by (cases t) (auto simp: ends_number_def list_all_iff takeWhile_append)

lemma read_number_text:
  assumes "numeral_text r s n" "ends_number r t" "n \<le> m"
    and "case max_digits of Some k \<Rightarrow> length s \<le> k | None \<Rightarrow> True" "zp \<or> length s = 1 \<or> hd s \<noteq> CHR ''0''"
  shows "read_number r max_digits zp m (s @ t) = Some (n, t)"
  using assms takeWhile_ends [of r s t]
  by (auto simp: read_number_def numeral_text_def split: option.splits)

lemma read_number_none: "ends_number r t \<Longrightarrow> read_number r max_digits zp m t = None"
  by (cases t) (auto simp: read_number_def ends_number_def)

lemma digit_chars:
  assumes "d < 10"
  shows "to_digit 10 (digit_char d) = Some d"
  using assms by (simp add: to_digit_def of_char_digit_char)

lemma hex_char_digit: "d < 16 \<Longrightarrow> to_digit 16 (hex_char d) = Some d"
  by (simp add: to_digit_def hex_char_def)

lemma show_nat_text: "numeral_text 10 (show_nat n) n \<and> (hd (show_nat n) = CHR ''0'' \<longrightarrow> n = 0)"
proof (induction n rule: show_nat.induct)
  case (1 n)
  show ?case
  proof (cases "n < 10")
    case True
    have "n = 0" if "digit_char n = CHR ''0''"
      using of_char_digit_char [OF True] unfolding that by simp
    with True show ?thesis
      by (subst (1 2) show_nat.simps) (simp add: numeral_text_def is_digit_def digit_chars number_of_def)
  next
    case False
    with "1.IH" have IH: "numeral_text 10 (show_nat (n div 10)) (n div 10)"
      "hd (show_nat (n div 10)) = CHR ''0'' \<longrightarrow> n div 10 = 0" by auto
    have "numeral_text 10 (show_nat (n div 10) @ [digit_char (n mod 10)]) n"
      using IH(1) by (simp add: numeral_text_def is_digit_def digit_chars)
    with False IH(2) show ?thesis
      by (subst (1 2) show_nat.simps) (auto simp: hd_append)
  qed
qed

lemma length_show_nat: "n < 10 ^ k \<Longrightarrow> 0 < k \<Longrightarrow> length (show_nat n) \<le> k"
proof (induction k arbitrary: n)
  case (Suc k)
  show ?case
  proof (cases "n < 10")
    case False
    then have "n div 10 < 10 ^ k" "0 < k" using Suc.prems by (auto simp: less_mult_imp_div_less mult.commute) (cases k, auto)
    from Suc.IH [OF this] False show ?thesis by (subst show_nat.simps) simp
  qed (subst show_nat.simps, simp)
qed simp

lemma hex_digits_number: "number_of 16 (hex_digits n) = n \<and> list_all (\<lambda>d. d < 16) (hex_digits n) \<and> hex_digits n \<noteq> []"
proof (induction n rule: hex_digits.induct)
  case (1 n)
  then show ?case by (subst (1 2 3) hex_digits.simps) (auto simp: number_of_def)
qed

lemma length_hex_digits: "n < 16 ^ k \<Longrightarrow> 0 < k \<Longrightarrow> length (hex_digits n) \<le> k"
proof (induction k arbitrary: n)
  case (Suc k)
  show ?case
  proof (cases "n < 16")
    case False
    then have "n div 16 < 16 ^ k" "0 < k" using Suc.prems by (auto simp: less_mult_imp_div_less mult.commute) (cases k, auto)
    from Suc.IH [OF this] False show ?thesis by (subst hex_digits.simps) simp
  qed (subst hex_digits.simps, simp)
qed simp

lemma show_hex_text: "numeral_text 16 (show_hex n) n"
proof -
  have d: "list_all (\<lambda>d. d < 16) (hex_digits n)" "number_of 16 (hex_digits n) = n" "hex_digits n \<noteq> []"
    using hex_digits_number by auto
  then have "map (the \<circ> to_digit 16) (show_hex n) = hex_digits n"
    by (simp add: show_hex_def map_idI list_all_iff hex_char_digit)
  with d show ?thesis
    by (simp add: numeral_text_def show_hex_def list_all_iff is_digit_def hex_char_digit)
qed

lemma read_hex:
  assumes "g < 65536" "ends_number 16 t"
  shows "read_number 16 (Some 4) True 65535 (show_hex g @ t) = Some (g, t)"
  using read_number_text [OF show_hex_text assms(2)] assms(1) length_hex_digits [of g 4]
  by (simp add: show_hex_def)

section \<open>Addresses are read back\<close>

lemma read_octet_text:
  assumes "n < 256" "ends_number 10 t"
  shows "read_octet 0 (show_nat n @ t) = Some (n, t)" "0 < i \<Longrightarrow> read_octet i (CHR ''.'' # show_nat n @ t) = Some (n, t)"
proof -
  have z: "length (show_nat n) = 1 \<or> hd (show_nat n) \<noteq> CHR ''0''"
    using show_nat_text [of n] by (cases "n = 0") (auto simp: show_nat.simps)
  have "read_number 10 (Some 3) False 255 (show_nat n @ t) = Some (n, t)"
    using read_number_text [of 10 "show_nat n" n t 255 "Some 3" False] show_nat_text [of n] assms z
      length_show_nat [of n 3] by simp
  then show "read_octet 0 (show_nat n @ t) = Some (n, t)" "0 < i \<Longrightarrow> read_octet i (CHR ''.'' # show_nat n @ t) = Some (n, t)"
    by (simp_all add: read_octet_def read_separator_def)
qed

lemma ends_number_sep: "ends_number 10 (CHR ''.'' # t)" "ends_number 10 (CHR '':'' # t)" "ends_number 16 (CHR '':'' # t)"
  "ends_number 16 (CHR '']'' # t)" "ends_number 10 (CHR '']'' # t)" "ends_number 16 (CHR ''%'' # t)" "ends_number 10 []"
  by (simp_all add: ends_number_def is_digit_def to_digit_def)

lemma read_ipv4_text:
  assumes "ends_number 10 t"
  shows "read_ipv4_octets (show_ipv4 ip @ t) = Some (base_digits 256 4 (unat ip), t)"
proof -
  obtain a b c d where o: "base_digits 256 4 (unat ip) = [a, b, c, d]"
  proof -
    have "length (base_digits 256 4 (unat ip)) = Suc (Suc (Suc (Suc 0)))" by (simp del: base_digits.simps)
    then show ?thesis using that unfolding length_Suc_conv by blast
  qed
  moreover have "a < 256" "b < 256" "c < 256" "d < 256"
    using base_digits_less [of 256 4 "unat ip"] unfolding o by simp_all
  ultimately show ?thesis
    using assms by (simp add: show_ipv4_def read_ipv4_octets_def read_octet_text ends_number_sep)
qed

text \<open>A group is not taken for an octet.\<close>

lemma read_ipv4_none:
  assumes "dropWhile (is_digit 10) s = [] \<or> hd (dropWhile (is_digit 10) s) \<noteq> CHR ''.''"
  shows "read_ipv4_octets s = None"
proof (cases "read_octet 0 s")
  case (Some r)
  then have "snd r = dropWhile (is_digit 10) s"
    by (auto simp: read_octet_def read_separator_def read_number_def Let_def dropWhile_eq_drop split: if_splits)
  with assms have "snd r = [] \<or> hd (snd r) \<noteq> CHR ''.''" by simp
  then have "read_octet 1 (snd r) = None"
    by (cases "snd r") (auto simp: read_octet_def read_separator_def)
  with Some show ?thesis by (cases r) (simp add: read_ipv4_octets_def)
qed (simp add: read_ipv4_octets_def)

lemma hex_not_dot: "d < 16 \<Longrightarrow> hex_char d \<noteq> CHR ''.'' \<and> hex_char d \<noteq> CHR '':''"
  using hex_char_digit [of d] by (auto simp: to_digit_def)

lemma group_not_ipv4:
  assumes "t = [] \<or> hd t \<noteq> CHR ''.'' \<and> \<not> is_digit 10 (hd t)"
  shows "read_ipv4_octets (show_hex g @ t) = None"
proof (rule read_ipv4_none)
  have h: "\<forall>c \<in> set (show_hex g). c \<noteq> CHR ''.''"
    using hex_digits_number [of g] hex_not_dot by (auto simp: show_hex_def list_all_iff)
  show "dropWhile (is_digit 10) (show_hex g @ t) = [] \<or> hd (dropWhile (is_digit 10) (show_hex g @ t)) \<noteq> CHR ''.''"
  proof (cases "\<exists>c \<in> set (show_hex g). \<not> is_digit 10 c")
    case True
    then have "dropWhile (is_digit 10) (show_hex g @ t) = dropWhile (is_digit 10) (show_hex g) @ t"
      "dropWhile (is_digit 10) (show_hex g) \<noteq> []"
      by (auto simp: dropWhile_append)
    with h show ?thesis by (metis hd_append2 hd_in_set set_dropWhileD)
  next
    case False
    then have "dropWhile (is_digit 10) (show_hex g @ t) = dropWhile (is_digit 10) t" by (simp add: dropWhile_append)
    with assms show ?thesis by (cases t) auto
  qed
qed

text \<open>The text of groups from a position on, and what ends a run of groups there.\<close>

fun groups_text :: "nat \<Rightarrow> nat list \<Rightarrow> string" where
  "groups_text i [] = []"
| "groups_text i (g # gs) = (if 0 < i then '':'' else []) @ show_hex g @ groups_text (Suc i) gs"

lemma groups_text_later: "0 < i \<Longrightarrow> groups_text i gs = concat (map (\<lambda>g. CHR '':'' # show_hex g) gs)"
  by (induction gs arbitrary: i) auto

lemma show_groups_text: "show_groups gs = groups_text 0 gs"
proof (induction gs rule: induct_list012)
  case (3 g h gs)
  then show ?case by (simp add: show_groups_def groups_text_later)
qed (simp_all add: show_groups_def)

definition ends_groups :: "nat \<Rightarrow> string \<Rightarrow> bool" where
  "ends_groups i t \<longleftrightarrow>
     (if i = 0 then ends_number 16 t else t = [] \<or> hd t \<noteq> CHR '':'' \<or> ends_number 16 (tl t))"

lemma ends_number_16_10: "ends_number 16 t \<Longrightarrow> ends_number 10 t"
  by (auto simp: ends_number_def is_digit_def to_digit_def Let_def split: if_splits)

lemma ends_number_no_ipv4: "ends_number 16 t \<Longrightarrow> read_ipv4_octets t = None"
  by (auto simp: read_ipv4_octets_def read_octet_def read_separator_def read_number_none dest: ends_number_16_10)

lemma read_groups_end: "ends_groups i t \<Longrightarrow> read_groups k i t = ([], False, t)"
proof (induction k)
  case (Suc k)
  have "read_separator (CHR '':'') i read_ipv4_octets t = None"
    "read_separator (CHR '':'') i (read_number 16 (Some 4) True 65535) t = None"
    using Suc.prems
    by (cases t; auto simp: ends_groups_def read_separator_def ends_number_no_ipv4 read_number_none split: if_splits)+
  then show ?case by simp
qed simp

lemma read_groups_text:
  assumes "list_all (\<lambda>g. g < 65536) gs" "length gs \<le> k"
    and "length gs = k \<or> ends_groups (i + length gs) t"
    and "t = [] \<or> hd t \<noteq> CHR ''.'' \<and> \<not> is_digit 16 (hd t)"
  shows "read_groups k i (groups_text i gs @ t) = (gs, False, t)"
  using assms(1-3)
proof (induction gs arbitrary: i k)
  case Nil
  then show ?case using read_groups_end [of i t k] by (cases "k = 0") auto
next
  case (Cons g gs)
  then obtain k' where k: "k = Suc k'" by (cases k) auto
  have t: "groups_text (Suc i) gs @ t = [] \<or>
      hd (groups_text (Suc i) gs @ t) \<noteq> CHR ''.'' \<and> \<not> is_digit 16 (hd (groups_text (Suc i) gs @ t))"
    using assms(4) by (cases gs) (auto simp: is_digit_def to_digit_def)
  then have e: "ends_number 16 (groups_text (Suc i) gs @ t)" by (auto simp: ends_number_def)
  have "read_ipv4_octets (show_hex g @ groups_text (Suc i) gs @ t) = None"
    using t ends_number_16_10 [OF e] by (intro group_not_ipv4) (auto simp: ends_number_def)
  moreover have "read_number 16 (Some 4) True 65535 (show_hex g @ groups_text (Suc i) gs @ t) =
      Some (g, groups_text (Suc i) gs @ t)"
    using Cons.prems(1) by (intro read_hex e) simp
  moreover have "read_groups k' (Suc i) (groups_text (Suc i) gs @ t) = (gs, False, t)"
    using Cons.prems k by (intro Cons.IH) auto
  moreover have sep: "read_separator (CHR '':'') i inner (groups_text i (g # gs) @ t) =
      inner (show_hex g @ groups_text (Suc i) gs @ t)" for inner :: "'a text_reader"
    by (simp add: read_separator_def)
  ultimately show ?case by (simp only: k read_groups.simps sep if_cancel option.case prod.case)
qed

text \<open>The span of zeros is a run of zeros.\<close>

definition zeros_at :: "nat list \<Rightarrow> nat \<times> nat \<Rightarrow> bool" where
  "zeros_at gs sp \<longleftrightarrow> fst sp + snd sp \<le> length gs \<and> take (snd sp) (drop (fst sp) gs) = replicate (snd sp) 0"

lemma zero_span_zeros:
  assumes "gs = front @ rear" "i = length front" "zeros_at gs longest"
    and "snd current = 0 \<or> zeros_at gs current \<and> fst current + snd current = i"
  shows "zeros_at gs (zero_span i longest current rear)"
  using assms
proof (induction rear arbitrary: front i longest current)
  case (Cons g rear)
  show ?case
  proof (cases "g = 0")
    case True
    let ?c = "(if snd current = 0 then i else fst current, snd current + 1)"
    have "zeros_at gs ?c"
    proof (cases "snd current = 0")
      case False
      with Cons.prems(4) have z: "take (snd current) (drop (fst current) gs) = replicate (snd current) 0"
        "fst current + snd current = i" by (auto simp: zeros_at_def)
      have "i < length gs" "gs ! i = 0" using Cons.prems(1,2) True by (simp_all add: nth_append)
      then have "take (Suc (snd current)) (drop (fst current) gs) = replicate (snd current) 0 @ [0]"
        using z by (subst take_Suc_conv_app_nth) (simp_all add: less_diff_conv add.commute)
      with False z \<open>i < length gs\<close> show ?thesis by (simp add: zeros_at_def replicate_append_same)
    qed (use Cons.prems True in \<open>simp add: zeros_at_def\<close>)
    moreover have "fst ?c + snd ?c = Suc i" using Cons.prems(4) by auto
    ultimately have "zeros_at gs ?c" "fst ?c + snd ?c = Suc i" by blast+
    with Cons.prems True Cons.IH [of "front @ [g]" "Suc i" "if snd longest < snd ?c then ?c else longest" ?c]
    show ?thesis by (auto simp: Let_def)
  next
    case False
    with Cons.prems Cons.IH [of "front @ [g]" "Suc i" longest "(0, 0)"] show ?thesis by auto
  qed
qed simp

text \<open>The last two groups of an address, from the octets that an IPv4-mapped address ends with.\<close>

lemma mapped_groups:
  "number_of 256 (take 2 (base_digits 256 4 (n mod 2 ^ 32))) = n div 65536 mod 65536"
  "number_of 256 (drop 2 (base_digits 256 4 (n mod 2 ^ 32))) = n mod 65536"
  "drop 6 (base_digits 65536 8 n) = [n div 65536 mod 65536, n mod 65536]"
proof -
  have m: "n mod 2 ^ 32 = 65536 * (n div 65536 mod 65536) + n mod 65536"
    using mod_mult2_eq [of n 65536 65536] by simp
  have o: "base_digits 256 4 k = base_digits 256 2 (k div 65536) @ base_digits 256 2 k" for k
    using base_digits_add [of 256 2 2 k] by simp
  have two: "number_of 256 (base_digits 256 2 k) = k mod 65536" for k
    using number_of_base_digits [of 256 2 k] by simp
  show "number_of 256 (take 2 (base_digits 256 4 (n mod 2 ^ 32))) = n div 65536 mod 65536"
    "number_of 256 (drop 2 (base_digits 256 4 (n mod 2 ^ 32))) = n mod 65536"
    unfolding o m using two by (simp_all del: base_digits.simps)
  have "base_digits 65536 8 n = base_digits 65536 6 (n div 65536 ^ 2) @ base_digits 65536 2 n"
    using base_digits_add [of 65536 6 2 n] by simp
  then show "drop 6 (base_digits 65536 8 n) = [n div 65536 mod 65536, n mod 65536]"
    by (simp add: numeral_2_eq_2)
qed

lemma show_hex_ffff: "show_hex 65535 = ''ffff''"
  using char_of_char [of "CHR ''f''", where 'a = nat] by (simp add: show_hex_def hex_digits.simps hex_char_def)

lemma read_ipv6_text:
  assumes "t \<noteq> []" "hd t = CHR ''%'' \<or> hd t = CHR '']''"
  shows "read_ipv6_groups (show_ipv6 ip @ t) = Some (ipv6_groups ip, t)"
proof -
  let ?gs = "ipv6_groups ip"
  have len: "length ?gs = 8" by (simp add: ipv6_groups_def del: base_digits.simps)
  have less: "list_all (\<lambda>g. g < 65536) ?gs"
    unfolding ipv6_groups_def by (rule base_digits_less) simp
  obtain c t' where t: "t = c # t'" "c = CHR ''%'' \<or> c = CHR '']''" using assms by (cases t) auto
  have te: "hd t \<noteq> CHR ''.'' \<and> \<not> is_digit 16 (hd t)" "ends_number 16 t" "\<And>i. ends_groups i t"
    using t by (auto simp: is_digit_def to_digit_def ends_number_def ends_groups_def)
  show ?thesis
  proof (cases "take 6 ?gs = [0, 0, 0, 0, 0, 65535]")
    case True
    have shown: "show_ipv6 ip @ t = ''::'' @ ''ffff:'' @ show_ipv4 (word_of_nat (unat ip mod 2 ^ 32)) @ t"
      using True by (simp add: show_ipv6_def Let_def)
    let ?m = "unat ip mod 2 ^ 32"
    define os where "os = base_digits 256 4 ?m"
    have u: "unat (word_of_nat ?m :: u32) = ?m" by (simp add: unat_of_nat)
    have v4: "read_ipv4_octets (show_ipv4 (word_of_nat ?m) @ t) = Some (os, t)"
      using read_ipv4_text [OF ends_number_16_10 [OF te(2)], of "word_of_nat ?m"] unfolding u os_def .
    have front: "read_groups 8 0 (''::'' @ x) = ([], False, ''::'' @ x)" for x
      by (intro read_groups_end) (simp add: ends_groups_def ends_number_def is_digit_def to_digit_def)
    have none: "read_ipv4_octets (show_hex 65535 @ '':'' @ x) = None" for x
      by (intro group_not_ipv4) (simp add: is_digit_def to_digit_def)
    have hex: "read_number 16 (Some 4) True 65535 (show_hex 65535 @ '':'' @ x) = Some (65535, '':'' @ x)" for x
      by (intro read_hex) (simp_all add: ends_number_sep)
    have "read_groups (Suc (Suc k)) 0 (show_hex 65535 @ '':'' @ show_ipv4 (word_of_nat ?m) @ t) =
        ([65535, number_of 256 (take 2 os), number_of 256 (drop 2 os)], True, t)" if "0 < k" for k
      using that none [of "show_ipv4 (word_of_nat ?m) @ t"] hex [of "show_ipv4 (word_of_nat ?m) @ t"] v4
      by (simp add: read_separator_def)
    from this [of 5] have rear: "read_groups 7 0 (''ffff:'' @ show_ipv4 (word_of_nat ?m) @ t) =
        ([65535, number_of 256 (take 2 os), number_of 256 (drop 2 os)], True, t)"
      by (simp add: show_hex_ffff del: read_groups.simps)
    have five: "replicate 5 (0 :: nat) = [0, 0, 0, 0, 0]" by (simp add: numeral_eq_Suc)
    have "?gs = take 6 ?gs @ drop 6 ?gs" by simp
    also have "\<dots> = replicate 5 0 @ [65535, number_of 256 (take 2 os), number_of 256 (drop 2 os)]"
      unfolding True os_def mapped_groups(1,2) five using True mapped_groups(3) [of "unat ip"]
      by (simp add: ipv6_groups_def del: base_digits.simps)
    finally have gs: "?gs = replicate 5 0 @ [65535, number_of 256 (take 2 os), number_of 256 (drop 2 os)]" .
    show ?thesis
      unfolding shown gs read_ipv6_groups_def front using rear by simp
  next
    case False
    obtain start len where sp: "zero_span 0 (0, 0) (0, 0) ?gs = (start, len)" by (cases "zero_span 0 (0, 0) (0, 0) ?gs")
    have z: "zeros_at ?gs (start, len)"
      using zero_span_zeros [of ?gs "[]" ?gs 0 "(0, 0)" "(0, 0)"] sp by (simp add: zeros_at_def)
    show ?thesis
    proof (cases "1 < len")
      case True
      let ?front = "take start ?gs" and ?rear = "drop (start + len) ?gs"
      have l: "length ?front = start" "start + len \<le> 8" "length ?rear = 8 - (start + len)"
        using z len by (simp_all add: zeros_at_def)
      have split: "?gs = ?front @ replicate len 0 @ ?rear"
        using z by (metis append_take_drop_id drop_drop add.commute fst_conv snd_conv zeros_at_def)
      have f: "read_groups 8 0 (groups_text 0 ?front @ ''::'' @ groups_text 0 ?rear @ t) =
          (?front, False, ''::'' @ groups_text 0 ?rear @ t)"
        using less l True
        by (intro read_groups_text) (auto simp: list_all_iff ends_groups_def ends_number_def is_digit_def to_digit_def
            dest: in_set_takeD)
      have r: "read_groups (8 - (start + 1)) 0 (groups_text 0 ?rear @ t) = (?rear, False, t)"
        using less l True te
        by (intro read_groups_text) (auto simp: list_all_iff dest: in_set_dropD)
      have "show_ipv6 ip @ t = groups_text 0 ?front @ ''::'' @ groups_text 0 ?rear @ t"
        using False sp True by (simp add: show_ipv6_def show_groups_text Let_def)
      then show ?thesis
        using f r l True split by (simp add: read_ipv6_groups_def)
    next
      case short: False
      have "read_groups 8 0 (groups_text 0 ?gs @ t) = (?gs, False, t)"
        using less len te by (intro read_groups_text) auto
      moreover have "show_ipv6 ip = groups_text 0 ?gs"
        using False short sp by (simp add: show_ipv6_def show_groups_text)
      ultimately show ?thesis using len by (simp add: read_ipv6_groups_def)
    qed
  qed
qed

lemma number_of_octets: "word_of_nat (number_of 256 (base_digits 256 4 (unat ip))) = (ip :: u32)"
proof -
  have "unat ip < 2 ^ 32" using unsigned_less [of ip, where 'a = nat] by simp
  then show ?thesis by (simp add: number_of_base_digits del: base_digits.simps)
qed

lemma number_of_groups: "word_of_nat (number_of 65536 (ipv6_groups ip)) = ip"
proof -
  have "unat ip < 2 ^ 128" using unsigned_less [of ip, where 'a = nat] by simp
  then show ?thesis by (simp add: ipv6_groups_def number_of_base_digits del: base_digits.simps)
qed

lemma read_port_text: "read_port ('':'' @ show_nat (unat (port :: u16))) = Some (port, [])"
  using read_number_text [of 10 "show_nat (unat port)" "unat port" "[]" 65535 None True] show_nat_text [of "unat port"]
    unat_u16_less [of port]
  by (simp add: read_port_def ends_number_def)

text \<open>An address without flow information is read back from its text.\<close>

theorem socket_addr_text:
  assumes "case a of SocketAddrV4 _ _ \<Rightarrow> True | SocketAddrV6 _ _ flow _ \<Rightarrow> flow = 0"
  shows "parse_socket_addr (show_socket_addr a) = Some a"
proof (cases a)
  case (SocketAddrV4 ip port)
  have "read_socket_addr_v4 (show_socket_addr a) = Some (a, [])"
    using read_ipv4_text [of "'':'' @ show_nat (unat port)" ip] read_port_text [of port]
    by (simp add: SocketAddrV4 read_socket_addr_v4_def ends_number_sep number_of_octets del: base_digits.simps)
  then show ?thesis by (simp add: parse_socket_addr_def whole_def)
next
  case (SocketAddrV6 ip port flow scope)
  define tail where "tail = '']:'' @ show_nat (unat port)"
  define rest where "rest = (if scope = 0 then [] else ''%'' @ show_nat (unat scope)) @ tail"
  have shown: "show_socket_addr a = CHR ''['' # show_ipv6 ip @ rest"
    by (simp add: SocketAddrV6 rest_def tail_def)
  have v4: "read_socket_addr_v4 (show_socket_addr a) = None"
    using read_ipv4_none [of "show_socket_addr a"]
    by (simp add: shown read_socket_addr_v4_def is_digit_def to_digit_def)
  have ip: "read_ipv6_groups (show_ipv6 ip @ rest) = Some (ipv6_groups ip, rest)"
    by (intro read_ipv6_text) (auto simp: rest_def tail_def)
  have scope: "(case read_scope_id rest of Some r \<Rightarrow> r | None \<Rightarrow> (0, rest)) = (scope, tail)"
  proof (cases "scope = 0")
    case True
    then show ?thesis by (simp add: rest_def tail_def read_scope_id_def)
  next
    case False
    have "read_number 10 None True 4294967295 (show_nat (unat scope) @ tail) = Some (unat scope, tail)"
      using read_number_text [of 10 "show_nat (unat scope)" "unat scope" tail 4294967295 None True]
        show_nat_text [of "unat scope"] unat_u32_less [of scope] by (simp add: ends_number_sep tail_def)
    with False show ?thesis by (simp add: rest_def read_scope_id_def)
  qed
  have "read_socket_addr_v6 (show_socket_addr a) = Some (a, [])"
    unfolding shown read_socket_addr_v6_def using assms scope read_port_text [of port]
    by (simp add: ip SocketAddrV6 number_of_groups tail_def)
  with v4 show ?thesis by (simp add: parse_socket_addr_def whole_def)
qed

end
