(* ===== verification/Parse_Url.thy ===== *)
theory Parse_Url
  imports Rust_Net Traffic_Audit
begin

text \<open>
  \<open>src/src/util/parse_url.rs\<close>: the client's configuration, its text as an \<open>anytls://\<close> URL and the
  two parsers of such URLs, one over the \<open>url\<close> crate and one by hand for IPv6 hosts with a zone. The
  functions of the crates that the source calls are fields of a record. A slice whose end is before
  its start is a panic, the result \<open>None\<close>.
\<close>

section \<open>The configuration\<close>

record client_runtime_config =
  cc_server :: address
  cc_password :: string
  cc_sni :: "string option"
  cc_client_id :: "uuid option"
  cc_insecure :: bool
  cc_display_name :: "string option"

record parsed_url =
  pu_scheme :: string
  pu_host_str :: "string option"
  pu_port :: "u16 option"
  pu_username :: string
  pu_password :: "string option"
  pu_query :: "string option"
  pu_fragment :: "string option"

text \<open>
  Functions of \<open>socks5_impl\<close>, \<open>url\<close>, \<open>percent_encoding\<close> and \<open>uuid\<close>; errors are their messages.
\<close>

record crates =
  cr_host :: "address \<Rightarrow> string"
  cr_port :: "address \<Rightarrow> u16"
  cr_is_ipv6 :: "address \<Rightarrow> bool"
  cr_address_from :: "string \<Rightarrow> u16 \<Rightarrow> address"
  cr_url_parse :: "string \<Rightarrow> string + parsed_url"
  cr_form_parse :: "string \<Rightarrow> (string \<times> string) list"
  cr_form_serialize :: "(string \<times> string) list \<Rightarrow> string"
  cr_percent_decode :: "string \<Rightarrow> string"
  cr_percent_encode :: "(char \<Rightarrow> bool) \<Rightarrow> string \<Rightarrow> string"
  cr_controls :: "char \<Rightarrow> bool"
  cr_uuid_parse :: "string \<Rightarrow> string + uuid"
  cr_uuid_show :: "uuid \<Rightarrow> string"

fun format_authority :: "address \<Rightarrow> string" where
  "format_authority (SocketAddress addr) = show_socket_addr addr"
| "format_authority (DomainAddress host port) =
     (if str_contains '':'' host then ''['' @ host @ '']:'' @ show_nat (unat port)
      else host @ '':'' @ show_nat (unat port))"

definition authority :: "client_runtime_config \<Rightarrow> string" where
  "authority c = format_authority (cc_server c)"

section \<open>Printing\<close>

definition USERINFO_ENCODE_SET :: "crates \<Rightarrow> char \<Rightarrow> bool" where
  "USERINFO_ENCODE_SET cr c \<longleftrightarrow>
     cr_controls cr c \<or> c \<in> {CHR '' '', CHR 0x22, CHR ''#'', CHR ''<'', CHR ''>'', CHR ''?'', CHR ''@'', CHR ''['',
       CHR 0x5C, CHR '']'', CHR ''^'', CHR 0x60, CHR ''{'', CHR ''|'', CHR ''}''}"

definition FRAGMENT_ENCODE_SET :: "crates \<Rightarrow> char \<Rightarrow> bool" where
  "FRAGMENT_ENCODE_SET cr c \<longleftrightarrow>
     cr_controls cr c \<or> c \<in> {CHR '' '', CHR 0x22, CHR ''<'', CHR ''>'', CHR 0x60}"

definition percent_encode_userinfo :: "crates \<Rightarrow> string \<Rightarrow> string" where
  "percent_encode_userinfo cr s = cr_percent_encode cr (USERINFO_ENCODE_SET cr) s"

definition percent_encode_fragment :: "crates \<Rightarrow> string \<Rightarrow> string" where
  "percent_encode_fragment cr s = cr_percent_encode cr (FRAGMENT_ENCODE_SET cr) s"

definition url_host :: "crates \<Rightarrow> address \<Rightarrow> string" where
  "url_host cr server =
     (let host = cr_host cr server;
          host = (if str_contains ''%'' host then replace_char (CHR ''%'') ''%25'' host else host)
      in if cr_is_ipv6 cr server \<or> str_contains '':'' host then ''['' @ host @ '']'' else host)"

definition query_pairs :: "crates \<Rightarrow> client_runtime_config \<Rightarrow> (string \<times> string) list" where
  "query_pairs cr c =
     (case cc_sni c of Some sni \<Rightarrow> [(''sni'', sni)] | None \<Rightarrow> []) @
     (if cc_insecure c then [(''insecure'', ''1'')] else []) @
     (case cc_client_id c of Some i \<Rightarrow> [(''client_id'', cr_uuid_show cr i)] | None \<Rightarrow> [])"

definition config_to_string :: "crates \<Rightarrow> client_runtime_config \<Rightarrow> string" where
  "config_to_string cr c =
     (let host = url_host cr (cc_server c);
          port = cr_port cr (cc_server c);
          auth = (if port = 443 then host else host @ '':'' @ show_nat (unat port));
          query = cr_form_serialize cr (query_pairs cr c)
      in ''anytls://'' @
         (if cc_password c \<noteq> [] then percent_encode_userinfo cr (cc_password c) @ ''@'' else []) @
         auth @
         (if query \<noteq> [] then ''/?'' @ query else []) @
         (case cc_display_name c of Some name \<Rightarrow> ''#'' @ percent_encode_fragment cr name | None \<Rightarrow> []))"

section \<open>Parsing\<close>

definition is_any_of :: "string \<Rightarrow> char \<Rightarrow> bool" where
  "is_any_of cs c \<longleftrightarrow> c \<in> set cs"

definition is_anytls_ipv6_zone_url :: "string \<Rightarrow> bool" where
  "is_anytls_ipv6_zone_url raw_url =
     (let raw = (case strip_prefix ''anytls://'' raw_url of Some r \<Rightarrow> r | None \<Rightarrow> raw_url);
          authority_end = (case find_char (is_any_of ''/?#'') raw of Some n \<Rightarrow> n | None \<Rightarrow> length raw);
          auth = take authority_end raw;
          auth_and_host = (case rfind_char (is_any_of ''@'') auth of Some n \<Rightarrow> drop (n + 1) auth | None \<Rightarrow> auth)
      in case find_char (is_any_of ''['') auth_and_host of
           None \<Rightarrow> False
         | Some host_start \<Rightarrow>
             (case find_char (is_any_of '']'') (drop host_start auth_and_host) of
                None \<Rightarrow> False
              | Some n \<Rightarrow> str_contains ''%'' (take n (drop host_start auth_and_host))))"

text \<open>The loop over the query, with the values found so far.\<close>

type_synonym params = "string option \<times> bool \<times> uuid option"

fun query_params :: "crates \<Rightarrow> (string \<times> string) list \<Rightarrow> params \<Rightarrow> params io_result" where
  "query_params cr [] ps = Inr ps"
| "query_params cr ((key, value) # kvs) (sni, insecure, client_id) =
     (if key = ''password''
      then Inl (IoError InvalidInput ''Password must be provided in the URI auth field, not in query parameters'')
      else if key = ''sni'' then query_params cr kvs (Some value, insecure, client_id)
      else if key = ''insecure''
      then
        (if value = ''1'' then query_params cr kvs (sni, True, client_id)
         else if value = ''0'' then query_params cr kvs (sni, False, client_id)
         else Inl (IoError InvalidInput (''Invalid insecure value in AnyTLS URL: '' @ value)))
      else if key = ''client_id'' \<and> value \<noteq> []
      then
        (case cr_uuid_parse cr value of
           Inl e \<Rightarrow> Inl (error_other e)
         | Inr i \<Rightarrow> query_params cr kvs (sni, insecure, Some i))
      else query_params cr kvs (sni, insecure, client_id))"

definition build_client_runtime_config ::
    "crates \<Rightarrow> address \<Rightarrow> string \<Rightarrow> string \<Rightarrow> string option \<Rightarrow> client_runtime_config io_result" where
  "build_client_runtime_config cr server password query fragment =
     (let display_name =
        (case map_option (cr_percent_decode cr) fragment of
           Some name \<Rightarrow> if name = [] then None else Some name
         | None \<Rightarrow> None)
      in res_bind (query_params cr (cr_form_parse cr query) (None, False, None)) (\<lambda>(sni, insecure, client_id).
        Inr \<lparr>cc_server = server, cc_password = password, cc_sni = sni, cc_client_id = client_id,
             cc_insecure = insecure, cc_display_name = display_name\<rparr>))"

definition socket_or_domain :: "string \<Rightarrow> u16 \<Rightarrow> address" where
  "socket_or_domain host port =
     (case parse_socket_addr (''['' @ host @ '']:'' @ show_nat (unat port)) of
        Some a \<Rightarrow> SocketAddress a
      | None \<Rightarrow> DomainAddress host port)"

text \<open>The message of a failed \<open>parse::<u16>\<close>.\<close>

fun int_error :: "nat \<Rightarrow> nat \<Rightarrow> string \<Rightarrow> string" where
  "int_error m a [] = []"
| "int_error m a (c # cs) =
     (case digit_val c of
        None \<Rightarrow> ''invalid digit found in string''
      | Some d \<Rightarrow>
          if m < a * 10 + d then ''number too large to fit in target type'' else int_error m (a * 10 + d) cs)"

definition parse_int_error :: "nat \<Rightarrow> string \<Rightarrow> string" where
  "parse_int_error m s =
     (if s = [] then ''cannot parse integer from empty string''
      else if s = ''+'' then ''invalid digit found in string''
      else int_error m 0 (if hd s = CHR ''+'' then tl s else s))"

text \<open>Parts of a zone URL: the port and what follows it, the password, the query and the name.\<close>

definition zone_port :: "string \<Rightarrow> (u16 \<times> string) io_result" where
  "zone_port after =
     (case strip_prefix '':'' after of
        Some after_colon \<Rightarrow>
          (let delim = (case find_char (is_any_of ''/?#'') after_colon of Some n \<Rightarrow> n | None \<Rightarrow> length after_colon);
               port_text = take delim after_colon
           in case parse_u16 port_text of
                None \<Rightarrow> Inl (IoError InvalidInput (''Invalid port in AnyTLS URL: '' @ parse_int_error 65535 port_text))
              | Some port \<Rightarrow> Inr (port, drop delim after_colon))
      | None \<Rightarrow> Inr (443, after))"

definition zone_password :: "string \<Rightarrow> string" where
  "zone_password userinfo =
     (case find_char (is_any_of '':'') userinfo of
        Some n \<Rightarrow> if take n userinfo \<noteq> [] then take n userinfo else drop (n + 1) userinfo
      | None \<Rightarrow> userinfo)"

definition zone_query :: "string \<Rightarrow> string" where
  "zone_query rest =
     (case find_char (is_any_of ''?'') rest of
        Some n \<Rightarrow>
          (let query_fragment = drop (n + 1) rest
           in case find_char (is_any_of ''#'') query_fragment of
                Some h \<Rightarrow> take h query_fragment
              | None \<Rightarrow> query_fragment)
      | None \<Rightarrow> [])"

definition zone_display_name :: "crates \<Rightarrow> string \<Rightarrow> string option" where
  "zone_display_name cr rest =
     (case find_char (is_any_of ''#'') rest of
        None \<Rightarrow> None
      | Some n \<Rightarrow>
          (let frag = str_trim (drop (n + 1) rest)
           in if frag = [] then None else Some (cr_percent_decode cr frag)))"

definition parse_anytls_url_ipv6_zone :: "crates \<Rightarrow> string \<Rightarrow> client_runtime_config io_result option" where
  "parse_anytls_url_ipv6_zone cr raw_url =
     (case strip_prefix ''anytls://'' raw_url of
        None \<Rightarrow> Some (Inl (IoError InvalidInput ''URL scheme must be anytls''))
      | Some without_scheme \<Rightarrow>
          (case (case find_char (is_any_of ''@'') without_scheme of
                   Some n \<Rightarrow> (take n without_scheme, drop (n + 1) without_scheme)
                 | None \<Rightarrow> ([], without_scheme)) of
             (userinfo, authority_and_rest) \<Rightarrow>
               (case find_char (is_any_of ''['') authority_and_rest of
                  None \<Rightarrow> Some (Inl (IoError InvalidInput ''AnyTLS URL must include a host''))
                | Some host_start \<Rightarrow>
                    (case find_char (is_any_of '']'') authority_and_rest of
                       None \<Rightarrow> Some (Inl (IoError InvalidInput ''Invalid IPv6 host in AnyTLS URL''))
                     | Some host_end \<Rightarrow>
                         map_option
                           (\<lambda>slice.
                              let server_host = (if str_contains ''%25'' slice then cr_percent_decode cr slice else slice)
                              in res_bind (zone_port (drop (host_end + 1) authority_and_rest)) (\<lambda>(server_port, rest).
                                build_client_runtime_config cr (socket_or_domain server_host server_port)
                                  (zone_password userinfo) (zone_query rest) (zone_display_name cr rest)))
                           (str_slice (host_start + 1) host_end authority_and_rest)))))"

definition parse_anytls_url :: "crates \<Rightarrow> string \<Rightarrow> client_runtime_config io_result option" where
  "parse_anytls_url cr raw_url =
     (if is_anytls_ipv6_zone_url raw_url then parse_anytls_url_ipv6_zone cr raw_url
      else
        Some (case cr_url_parse cr raw_url of
          Inl e \<Rightarrow> Inl (error_other e)
        | Inr url \<Rightarrow>
            if pu_scheme url \<noteq> ''anytls'' then Inl (IoError InvalidInput ''URL scheme must be anytls'')
            else
              (case pu_host_str url of
                 None \<Rightarrow> Inl (IoError InvalidInput ''AnyTLS URL must include a host'')
               | Some text \<Rightarrow>
                   (let host = (case Option.bind (strip_prefix ''['' text) (strip_suffix '']'') of
                                  Some h \<Rightarrow> h | None \<Rightarrow> text);
                        port = (case pu_port url of Some p \<Rightarrow> p | None \<Rightarrow> 443);
                        server = (if str_contains '':'' host then socket_or_domain host port
                                  else cr_address_from cr host port);
                        password = (if pu_username url = []
                                    then (case pu_password url of Some p \<Rightarrow> p | None \<Rightarrow> [])
                                    else pu_username url)
                    in build_client_runtime_config cr server password
                         (case pu_query url of Some q \<Rightarrow> q | None \<Rightarrow> []) (pu_fragment url)))))"

section \<open>Dialling\<close>

text \<open>
  How \<open>TcpStream::connect\<close> reads a text: as a socket address, or else as a host name and a port at
  the last colon.
\<close>

definition to_socket_addrs :: "string \<Rightarrow> (socket_addr + string \<times> u16) option" where
  "to_socket_addrs s =
     (case parse_socket_addr s of
        Some a \<Rightarrow> Some (Inl a)
      | None \<Rightarrow>
          (case rfind_char (is_any_of '':'') s of
             None \<Rightarrow> None
           | Some n \<Rightarrow> map_option (\<lambda>port. Inr (take n s, port)) (parse_u16 (drop (n + 1) s))))"

section \<open>Lemmas\<close>

lemma str_contains_char: "str_contains [c] s \<longleftrightarrow> c \<in> set s"
  by (induction s) auto

lemma find_char_first:
  assumes "list_all (\<lambda>c. \<not> P c) s" "t = [] \<or> P (hd t)"
  shows "find_char P (s @ t) = (if t = [] then None else Some (length s))"
  using assms find_char_append [of P s "hd t" "tl t"] by (cases t) (auto simp: find_char_None)

lemma rfind_char_last:
  assumes "list_all (\<lambda>c. \<not> P c) t" "P c"
  shows "rfind_char P (s @ c # t) = Some (length s)"
proof -
  have "takeWhile (\<lambda>c. \<not> P c) (rev t @ c # rev s) = rev t"
    using assms by (subst takeWhile_append2) (auto simp: list_all_iff)
  then show ?thesis by (simp add: rfind_char_def)
qed

lemma set_replace_char: "set (replace_char c t s) \<subseteq> set s \<union> set t"
  by (auto simp: replace_char_def split: if_splits)

lemma str_contains_append: "str_contains t u \<Longrightarrow> str_contains t (v @ u)"
  by (induction v) auto

lemma str_contains_prefix: "str_contains t (t @ u)"
  by (cases "t @ u"; auto; metis append_eq_conv_conj)

lemma contains_replaced: "c \<in> set s \<Longrightarrow> str_contains t (replace_char c t s)"
proof (induction s)
  case (Cons d s)
  have "replace_char c t (d # s) = (if d = c then t else [d]) @ replace_char c t s" by (simp add: replace_char_def)
  with Cons show ?case using str_contains_append str_contains_prefix by (cases "d = c") auto
qed simp

lemma parse_u16_show: "parse_u16 (show_nat (unat n)) = Some n"
  using unat_u16_less [of n] by (simp add: parse_u16_def parse_unsigned_show_nat)

lemma show_nat_is_digit: "c \<in> set (show_nat n) \<Longrightarrow> is_digit 10 c"
  using show_nat_text [of n] by (auto simp: numeral_text_def list_all_iff)

lemma not_digit: "\<not> is_digit 10 (CHR '':'')" "\<not> is_digit 10 (CHR ''/'')" "\<not> is_digit 10 (CHR ''?'')" "\<not> is_digit 10 (CHR ''#'')"
  "\<not> is_digit 10 (CHR ''@'')" "\<not> is_digit 10 (CHR ''['')" "\<not> is_digit 10 (CHR '']'')"
  by (simp_all add: is_digit_def to_digit_def)

lemma show_nat_none: "\<forall>c \<in> set cs. \<not> is_digit 10 c \<Longrightarrow> list_all (\<lambda>c. \<not> is_any_of cs c) (show_nat n)"
  by (auto simp: list_all_iff is_any_of_def dest: show_nat_is_digit)

text \<open>The parts of a URL with a host in brackets, and what may follow the port.\<close>

definition delimited :: "string \<Rightarrow> bool" where
  "delimited rest \<longleftrightarrow> rest = [] \<or> is_any_of ''/?#'' (hd rest)"

definition port_text :: "u16 \<Rightarrow> string" where
  "port_text port = (if port = 443 then [] else '':'' @ show_nat (unat port))"

lemma port_text_none:
  assumes "\<forall>c \<in> set cs. \<not> is_digit 10 c \<and> c \<noteq> CHR '':''"
  shows "list_all (\<lambda>c. \<not> is_any_of cs c) (port_text port)"
  using assms show_nat_none [of cs "unat port"] by (auto simp: port_text_def is_any_of_def)

lemma zone_url_detected:
  assumes "list_all (\<lambda>c. \<not> is_any_of ''/?#'' c) pw" "list_all (\<lambda>c. \<not> is_any_of ''[]/?#@'' c) h"
    and "CHR ''%'' \<in> set h" "delimited rest"
  shows "is_anytls_ipv6_zone_url (''anytls://'' @ pw @ ''@['' @ h @ '']'' @ port_text port @ rest)"
proof -
  let ?auth = "pw @ ''@['' @ h @ '']'' @ port_text port"
  let ?host = "''['' @ h @ '']'' @ port_text port"
  have p: "list_all (\<lambda>c. \<not> is_any_of cs c) (port_text port)" if "cs = ''/?#'' \<or> cs = ''@''" for cs
    using that by (intro port_text_none) (auto simp: not_digit)
  have h: "list_all (\<lambda>c. \<not> is_any_of cs c) h" if "set cs \<subseteq> set ''[]/?#@''" for cs
    using assms(2) that by (auto simp: list_all_iff is_any_of_def)
  have "list_all (\<lambda>c. \<not> is_any_of ''/?#'' c) ?auth"
    using assms(1) h [of "''/?#''"] p [of "''/?#''"] by (simp add: is_any_of_def)
  from find_char_first [OF this, of rest] assms(4)
  have e: "(case find_char (is_any_of ''/?#'') (?auth @ rest) of Some n \<Rightarrow> n | None \<Rightarrow> length (?auth @ rest)) = length ?auth"
    by (auto simp: delimited_def)
  have r: "rfind_char (is_any_of ''@'') ?auth = Some (length pw)"
    using rfind_char_last [of "is_any_of ''@''" ?host "CHR ''@''" pw] h [of "''@''"] p [of "''@''"]
    by (simp add: is_any_of_def)
  have s: "find_char (is_any_of ''['') ?host = Some 0"
    by (simp add: find_char_def is_any_of_def)
  have c: "find_char (is_any_of '']'') ?host = Some (length h + 1)"
    using find_char_append [of "is_any_of '']''" "CHR ''['' # h" "CHR '']''" "port_text port"] h [of "'']''"]
    by (simp add: is_any_of_def)
  have t: "take (length ?auth) (?auth @ rest) = ?auth" by (rule append_eq_conv_conj [THEN iffD1, THEN conjunct1, symmetric]) simp
  have "is_anytls_ipv6_zone_url (''anytls://'' @ ?auth @ rest) = str_contains ''%'' (CHR ''['' # h)"
    unfolding is_anytls_ipv6_zone_url_def strip_prefix_append option.case Let_def e t r
    using s c by simp
  with assms(3) show ?thesis by (simp add: str_contains_char)
qed

lemma zone_port_text: "delimited rest \<Longrightarrow> zone_port (port_text port @ rest) = Inr (port, rest)"
proof (cases "port = 443")
  case True
  assume "delimited rest"
  then have "strip_prefix '':'' rest = None" by (cases rest) (auto simp: delimited_def is_any_of_def strip_prefix_None)
  with True show ?thesis by (simp add: zone_port_def port_text_def)
next
  case False
  assume d: "delimited rest"
  have "list_all (\<lambda>c. \<not> is_any_of ''/?#'' c) (show_nat (unat port))" by (rule show_nat_none) (simp add: not_digit)
  from find_char_first [OF this, of rest] d False show ?thesis
    using strip_prefix_append [of "'':''" "show_nat (unat port) @ rest"]
    by (auto simp: zone_port_def port_text_def delimited_def parse_u16_show)
qed

definition url_rest :: "string \<Rightarrow> string option \<Rightarrow> string" where
  "url_rest q frag = (if q \<noteq> [] then ''/?'' @ q else []) @ (case frag of Some f \<Rightarrow> ''#'' @ f | None \<Rightarrow> [])"

lemma url_rest_delimited: "delimited (url_rest q frag)"
  by (auto simp: url_rest_def delimited_def is_any_of_def split: option.split)

lemma zone_query_rest:
  assumes "CHR ''#'' \<notin> set q" "\<forall>f. frag = Some f \<longrightarrow> CHR ''?'' \<notin> set f"
  shows "zone_query (url_rest q frag) = q"
proof (cases "q = []")
  case True
  have "find_char (is_any_of ''?'') (url_rest q frag) = None"
    using assms(2) True by (auto simp: url_rest_def find_char_None list_all_iff is_any_of_def split: option.split)
  with True show ?thesis by (simp add: zone_query_def)
next
  case False
  define t where "t = (case frag of Some f \<Rightarrow> ''#'' @ f | None \<Rightarrow> [])"
  have "find_char (is_any_of ''?'') (''/'' @ CHR ''?'' # q @ t) = Some 1"
    using find_char_append [of "is_any_of ''?''" "''/''"] by (simp add: is_any_of_def)
  moreover have "find_char (is_any_of ''#'') (q @ t) = (if t = [] then None else Some (length q))"
    using assms(1) by (intro find_char_first) (auto simp: t_def list_all_iff is_any_of_def split: option.split)
  ultimately show ?thesis
    using False by (auto simp: zone_query_def url_rest_def t_def [symmetric])
qed

lemma zone_name_rest:
  assumes "CHR ''#'' \<notin> set q" "\<forall>f. frag = Some f \<longrightarrow> f \<noteq> [] \<and> list_all graphic f"
  shows "zone_display_name cr (url_rest q frag) = map_option (cr_percent_decode cr) frag"
proof (cases frag)
  case None
  then have "find_char (is_any_of ''#'') (url_rest q frag) = None"
    using assms(1) by (auto simp: url_rest_def find_char_None list_all_iff is_any_of_def)
  with None show ?thesis by (simp add: zone_display_name_def)
next
  case (Some f)
  let ?s = "if q \<noteq> [] then ''/?'' @ q else []"
  have "find_char (is_any_of ''#'') (?s @ CHR ''#'' # f) = Some (length ?s)"
    using assms(1) by (intro find_char_append) (auto simp: list_all_iff is_any_of_def)
  moreover have "str_trim f = f" using assms(2) Some by (intro str_trim_graphic) (auto simp: list_all_iff)
  ultimately show ?thesis using assms(2) Some by (simp add: zone_display_name_def url_rest_def)
qed

lemma zone_host_text:
  assumes "list_all (\<lambda>x. graphic x \<and> \<not> is_any_of ''[]/?#@'' x) host"
  shows "list_all (\<lambda>x. graphic x \<and> \<not> is_any_of ''[]/?#@'' x) (replace_char (CHR ''%'') ''%25'' host)"
proof -
  have "list_all (\<lambda>x. graphic x \<and> \<not> is_any_of ''[]/?#@'' x) ''%25''" by code_simp
  with assms set_replace_char [of "CHR ''%''" "''%25''" host] show ?thesis unfolding list_all_iff by blast
qed

lemma query_params_pairs:
  assumes "\<forall>i. cc_client_id c = Some i \<longrightarrow> cr_uuid_show cr i \<noteq> [] \<and> cr_uuid_parse cr (cr_uuid_show cr i) = Inr i"
  shows "query_params cr (query_pairs cr c) (None, False, None) = Inr (cc_sni c, cc_insecure c, cc_client_id c)"
  using assms by (cases "cc_sni c"; cases "cc_insecure c"; cases "cc_client_id c") (simp_all add: query_pairs_def)

lemma graphic_not_cont: "graphic c \<Longrightarrow> \<not> is_cont (byte_of_char c)"
  by (simp add: graphic_def is_cont_def word_le_nat_alt word_less_nat_alt)

lemma parse_zone_parts:
  assumes "list_all (\<lambda>c. \<not> is_any_of ''@'' c) pw" "list_all (\<lambda>x. graphic x \<and> \<not> is_any_of ''[]/?#@'' x) h"
    and "str_contains ''%25'' h" "delimited rest"
  shows "parse_anytls_url_ipv6_zone cr (''anytls://'' @ pw @ ''@['' @ h @ '']'' @ port_text port @ rest) =
    Some (build_client_runtime_config cr (socket_or_domain (cr_percent_decode cr h) port)
      (zone_password pw) (zone_query rest) (zone_display_name cr rest))"
proof -
  let ?tail = "''['' @ h @ '']'' @ port_text port @ rest"
  have u: "find_char (is_any_of ''@'') (pw @ CHR ''@'' # ?tail) = Some (length pw)"
    using assms(1) by (intro find_char_append) (simp_all add: is_any_of_def)
  have s: "find_char (is_any_of ''['') ?tail = Some 0" by (simp add: find_char_def is_any_of_def)
  have "list_all (\<lambda>c. \<not> is_any_of '']'' c) (CHR ''['' # h)"
    using assms(2) by (auto simp: list_all_iff is_any_of_def)
  moreover have "is_any_of '']'' (CHR '']'')" by (simp add: is_any_of_def)
  ultimately have e: "find_char (is_any_of '']'') ?tail = Some (length h + 1)"
    using find_char_append [of "is_any_of '']''" "CHR ''['' # h" "CHR '']''" "port_text port @ rest"] by simp
  have "is_char_boundary ?tail 1"
    using assms(2,3) by (cases h) (auto simp: is_char_boundary_def graphic_not_cont)
  moreover have "is_char_boundary ?tail (length h + 1)"
    by (simp add: is_char_boundary_def nth_append is_cont_def byte_of_char_def)
  ultimately have slice: "str_slice 1 (length h + 1) ?tail = Some h" by (simp add: str_slice_def)
  show ?thesis
    unfolding parse_anytls_url_ipv6_zone_def strip_prefix_append option.case
    using u s e slice assms(3,4) by (simp add: zone_port_text)
qed

lemma config_shown:
  assumes "cc_server c = DomainAddress host port" "cr_host cr (cc_server c) = host" "cr_port cr (cc_server c) = port"
    and "CHR ''%'' \<in> set host" "CHR '':'' \<in> set host"
    and "cc_password c \<noteq> []" "percent_encode_userinfo cr (cc_password c) = cc_password c"
  shows "config_to_string cr c =
    ''anytls://'' @ cc_password c @ ''@['' @ replace_char (CHR ''%'') ''%25'' host @ '']'' @ port_text port @
      url_rest (cr_form_serialize cr (query_pairs cr c)) (map_option (percent_encode_fragment cr) (cc_display_name c))"
proof -
  have "CHR '':'' \<in> set (replace_char (CHR ''%'') ''%25'' host)"
    using assms(5) by (auto simp: replace_char_def)
  then have "url_host cr (cc_server c) = ''['' @ replace_char (CHR ''%'') ''%25'' host @ '']''"
    using assms(2,4) by (simp add: url_host_def str_contains_char)
  with assms(3,6,7) show ?thesis
    by (simp add: config_to_string_def Let_def port_text_def url_rest_def split: option.split)
qed

text \<open>A host that does not start as an address is none.\<close>

lemma parse_not_hex:
  assumes "host \<noteq> []" "ends_number 16 host" "hd host \<noteq> CHR '':''"
  shows "parse_socket_addr (''['' @ host @ t) = None"
proof -
  have "read_groups 8 0 (host @ t) = ([], False, host @ t)"
    using assms(1,2) by (intro read_groups_end) (auto simp: ends_groups_def ends_number_def)
  then have "read_ipv6_groups (host @ t) = None"
    using assms(1,3) by (cases host) (simp_all add: read_ipv6_groups_def)
  moreover have "read_ipv4_octets (''['' @ host @ t) = None"
    by (rule read_ipv4_none) (simp add: is_digit_def to_digit_def)
  ultimately show ?thesis
    by (simp add: parse_socket_addr_def whole_def read_socket_addr_v4_def read_socket_addr_v6_def)
qed

text \<open>
  Passwords that a URL does not keep: a slash ends the authority before the host, and at a colon the
  rest of the password is dropped.
\<close>

lemma slash_ends_authority:
  assumes "CHR ''['' \<notin> set a"
  shows "\<not> is_anytls_ipv6_zone_url (''anytls://'' @ a @ ''/'' @ t)"
proof -
  let ?raw = "a @ ''/'' @ t"
  obtain n where n: "find_char (is_any_of ''/?#'') ?raw = Some n" "n \<le> length a"
  proof -
    let ?s = "takeWhile (\<lambda>c. \<not> is_any_of ''/?#'' c) ?raw"
    have "length ?s \<le> length a"
      by (cases "\<exists>c \<in> set a. is_any_of ''/?#'' c")
        (auto simp: takeWhile_append1 takeWhile_append2 is_any_of_def length_takeWhile_le)
    then show ?thesis using that [of "length ?s"] by (simp add: find_char_def)
  qed
  then have sub: "set (take n ?raw) \<subseteq> set a" using set_take_subset [of n a] by auto
  have "CHR ''['' \<notin> set (case rfind_char (is_any_of ''@'') (take n ?raw) of
      Some k \<Rightarrow> drop (k + 1) (take n ?raw) | None \<Rightarrow> take n ?raw)"
    using assms sub by (auto split: option.split dest: in_set_dropD)
  then have "find_char (is_any_of ''['') (case rfind_char (is_any_of ''@'') (take n ?raw) of
      Some k \<Rightarrow> drop (k + 1) (take n ?raw) | None \<Rightarrow> take n ?raw) = None"
    unfolding find_char_None by (auto simp: list_all_iff is_any_of_def)
  then show ?thesis
    unfolding is_anytls_ipv6_zone_url_def strip_prefix_append option.case Let_def n(1) by simp
qed

lemma colon_cuts_password:
  assumes "a \<noteq> []" "CHR '':'' \<notin> set a"
  shows "zone_password (a @ '':'' @ b) = a"
proof -
  have "find_char (is_any_of '':'') (a @ CHR '':'' # b) = Some (length a)"
    using assms(2) by (intro find_char_append) (auto simp: list_all_iff is_any_of_def)
  with assms(1) show ?thesis by (simp add: zone_password_def)
qed

section \<open>Properties\<close>

text \<open>
  The server that is dialled. The text a client connects to is read as the configured socket
  address, or as the configured host and port; only a host with a colon that is not an address, such
  as one with a named zone, reaches the resolver in brackets.
\<close>

theorem authority_dials:
  assumes "case a of SocketAddrV4 _ _ \<Rightarrow> True | SocketAddrV6 _ _ flow _ \<Rightarrow> flow = 0"
  shows "to_socket_addrs (format_authority (SocketAddress a)) = Some (Inl a) \<and>
    to_socket_addrs (format_authority (DomainAddress host port)) =
      Some (case parse_socket_addr (format_authority (DomainAddress host port)) of
        Some b \<Rightarrow> Inl b
      | None \<Rightarrow> Inr (if CHR '':'' \<in> set host then ''['' @ host @ '']'' else host, port))"
proof -
  define name where "name = (if CHR '':'' \<in> set host then ''['' @ host @ '']'' else host)"
  have f: "format_authority (DomainAddress host port) = name @ CHR '':'' # show_nat (unat port)"
    by (simp add: name_def str_contains_char)
  have "list_all (\<lambda>c. \<not> is_any_of '':'' c) (show_nat (unat port))"
    by (rule show_nat_none) (simp add: not_digit)
  then have "rfind_char (is_any_of '':'') (name @ CHR '':'' # show_nat (unat port)) = Some (length name)"
    by (rule rfind_char_last) (simp add: is_any_of_def)
  then have "to_socket_addrs (format_authority (DomainAddress host port)) =
      Some (case parse_socket_addr (format_authority (DomainAddress host port)) of
        Some b \<Rightarrow> Inl b | None \<Rightarrow> Inr (name, port))"
    unfolding f by (simp add: to_socket_addrs_def parse_u16_show split: option.split)
  moreover have "to_socket_addrs (format_authority (SocketAddress a)) = Some (Inl a)"
    using socket_addr_text [OF assms] by (simp add: to_socket_addrs_def)
  ultimately show ?thesis unfolding name_def by blast
qed

theorem authority_dials_witness:
  "to_socket_addrs (format_authority (SocketAddress (SocketAddrV6 1 443 0 3))) = Some (Inl (SocketAddrV6 1 443 0 3))"
  using authority_dials [of "SocketAddrV6 1 443 0 3"] by simp


text \<open>Functions of the crates that behave as documented on the values of an example.\<close>

definition sample_crates :: crates where
  "sample_crates =
     \<lparr>cr_host = (\<lambda>a. case a of DomainAddress h _ \<Rightarrow> h | SocketAddress _ \<Rightarrow> []),
      cr_port = (\<lambda>a. case a of DomainAddress _ p \<Rightarrow> p | SocketAddress _ \<Rightarrow> 0),
      cr_is_ipv6 = (\<lambda>_. False), cr_address_from = DomainAddress, cr_url_parse = (\<lambda>_. Inl []),
      cr_form_parse = (\<lambda>q. if q = ''sni=a.example'' then [(''sni'', ''a.example'')] else []),
      cr_form_serialize = (\<lambda>kvs. if kvs = [(''sni'', ''a.example'')] then ''sni=a.example'' else []),
      cr_percent_decode = (\<lambda>s. if s = ''link:1%25eth0'' then ''link:1%eth0'' else s),
      cr_percent_encode = (\<lambda>_ s. s), cr_controls = (\<lambda>_. False), cr_uuid_parse = (\<lambda>_. Inl []),
      cr_uuid_show = (\<lambda>_. [])\<rparr>"

definition sample_config :: client_runtime_config where
  "sample_config =
     \<lparr>cc_server = DomainAddress ''link:1%eth0'' 8443, cc_password = ''secret'', cc_sni = Some ''a.example'',
      cc_client_id = None, cc_insecure = False, cc_display_name = Some ''node''\<rparr>"


end
