(* ===== verification/Client_Runner.thy ===== *)
theory Client_Runner
  imports Parse_Url Server Client_Pool
begin

text \<open>
  \<open>src/src/client_runner.rs\<close> without its relays, and the checks of \<open>src/bin/client.rs\<close>: the
  configuration, the start of the client, which protocol a local connection speaks, the connection
  to the server with the preamble that authenticates it, and the tunnel through an HTTP proxy. The
  TLS set-up, sockets and files are arguments.
\<close>

section \<open>The configuration\<close>

datatype listen_type = ListenSocks5 | ListenHttp | ListenOther

record client_args =
  ca_url :: "string option"
  ca_listen_type :: listen_type
  ca_server :: "socket_addr option"
  ca_sni :: "string option"
  ca_password :: "string option"
  ca_client_id :: "uuid option"
  ca_insecure :: "bool option"
  ca_padding_scheme :: "(string \<times> byte list io_result) option"
  ca_multiplexing :: bool
  ca_max_streams_per_session :: nat
  ca_print_url :: bool

definition default_config :: client_runtime_config where
  "default_config =
     \<lparr>cc_server = DomainAddress [] 443, cc_password = [], cc_sni = None, cc_client_id = None, cc_insecure = False,
      cc_display_name = None\<rparr>"

definition override :: "'a option \<Rightarrow> ('a \<Rightarrow> 'b \<Rightarrow> 'b) \<Rightarrow> 'b \<Rightarrow> 'b" where
  "override arg f c = (case arg of Some x \<Rightarrow> f x c | None \<Rightarrow> c)"

definition apply_args :: "client_args \<Rightarrow> client_runtime_config \<Rightarrow> client_runtime_config" where
  "apply_args args c =
     override (ca_insecure args) (\<lambda>x c. c\<lparr>cc_insecure := x\<rparr>)
       (override (ca_client_id args) (\<lambda>x c. c\<lparr>cc_client_id := Some x\<rparr>)
         (override (ca_sni args) (\<lambda>x c. c\<lparr>cc_sni := Some x\<rparr>)
           (override (ca_password args) (\<lambda>x c. c\<lparr>cc_password := x\<rparr>)
             (override (ca_server args) (\<lambda>x c. c\<lparr>cc_server := SocketAddress x\<rparr>) c))))"

definition resolve_client_config :: "crates \<Rightarrow> client_args \<Rightarrow> client_runtime_config io_result option" where
  "resolve_client_config cr args =
     map_option
       (\<lambda>r. res_bind r (\<lambda>config.
          let config = apply_args args config
          in if cr_host cr (cc_server config) = []
             then Inl (IoError InvalidInput ''Server address is required (use --server or --url)'')
             else Inr config))
       (case ca_url args of Some url \<Rightarrow> parse_anytls_url cr url | None \<Rightarrow> Some (Inr default_config))"

section \<open>The start\<close>

definition max_streams_of :: "client_args \<Rightarrow> nat" where
  "max_streams_of args = (if ca_multiplexing args then max (ca_max_streams_per_session args) 1 else 1)"

definition runner_padding ::
    "hash_fun \<Rightarrow> (string \<times> byte list io_result) option \<Rightarrow> padding_factory option \<Rightarrow> padding_factory option io_result" where
  "runner_padding md5 file cell =
     (case file of
        None \<Rightarrow> Inr (default_load md5 cell)
      | Some (path, content) \<Rightarrow>
          res_bind content (\<lambda>content.
            case default_update md5 cell content of
              (cell, True) \<Rightarrow> Inr (default_load md5 cell)
            | (cell, False) \<Rightarrow> Inl (IoError InvalidInput (''Wrong format padding scheme file: '' @ path))))"

text \<open>What the dialling closure captures, and the client that calls it.\<close>

record dialler =
  dl_server :: address
  dl_sni :: "string option"
  dl_password_sha256 :: "byte list"
  dl_client_id :: "uuid option"
  dl_padding :: padding_factory

definition runner_start ::
    "sha_fun \<Rightarrow> hash_fun \<Rightarrow> crates \<Rightarrow> unit io_result \<Rightarrow> client_args \<Rightarrow> padding_factory option \<Rightarrow>
     (dialler \<times> client) io_result option" where
  "runner_start sha md5 cr tls_config args cell =
     Option.bind (resolve_client_config cr args) (\<lambda>r.
       case r of
         Inl e \<Rightarrow> Some (Inl e)
       | Inr config \<Rightarrow>
           (case runner_padding md5 (ca_padding_scheme args) cell of
              Inl e \<Rightarrow> Some (Inl e)
            | Inr loaded \<Rightarrow>
                (case tls_config of
                   Inl e \<Rightarrow> Some (Inl e)
                 | Inr _ \<Rightarrow>
                     map_option
                       (\<lambda>pf. Inr
                          (\<lparr>dl_server = cc_server config, dl_sni = cc_sni config,
                            dl_password_sha256 = sha (as_bytes (cc_password config)),
                            dl_client_id = cc_client_id config, dl_padding = pf\<rparr>,
                           client_new pf 30 5 (max_streams_of args)))
                       loaded)))"

text \<open>\<open>run\<close> of \<open>src/bin/client.rs\<close>: print the URL, or run the client.\<close>

datatype client_main = PrintUrl string | RunClient

definition client_run :: "crates \<Rightarrow> client_args \<Rightarrow> client_main io_result option" where
  "client_run cr args =
     map_option
       (\<lambda>r. res_bind r (\<lambda>config.
          if ca_listen_type args = ListenOther
          then Inl (IoError InvalidInput
            ''Only SOCKS5 or HTTP (both mixed actually) proxy type is supported for listen address'')
          else if ca_print_url args then Inr (PrintUrl (config_to_string cr config))
          else Inr RunClient))
       (resolve_client_config cr args)"

section \<open>Local connections\<close>

datatype listener = NoData | Socks5Client | Socks4Client | HttpClient | UnknownClient

definition http_methods :: "string list" where
  "http_methods =
     [''CONNECT'', ''GET'', ''POST'', ''HEAD'', ''PUT'', ''OPTIONS'', ''DELETE'', ''TRACE'', ''PATCH'', ''LOCK'',
      ''UNLOCK'', ''PROPFIND'', ''MKCOL'', ''COPY'', ''MOVE'']"

text \<open>The search for a method; slicing within a character is a panic.\<close>

fun any_method :: "string list \<Rightarrow> string \<Rightarrow> bool option" where
  "any_method [] s = Some False"
| "any_method (m # ms) s =
     (if length m \<le> length s
      then
        (case str_slice 0 (length m) s of
           None \<Rightarrow> None
         | Some t \<Rightarrow>
             if eq_ignore_ascii_case t m \<and> length m < length s \<and> s ! length m = CHR '' '' then Some True
             else any_method ms s)
      else any_method ms s)"

text \<open>The kind of a connection, from the up to ten bytes that can be seen of it.\<close>

definition handle_listener_stream :: "byte list \<Rightarrow> listener option" where
  "handle_listener_stream peeked =
     (case peeked of
        [] \<Rightarrow> Some NoData
      | b # _ \<Rightarrow>
          if b = 0x05 then Some Socks5Client
          else if b = 0x04 then Some Socks4Client
          else
            (case from_utf8 peeked of
               None \<Rightarrow> Some UnknownClient
             | Some s \<Rightarrow> map_option (\<lambda>is_http. if is_http then HttpClient else UnknownClient) (any_method http_methods s)))"

section \<open>Connecting to the server\<close>

datatype server_name = IpName ip_addr | DnsName string

fun ip_of :: "socket_addr \<Rightarrow> ip_addr" where
  "ip_of (SocketAddrV4 ip _) = IpV4 ip"
| "ip_of (SocketAddrV6 ip _ _ _) = IpV6 ip"

text \<open>\<open>dns_name\<close> is the check of \<open>ServerName::try_from\<close>.\<close>

definition named :: "(string \<Rightarrow> unit + string) \<Rightarrow> string \<Rightarrow> server_name io_result" where
  "named dns_name s =
     (case parse_ip_addr s of
        Some ip \<Rightarrow> Inr (IpName ip)
      | None \<Rightarrow> (case dns_name s of Inl _ \<Rightarrow> Inr (DnsName s) | Inr e \<Rightarrow> Inl (IoError InvalidInput e)))"

definition server_name_of :: "(string \<Rightarrow> unit + string) \<Rightarrow> string option \<Rightarrow> address \<Rightarrow> server_name io_result" where
  "server_name_of dns_name sni server =
     (case sni of
        Some sni \<Rightarrow> named dns_name sni
      | None \<Rightarrow>
          (case server of
             SocketAddress a \<Rightarrow> Inr (IpName (ip_of a))
           | DomainAddress domain _ \<Rightarrow> named dns_name domain))"

text \<open>The preamble: the password hash, the length of the padding, and the padding, which starts with the client's identifier.\<close>

definition auth_padding_len :: "int list \<Rightarrow> byte list \<Rightarrow> u16" where
  "auth_padding_len padding_sizes client_id_bytes =
     (let padding_len = (case padding_sizes of [] \<Rightarrow> 0 | n # _ \<Rightarrow> word_of_int n)
      in if client_id_bytes \<noteq> [] then max padding_len (word_of_nat (length client_id_bytes)) else padding_len)"

definition auth_preamble :: "byte list \<Rightarrow> int list \<Rightarrow> byte list \<Rightarrow> byte list" where
  "auth_preamble password_sha256 padding_sizes client_id_bytes =
     (let padding_len = auth_padding_len padding_sizes client_id_bytes
      in password_sha256 @ put_u16 padding_len @
         (client_id_bytes @ replicate (unat padding_len - length client_id_bytes) 0))"

definition dail_out ::
    "rng_fun \<Rightarrow> (uuid \<Rightarrow> string) \<Rightarrow> (string \<Rightarrow> unit + string) \<Rightarrow> unit io_result \<Rightarrow> unit io_result \<Rightarrow>
     unit io_result \<Rightarrow> dialler \<Rightarrow> (server_name \<times> byte list) io_result" where
  "dail_out rng uuid_show dns_name connected tls written d =
     res_bind connected (\<lambda>_.
       res_bind (server_name_of dns_name (dl_sni d) (dl_server d)) (\<lambda>name.
         res_bind tls (\<lambda>_.
           let client_id_bytes = (case dl_client_id d of Some i \<Rightarrow> as_bytes (uuid_show i) | None \<Rightarrow> []);
               auth_data =
                 auth_preamble (dl_password_sha256 d) (generate_record_payload_sizes rng (dl_padding d) 0) client_id_bytes
           in res_bind written (\<lambda>_. Inr (name, auth_data)))))"

section \<open>Lemmas\<close>

lemma ascii_boundary: "is_ascii s \<Longrightarrow> n \<le> length s \<Longrightarrow> is_char_boundary s n"
proof -
  assume s: "is_ascii s" "n \<le> length s"
  have "\<not> is_cont (byte_of_char (s ! n))" if "n < length s"
  proof -
    have "(of_char (s ! n) :: nat) < 128" using s(1) that by (auto simp: is_ascii_def list_all_length)
    then have "unat (byte_of_char (s ! n)) < 128" by (simp add: byte_of_char_def unat_of_nat)
    then show ?thesis by (simp add: is_cont_def word_le_nat_alt)
  qed
  with s(2) show ?thesis by (auto simp: is_char_boundary_def)
qed

lemma any_method_ascii:
  assumes "is_ascii s"
  shows "any_method ms s =
    Some (\<exists>m \<in> set ms. length m < length s \<and> eq_ignore_ascii_case (take (length m) s) m \<and> s ! length m = CHR '' '')"
proof (induction ms)
  case (Cons m ms)
  have "str_slice 0 (length m) s = Some (take (length m) s)" if "length m \<le> length s"
    using that ascii_boundary [OF assms that] ascii_boundary [OF assms, of 0] by (simp add: str_slice_def)
  with Cons show ?case by auto
qed simp

lemma extract_client_id_zeros:
  assumes "36 \<le> n"
  shows "extract_client_id_from_padding parse_str (replicate n 0) = None"
proof -
  have u: "from_utf8 (take UUID_STR_LEN (replicate n 0)) = Some (replicate 36 (CHR 0x00))"
  proof -
    have "take UUID_STR_LEN (replicate n 0) = as_bytes (replicate 36 (CHR 0x00))"
      using assms by (simp add: UUID_STR_LEN_def as_bytes_def byte_of_char_def)
    moreover have "is_ascii (replicate 36 (CHR 0x00))" by (simp add: is_ascii_def list_all_iff)
    ultimately show ?thesis by (simp add: from_utf8_def utf8_valid_ascii)
  qed
  have "trim_end_char (CHR 0x00) (replicate 36 (CHR 0x00)) = []"
    by (simp add: trim_end_char_def dropWhile_eq_Nil_conv)
  then show ?thesis
    using u assms str_trim_graphic [of "[]"]
    by (simp add: extract_client_id_from_padding_def UUID_STR_LEN_def min_def)
qed

lemma extract_client_id_text:
  assumes "length i = 36" "list_all graphic i"
  shows "extract_client_id_from_padding parse_str (as_bytes i @ bs) = parse_str i"
proof -
  have "is_ascii i"
    using assms(2) by (auto simp: is_ascii_def list_all_iff graphic_def byte_of_char_def word_less_nat_alt unat_of_nat)
  then have u: "from_utf8 (take UUID_STR_LEN (as_bytes i @ bs)) = Some i"
    using assms(1) by (simp add: from_utf8_def UUID_STR_LEN_def utf8_valid_ascii)
  have ne: "i \<noteq> []" using assms(1) by auto
  then have g: "graphic (hd i)" "graphic (last i)" using assms(2) by (auto simp: list_all_iff)
  then have "last i \<noteq> CHR 0x00" by (auto simp: graphic_def byte_of_char_def)
  then have "trim_end_char (CHR 0x00) i = i" using trim_end_char_replicate [OF ne, of "CHR 0x00" 0] by simp
  moreover have "str_trim i = i" using g by (intro str_trim_graphic) simp
  ultimately show ?thesis
    using u assms(1) by (simp add: extract_client_id_from_padding_def UUID_STR_LEN_def)
qed

lemma padding_len_fits: "length client_id_bytes \<le> 65535 \<Longrightarrow> length client_id_bytes \<le> unat (auth_padding_len sizes client_id_bytes)"
  by (auto simp: auth_padding_len_def Let_def max_def word_le_nat_alt unat_of_nat)

text \<open>What the server reads of the preamble.\<close>

lemma read_preamble_id:
  assumes "[] \<notin> set cs" "concat cs = drop 34 (auth_preamble h sizes cid) @ rest" "length h = 32" "length cid \<le> 65535"
  shows "\<exists>cs'. read_client_id parse_str (take 34 (auth_preamble h sizes cid)) (map Inr cs) =
      Inr (if auth_padding_len sizes cid = 0 then None
           else extract_client_id_from_padding parse_str
             (cid @ replicate (unat (auth_padding_len sizes cid) - length cid) 0), map Inr cs') \<and>
    concat cs' = rest"
proof -
  let ?n = "auth_padding_len sizes cid"
  let ?padding = "cid @ replicate (unat ?n - length cid) 0"
  have pre: "auth_preamble h sizes cid = (h @ put_u16 ?n) @ ?padding" by (simp add: auth_preamble_def Let_def)
  have len: "length (h @ put_u16 ?n) = 34" using assms(3) by simp
  have front: "take 34 (auth_preamble h sizes cid) = h @ put_u16 ?n" "drop 34 (auth_preamble h sizes cid) = ?padding"
    unfolding pre using len by (simp_all only: take_append drop_append) simp_all
  have n: "unat (get_u16 (drop 32 (h @ put_u16 ?n))) = unat ?n"
    using assms(3) get_put_u16 [of ?n "[]"] by simp
  have plen: "length ?padding = unat ?n" using padding_len_fits [OF assms(4), of sizes] by simp
  show ?thesis
  proof (cases "?n = 0")
    case True
    with plen assms(2) front(2) have "concat cs = rest" by simp
    with True n show ?thesis unfolding front(1) by (auto simp: read_client_id_def)
  next
    case False
    then have pos: "0 < unat ?n" by (simp add: unat_gt_0)
    obtain cs' where cs': "read_loop (unat ?n) [] (map Inr cs) = Inr (take (unat ?n) (concat cs), map Inr cs')"
      "concat cs' = drop (unat ?n) (concat cs)"
      using read_loop_data [OF assms(1), of "unat ?n" "[]"] by auto
    have split: "take (unat ?n) (concat cs) = ?padding" "drop (unat ?n) (concat cs) = rest"
      unfolding assms(2) front(2) using plen by (simp_all only: take_append drop_append) simp_all
    have "tls_read_exact (unat ?n) (map Inr cs) = Inr (?padding, map Inr cs')"
      unfolding tls_read_exact_def cs'(1) split(1) using plen by simp
    with cs'(2) split(2) pos n False show ?thesis
      unfolding front(1) read_client_id_def by (intro exI [of _ cs']) simp
  qed
qed

lemma http_methods_letters: "list_all (\<lambda>m. m \<noteq> [] \<and> 0x61 \<le> to_ascii_lowercase (hd m)) http_methods"
  by code_simp

section \<open>Properties\<close>

text \<open>
  C34. Which local clients are served as HTTP. For text in ASCII the listener never panics, and takes a
  connection for HTTP exactly when it starts with one of the methods, in any case, and a space.
\<close>

theorem http_detected_iff:
  assumes "is_ascii s"
  shows "handle_listener_stream (as_bytes s) \<noteq> None \<and>
    (handle_listener_stream (as_bytes s) = Some HttpClient \<longleftrightarrow>
      (\<exists>m t r. m \<in> set http_methods \<and> eq_ignore_ascii_case t m \<and> s = t @ '' '' @ r))"
proof (cases s)
  case Nil
  then show ?thesis by (simp add: handle_listener_stream_def as_bytes_def)
next
  case (Cons c s')
  have letter: "byte_of_char c \<noteq> 5 \<and> byte_of_char c \<noteq> 4"
    if "m \<in> set http_methods" "eq_ignore_ascii_case t m" "s = t @ '' '' @ r" for m t r
  proof -
    have m: "m \<noteq> []" "0x61 \<le> to_ascii_lowercase (hd m)"
      using that(1) http_methods_letters by (auto simp: list_all_iff)
    have "map to_ascii_lowercase t = map to_ascii_lowercase m" using that(2) by (simp add: eq_ignore_ascii_case_def)
    with m(1) have "t \<noteq> []" "to_ascii_lowercase (hd t) = to_ascii_lowercase (hd m)" by (cases t; cases m; auto)+
    moreover from this(1) have "hd t = c" using that(3) Cons by (cases t) auto
    ultimately have "0x61 \<le> to_ascii_lowercase c" using m(2) by simp
    then show ?thesis by (auto simp: to_ascii_lowercase_def)
  qed
  have any: "(\<exists>m \<in> set http_methods. length m < length s \<and> eq_ignore_ascii_case (take (length m) s) m \<and>
      s ! length m = CHR '' '') \<longleftrightarrow> (\<exists>m t r. m \<in> set http_methods \<and> eq_ignore_ascii_case t m \<and> s = t @ '' '' @ r)"
    (is "?seen \<longleftrightarrow> ?is")
  proof
    assume ?seen
    then obtain m where m: "m \<in> set http_methods" "length m < length s" "eq_ignore_ascii_case (take (length m) s) m"
      "s ! length m = CHR '' ''" by blast
    have "s = take (length m) s @ '' '' @ drop (Suc (length m)) s"
      using id_take_nth_drop [OF m(2)] m(4) by simp
    with m(1,3) show ?is by blast
  next
    assume ?is
    then obtain m t r where m: "m \<in> set http_methods" "eq_ignore_ascii_case t m" "s = t @ '' '' @ r" by blast
    then have "length t = length m" unfolding eq_ignore_ascii_case_def by (metis length_map)
    with m show ?seen by (intro bexI [of _ m]) (simp_all add: nth_append)
  qed
  show ?thesis
  proof (cases "byte_of_char c = 5 \<or> byte_of_char c = 4")
    case True
    then have "\<not> (\<exists>m t r. m \<in> set http_methods \<and> eq_ignore_ascii_case t m \<and> s = t @ '' '' @ r)" using letter by blast
    with True Cons show ?thesis by (auto simp: handle_listener_stream_def as_bytes_def)
  next
    case False
    have "as_bytes s = byte_of_char c # as_bytes s'" "from_utf8 (as_bytes s) = Some s"
      using Cons utf8_valid_ascii [OF assms] by (simp_all add: from_utf8_def) (simp add: as_bytes_def)
    with False have "handle_listener_stream (as_bytes s) =
        map_option (\<lambda>is_http. if is_http then HttpClient else UnknownClient) (any_method http_methods s)"
      unfolding handle_listener_stream_def by (auto split: list.split)
    then show ?thesis using any_method_ascii [OF assms, of http_methods] any by simp
  qed
qed

theorem http_detected_iff_witness:
  "handle_listener_stream (as_bytes ''Get / HTTP'') = Some HttpClient"
proof -
  have "eq_ignore_ascii_case ''Get'' ''GET''" "''GET'' \<in> set http_methods" by code_simp+
  then have "\<exists>m t r. m \<in> set http_methods \<and> eq_ignore_ascii_case t m \<and> ''Get / HTTP'' = t @ '' '' @ r"
    by (intro exI [of _ "''GET''"] exI [of _ "''Get''"] exI [of _ "''/ HTTP''"]) simp
  moreover have "is_ascii ''Get / HTTP''" by simp
  ultimately show ?thesis using http_detected_iff by blast
qed

text \<open>Other text can make it panic: here the third byte of a method would end within a character.\<close>

lemma listener_panics: "handle_listener_stream [0x61, 0x61, 0xC3, 0xA9] = None"
  by code_simp

text \<open>
  C30. Client and server agree on the preamble. Let a client connect with a password the server
  accepts, with or without an identifier, under any padding scheme, and let what it sends arrive in
  any pieces. Then the server serves the connection, for the user of the password and the client with
  that identifier, if these are approved, and denies it otherwise, unchanged; and the session starts
  with exactly the bytes after the preamble.
\<close>

theorem client_preamble_accepted:
  assumes "dail_out rng uuid_show dns_name connected tls written d = Inr (name, preamble)"
    and "length (dl_password_sha256 d) = 32"
    and "\<forall>i. dl_client_id d = Some i \<longrightarrow>
      length (uuid_show i) = 36 \<and> list_all graphic (uuid_show i) \<and> parse_str (uuid_show i) = Some i"
    and "auth_authenticate now (sv_authenticator sv) (dl_password_sha256 d) (sv_registry sv) = (r, outcome)"
    and "outcome \<noteq> Rejected" "[] \<notin> set cs" "concat cs = preamble @ session"
  shows "\<exists>cs'. concat cs' = session \<and>
    (let ctx = \<lparr>cx_user = (case outcome of User u \<Rightarrow> Some u | _ \<Rightarrow> None), cx_client_id = dl_client_id d,
                cx_panel_sync_enabled = panel_sync\<rparr>
     in handle_connection now now' parse_str server_name allowlist panel_sync (map Inr cs) sv =
          (if ctx_approved now' ctx (r, sv_audit sv) then (sv\<lparr>sv_registry := r\<rparr>, Serving ctx (map Inr cs'))
           else (sv, DeniedConn)))"
proof -
  define cid where "cid = (case dl_client_id d of Some i \<Rightarrow> as_bytes (uuid_show i) | None \<Rightarrow> [])"
  define sizes where "sizes = generate_record_payload_sizes rng (dl_padding d) 0"
  let ?h = "dl_password_sha256 d"
  let ?n = "auth_padding_len sizes cid"
  have pre: "preamble = auth_preamble ?h sizes cid"
    using assms(1) by (auto simp: dail_out_def cid_def sizes_def Let_def res_bind_Inr_iff)
  have cid: "length cid \<le> 65535" using assms(3) by (auto simp: cid_def split: option.split)
  have len: "34 \<le> length preamble" using assms(2) by (simp add: pre auth_preamble_def Let_def)
  obtain cs1 where cs1: "read_loop 34 [] (map Inr cs) = Inr (take 34 preamble, map Inr cs1)"
    "concat cs1 = drop 34 preamble @ session" "[] \<notin> set cs1"
    using read_loop_data [OF assms(6), of 34 "[]"] assms(7) len by auto
  obtain cs2 where cs2: "read_client_id parse_str (take 34 preamble) (map Inr cs1) =
      Inr (if ?n = 0 then None
           else extract_client_id_from_padding parse_str (cid @ replicate (unat ?n - length cid) 0), map Inr cs2)"
    "concat cs2 = session"
    using read_preamble_id [OF cs1(3) _ assms(2) cid, of sizes session parse_str] cs1(2) unfolding pre by blast
  have id: "(if ?n = 0 then None
      else extract_client_id_from_padding parse_str (cid @ replicate (unat ?n - length cid) 0)) = dl_client_id d"
  proof (cases "dl_client_id d")
    case None
    then have "cid = []" by (simp add: cid_def)
    with None show ?thesis
      using extract_client_id_zeros [of "unat ?n" parse_str]
      by (cases "36 \<le> unat ?n") (simp_all add: extract_client_id_from_padding_def UUID_STR_LEN_def)
  next
    case (Some i)
    with assms(3) have i: "length (uuid_show i) = 36" "list_all graphic (uuid_show i)" "parse_str (uuid_show i) = Some i"
      by auto
    have c: "cid = as_bytes (uuid_show i)" using Some by (simp add: cid_def)
    then have "?n \<noteq> 0" using padding_len_fits [OF cid, of sizes] i(1) by auto
    then show ?thesis using Some i(3) unfolding c by (simp add: extract_client_id_text [OF i(1,2)])
  qed
  have "take 32 (take 34 preamble) = ?h" "length (take 34 preamble) = 34"
    using assms(2) len by (simp_all add: pre auth_preamble_def Let_def)
  then have "connection_outcome now (take 34 preamble) sv = (r, outcome)"
    using assms(4) by (simp add: connection_outcome_def)
  with cs1(1) cs2 id assms(5) auth_authenticate_drop(1) [OF assms(4)] show ?thesis
    by (intro exI [of _ cs2]) (simp add: handle_connection_def admitted_def)
qed

definition sample_dialler :: dialler where
  "sample_dialler =
     \<lparr>dl_server = SocketAddress (SocketAddrV4 0x7F000001 443), dl_sni = None, dl_password_sha256 = replicate 32 7,
      dl_client_id = Some 5, dl_padding = \<lparr>pf_scheme = [], pf_raw_scheme = [], pf_stop = 0, pf_md5 = []\<rparr>\<rparr>"

theorem client_preamble_accepted_witness:
  "\<exists>cs' ctx. concat cs' = [1, 2] \<and> cx_client_id ctx = Some 5 \<and>
     snd (handle_connection 0 0 (\<lambda>_. Some 5) None [] False
       (map Inr [auth_preamble (replicate 32 7) [] (as_bytes (replicate 36 (CHR ''a''))) @ [1], [2]])
       (sample_node\<lparr>sv_authenticator := SharedPassword (replicate 32 7)\<rparr>)) = Serving ctx (map Inr cs')"
proof -
  let ?sv = "sample_node\<lparr>sv_authenticator := SharedPassword (replicate 32 7)\<rparr>"
  let ?show = "\<lambda>_ :: uuid. replicate 36 (CHR ''a'')"
  let ?pre = "auth_preamble (replicate 32 7) [] (as_bytes (replicate 36 (CHR ''a'')))"
  have d: "dail_out (\<lambda>_ _ _. 0) ?show (\<lambda>_. Inl ()) (Inr ()) (Inr ()) (Inr ()) sample_dialler =
      Inr (IpName (IpV4 0x7F000001), ?pre)"
    by (simp add: dail_out_def sample_dialler_def server_name_of_def generate_record_payload_sizes_def sm_get_def)
  have h: "length (dl_password_sha256 sample_dialler) = 32" by (simp add: sample_dialler_def)
  have i: "\<forall>i. dl_client_id sample_dialler = Some i \<longrightarrow>
      length (?show i) = 36 \<and> list_all graphic (?show i) \<and> (\<lambda>_. Some 5) (?show i) = Some i"
    by (simp add: sample_dialler_def graphic_def byte_of_char_def list_all_iff)
  have a: "auth_authenticate 0 (sv_authenticator ?sv) (dl_password_sha256 sample_dialler) (sv_registry ?sv) =
      (sv_registry ?sv, Anonymous)"
    by (simp add: auth_authenticate_def sample_dialler_def)
  have ne: "[] \<notin> set [?pre @ [1], [2]]" by simp
  have "ctx_approved 0 \<lparr>cx_user = None, cx_client_id = Some 5, cx_panel_sync_enabled = False\<rparr> d" for d
    by (simp add: ctx_approved_def check_incoming_client_approved_def)
  with client_preamble_accepted [OF d h i a _ ne, of "[1, 2]" False 0 None "[]"]
  show ?thesis by (auto simp: sample_dialler_def Let_def)
qed

text \<open>A scheme whose first entry for the preamble is the check mark asks for the longest padding.\<close>

lemma leading_check_mark: "auth_padding_len (CHECK_MARK # sizes) [] = 65535"
  by (simp add: auth_padding_len_def CHECK_MARK_def)

end
