(* ===== verification/Client_Relay.thy ===== *)
theory Client_Relay
  imports Tcp_Relay Client_Runner
begin

text \<open>
  \<open>src/src/client_runner.rs\<close> from an accepted local connection on: the dispatch of SOCKS requests,
  how a stream is opened for a destination, the two tasks of a relayed connection, and the relay of
  datagrams for a UDP association. As on the server, a relay is a state changed by events, each the
  completion of one await, with the results of the local sockets as arguments; the SOCKS protocol
  itself belongs to the crate \<open>socks5_impl\<close>.
\<close>

section \<open>Requests\<close>

datatype s5_request = S5Connect address | S5UdpAssociate address | S5Bind address

datatype s5_next = S5Tunnel address | S5Associate | S5Failed io_error

definition client_handle_connection ::
    "unit io_result \<Rightarrow> s5_request io_result \<Rightarrow> unit io_result \<Rightarrow> s5_next" where
  "client_handle_connection authenticated request replied =
     (case res_bind authenticated (\<lambda>_. request) of
        Inl e \<Rightarrow> S5Failed e
      | Inr (S5Connect addr) \<Rightarrow> (case replied of Inl e \<Rightarrow> S5Failed e | Inr _ \<Rightarrow> S5Tunnel addr)
      | Inr (S5UdpAssociate _) \<Rightarrow> S5Associate
      | Inr (S5Bind _) \<Rightarrow> S5Failed (error_other ''Bind command is not supported''))"

section \<open>Opening a stream for a destination\<close>

text \<open>An operation on a stream that \<open>create_stream\<close> returned.\<close>

definition on_stream ::
    "nat \<times> nat \<Rightarrow> (nat \<Rightarrow> session \<Rightarrow> session \<times> 'a io_result) \<Rightarrow> client \<Rightarrow> client \<times> 'a io_result" where
  "on_stream sx f c =
     (case sx of (a, x) \<Rightarrow> (case f x (session_at c a) of (s, r) \<Rightarrow> (upd_session a s c, r)))"

definition s5_connect_start ::
    "addr_write \<Rightarrow> (stringmap \<Rightarrow> stringmap) \<Rightarrow> nat \<Rightarrow> address \<Rightarrow> client \<Rightarrow> client \<times> (nat \<times> nat) io_result" where
  "s5_connect_start wr ord now target_addr c =
     (case create_stream ord now c of
        (c, Inl e) \<Rightarrow> (c, Inl e)
      | (c, Inr sx) \<Rightarrow>
          (case on_stream sx (\<lambda>x. stream_write x (wr target_addr)) c of
             (c, Inl e) \<Rightarrow> (c, Inl e)
           | (c, Inr written) \<Rightarrow> (c, Inr sx)))"

text \<open>\<open>AsyncWriteExt::write_all\<close> on a stream.\<close>

definition write_zero :: io_error where
  "write_zero = IoError OtherKind ''write zero''"

function stream_write_all :: "nat \<Rightarrow> byte list \<Rightarrow> session \<Rightarrow> session \<times> unit io_result" where
  "stream_write_all x bs s =
     (if bs = [] then (s, Inr ())
      else
        (case stream_write x bs s of
           (s, Inl e) \<Rightarrow> (s, Inl e)
         | (s, Inr n) \<Rightarrow> if n = 0 then (s, Inl write_zero) else stream_write_all x (drop n bs) s))"
  by pat_completeness auto
termination
  by (relation "measure (\<lambda>(_, bs, _). length bs)") auto

declare stream_write_all.simps [simp del]

definition http_connector ::
    "addr_write \<Rightarrow> (stringmap \<Rightarrow> stringmap) \<Rightarrow> nat \<Rightarrow> address \<Rightarrow> client \<Rightarrow> client \<times> (nat \<times> nat) io_result" where
  "http_connector wr ord now dst c =
     (case create_stream ord now c of
        (c, Inl e) \<Rightarrow> (c, Inl e)
      | (c, Inr sx) \<Rightarrow>
          (case on_stream sx (\<lambda>x. stream_write_all x (wr dst)) c of
             (c, Inl e) \<Rightarrow> (c, Inl e)
           | (c, Inr _) \<Rightarrow> (c, Inr sx)))"

section \<open>Relaying a connection\<close>

text \<open>
  Two tasks. The one towards the proxy ends at the end of the local side or at an error, and closes
  the stream either way; the one towards the local side ends with the stream or at an error, and then
  shuts the local side down.
\<close>

record s5_relay =
  sl_pipe :: pipe_inner
  sl_c2p :: side
  sl_p2c :: side
  sl_up :: "byte list list"
  sl_down :: "byte list"
  sl_closed :: bool
  sl_shutdown :: bool

datatype s5_event =
    S5Arrive "byte list"
  | S5PeerEnd "io_error option"
  | S5PipeClosed
  | C2pRead "byte list io_result" "nat io_result"
  | P2cPoll "unit io_result"

definition s5_relay_new :: "pipe_inner \<Rightarrow> s5_relay" where
  "s5_relay_new p =
     \<lparr>sl_pipe = p, sl_c2p = Active, sl_p2c = Active, sl_up = [], sl_down = [], sl_closed = False, sl_shutdown = False\<rparr>"

definition c2p_end :: "unit io_result \<Rightarrow> s5_relay \<Rightarrow> s5_relay" where
  "c2p_end res st = st\<lparr>sl_c2p := side.Ended res, sl_closed := True\<rparr>"

definition c2p_read :: "byte list io_result \<Rightarrow> nat io_result \<Rightarrow> s5_relay \<Rightarrow> s5_relay" where
  "c2p_read res written st =
     (case res of
        Inl e \<Rightarrow> c2p_end (Inl e) st
      | Inr bs \<Rightarrow>
          if bs = [] then c2p_end (Inr ()) st
          else
            (case written of
               Inl e \<Rightarrow> c2p_end (Inl e) st
             | Inr _ \<Rightarrow> st\<lparr>sl_up := sl_up st @ [bs]\<rparr>))"

definition p2c_end :: "unit io_result \<Rightarrow> s5_relay \<Rightarrow> s5_relay" where
  "p2c_end res st = st\<lparr>sl_p2c := side.Ended res, sl_shutdown := True\<rparr>"

definition p2c_poll :: "unit io_result \<Rightarrow> s5_relay \<Rightarrow> s5_relay" where
  "p2c_poll written st =
     (case inner_poll 4096 (sl_pipe st) of
        (p, res) \<Rightarrow>
          (let st = st\<lparr>sl_pipe := p\<rparr>
           in case res of
                Pending \<Rightarrow> st
              | Ready (Inl e) \<Rightarrow> p2c_end (Inl e) st
              | Ready (Inr bs) \<Rightarrow>
                  if bs = [] then p2c_end (Inr ()) st
                  else
                    (case written of
                       Inl e \<Rightarrow> p2c_end (Inl e) st
                     | Inr _ \<Rightarrow> st\<lparr>sl_down := sl_down st @ bs\<rparr>)))"

fun s5_step :: "s5_event \<Rightarrow> s5_relay \<Rightarrow> s5_relay" where
  "s5_step (S5Arrive bs) st = st\<lparr>sl_pipe := fst (pipe_write bs (sl_pipe st))\<rparr>"
| "s5_step (S5PeerEnd e) st = st\<lparr>sl_pipe := finish_stream e (sl_pipe st)\<rparr>"
| "s5_step S5PipeClosed st =
     (if sl_closed st then st\<lparr>sl_pipe := close_with_error None (sl_pipe st)\<rparr> else st)"
| "s5_step (C2pRead res written) st = (if sl_c2p st = Active then c2p_read res written st else st)"
| "s5_step (P2cPoll written) st = (if sl_p2c st = Active then p2c_poll written st else st)"

fun s5_connect :: "s5_event list \<Rightarrow> s5_relay \<Rightarrow> s5_relay" where
  "s5_connect [] st = st"
| "s5_connect (e # es) st = s5_connect es (s5_step e st)"

section \<open>Associating datagrams\<close>

datatype s5_reply = GeneralFailure | Succeeded socket_addr

fun addr_port :: "socket_addr \<Rightarrow> u16" where
  "addr_port (SocketAddrV4 _ port) = port"
| "addr_port (SocketAddrV6 _ port _ _) = port"

fun socket_addr_new :: "ip_addr \<Rightarrow> u16 \<Rightarrow> socket_addr" where
  "socket_addr_new (IpV4 ip) port = SocketAddrV4 ip port"
| "socket_addr_new (IpV6 ip) port = SocketAddrV6 ip port 0 0"

fun zero_addr :: "socket_addr \<Rightarrow> socket_addr" where
  "zero_addr (SocketAddrV4 _ _) = SocketAddrV4 0 0"
| "zero_addr (SocketAddrV6 _ _ _ _) = SocketAddrV6 0 0 0 0"

text \<open>The first two writes to the stream; \<open>unspecified\<close> is the address of that name of the crate.\<close>

definition uot_hello :: "addr_write \<Rightarrow> address \<Rightarrow> nat \<Rightarrow> session \<Rightarrow> session \<times> unit io_result" where
  "uot_hello wr unspecified x s =
     (case stream_write x (wr uot_sentinel_destination) s of
        (s, Inl e) \<Rightarrow> (s, Inl e)
      | (s, Inr _) \<Rightarrow>
          (case stream_write x (uot_request_bytes wr \<lparr>uq_mode = Datagram, uq_destination = unspecified\<rparr>) s of
             (s, Inl e) \<Rightarrow> (s, Inl e)
           | (s, Inr _) \<Rightarrow> (s, Inr ())))"

text \<open>
  The steps up to the loop: binding a socket beside the local connection, creating a stream, writing
  to it, and the reply. \<open>replied\<close> and \<open>shut\<close> are the outcomes of sending the reply and of shutting the
  connection down after a failure.
\<close>

definition refuse_associate :: "unit io_result \<Rightarrow> unit io_result \<Rightarrow> io_error \<Rightarrow> 'a io_result" where
  "refuse_associate replied shut err = res_bind replied (\<lambda>_. res_bind shut (\<lambda>_. Inl err))"

definition udp_associate_start ::
    "addr_write \<Rightarrow> address \<Rightarrow> (stringmap \<Rightarrow> stringmap) \<Rightarrow> nat \<Rightarrow> socket_addr io_result \<Rightarrow> socket_addr io_result \<Rightarrow>
     ip_addr option \<Rightarrow> unit io_result \<Rightarrow> unit io_result \<Rightarrow> client \<Rightarrow>
     client \<times> s5_reply option \<times> ((nat \<times> nat) \<times> socket_addr) io_result" where
  "udp_associate_start wr unspecified ord now tcp_local_addr bound advertise_ip replied shut c =
     (case tcp_local_addr of
        Inl e \<Rightarrow> (c, None, Inl e)
      | Inr local \<Rightarrow>
          (case bound of
             Inl err \<Rightarrow> (c, Some GeneralFailure, refuse_associate replied shut err)
           | Inr listen_addr \<Rightarrow>
               (case create_stream ord now c of
                  (c, Inl err) \<Rightarrow> (c, Some GeneralFailure, refuse_associate replied shut err)
                | (c, Inr sx) \<Rightarrow>
                    (case on_stream sx (uot_hello wr unspecified) c of
                       (c, Inl err) \<Rightarrow>
                         (fst (on_stream sx stream_close c), Some GeneralFailure, refuse_associate replied shut err)
                     | (c, Inr _) \<Rightarrow>
                         (let advertised_addr =
                                socket_addr_new (case advertise_ip of Some ip \<Rightarrow> ip | None \<Rightarrow> ip_of local) (addr_port listen_addr)
                          in (c, Some (Succeeded advertised_addr),
                              res_bind replied (\<lambda>_. Inr (sx, zero_addr listen_addr))))))))"

text \<open>
  The loop. \<open>?\<close> leaves the function at once; only the ends by \<open>break\<close> close the stream.
\<close>

datatype assoc_end =
    AssocClosed
  | AssocTerminated io_error
  | AssocFailed io_error
  | AssocPanic

record udp_associate =
  ua_reader :: stream_reader
  ua_seen :: "byte list"
  ua_incoming :: socket_addr
  ua_frames :: "byte list list"
  ua_delivered :: "(byte list \<times> address \<times> socket_addr) list"
  ua_end :: "assoc_end option"

datatype udp_event =
    UdpArrive "byte list"
  | UdpPeerEnd "io_error option"
  | UdpLocal "(byte list \<times> byte \<times> address \<times> socket_addr) io_result" "nat io_result"
  | UdpPacket "unit io_result"
  | UdpControlClosed "unit io_result"

definition udp_associate_new :: "pipe_inner \<Rightarrow> socket_addr \<Rightarrow> udp_associate" where
  "udp_associate_new p zero =
     \<lparr>ua_reader = stream_reader_new p, ua_seen = [], ua_incoming = zero, ua_frames = [], ua_delivered = [], ua_end = None\<rparr>"

definition udp_local ::
    "addr_write \<Rightarrow> (byte list \<times> byte \<times> address \<times> socket_addr) io_result \<Rightarrow> nat io_result \<Rightarrow>
     udp_associate \<Rightarrow> udp_associate" where
  "udp_local wr received written st =
     (let st = st\<lparr>ua_seen := []\<rparr>
      in case received of
           Inl e \<Rightarrow> st\<lparr>ua_end := Some (AssocFailed e)\<rparr>
         | Inr (pkt, frag, destination, src_addr) \<Rightarrow>
             if frag \<noteq> 0
             then st\<lparr>ua_end := Some (AssocTerminated (IoError InvalidData ''UDP fragmentation is not supported''))\<rparr>
             else
               (let st = st\<lparr>ua_incoming := src_addr\<rparr>
                in case uot_encode_packet wr Datagram (Some destination) pkt of
                     Inl e \<Rightarrow> st\<lparr>ua_end := Some (AssocFailed e)\<rparr>
                   | Inr frame \<Rightarrow>
                       (case written of
                          Inl e \<Rightarrow> st\<lparr>ua_end := Some (AssocFailed e)\<rparr>
                        | Inr _ \<Rightarrow> st\<lparr>ua_frames := ua_frames st @ [frame]\<rparr>)))"

definition udp_deliver :: "address option \<times> byte list \<Rightarrow> unit io_result \<Rightarrow> udp_associate \<Rightarrow> udp_associate" where
  "udp_deliver packet sent st =
     (let st = st\<lparr>ua_seen := []\<rparr>; incoming = ua_incoming st
      in case packet of (source, payload) \<Rightarrow>
           if addr_port incoming = 0 then st
           else
             (case source of
                None \<Rightarrow> st\<lparr>ua_end := Some AssocPanic\<rparr>
              | Some a \<Rightarrow>
                  (case sent of
                     Inl e \<Rightarrow> st\<lparr>ua_end := Some (AssocFailed e)\<rparr>
                   | Inr _ \<Rightarrow> st\<lparr>ua_delivered := ua_delivered st @ [(payload, a, incoming)]\<rparr>)))"

definition udp_packet ::
    "address reader \<Rightarrow> (byte list \<Rightarrow> nat) \<Rightarrow> unit io_result \<Rightarrow> udp_associate \<Rightarrow> udp_associate" where
  "udp_packet rd ask sent st =
     (case packet_poll rd ask Datagram (ua_reader st) (ua_seen st) of
        (r, seen, res) \<Rightarrow>
          (let st = st\<lparr>ua_reader := r, ua_seen := seen\<rparr>
           in case res of
                PacketPending \<Rightarrow> st
              | PacketReady packet \<Rightarrow> udp_deliver packet sent st
              | PacketFailed e \<Rightarrow> st\<lparr>ua_end := Some (AssocFailed e)\<rparr>
              | PacketPanic \<Rightarrow> st\<lparr>ua_end := Some AssocPanic\<rparr>))"

definition udp_control_closed :: "unit io_result \<Rightarrow> udp_associate \<Rightarrow> udp_associate" where
  "udp_control_closed res st =
     (case res of
        Inl e \<Rightarrow> st\<lparr>ua_seen := [], ua_end := Some (AssocFailed e)\<rparr>
      | Inr _ \<Rightarrow> st\<lparr>ua_seen := [], ua_end := Some AssocClosed\<rparr>)"

fun udp_step ::
    "addr_write \<Rightarrow> address reader \<Rightarrow> (byte list \<Rightarrow> nat) \<Rightarrow> udp_event \<Rightarrow> udp_associate \<Rightarrow> udp_associate" where
  "udp_step wr rd ask (UdpArrive bs) st =
     st\<lparr>ua_reader := on_pipe (\<lambda>p. fst (pipe_write bs p)) (ua_reader st)\<rparr>"
| "udp_step wr rd ask (UdpPeerEnd e) st = st\<lparr>ua_reader := on_pipe (finish_stream e) (ua_reader st)\<rparr>"
| "udp_step wr rd ask (UdpLocal received written) st = udp_local wr received written st"
| "udp_step wr rd ask (UdpPacket sent) st = udp_packet rd ask sent st"
| "udp_step wr rd ask (UdpControlClosed res) st = udp_control_closed res st"

fun udp_associate_loop ::
    "addr_write \<Rightarrow> address reader \<Rightarrow> (byte list \<Rightarrow> nat) \<Rightarrow> udp_event list \<Rightarrow> udp_associate \<Rightarrow> udp_associate" where
  "udp_associate_loop wr rd ask [] st = st"
| "udp_associate_loop wr rd ask (e # es) st =
     (if ua_end st \<noteq> None then st else udp_associate_loop wr rd ask es (udp_step wr rd ask e st))"

definition udp_associate_finish :: "assoc_end \<Rightarrow> nat \<Rightarrow> session \<Rightarrow> session \<times> unit io_result" where
  "udp_associate_finish how x s =
     (case how of
        AssocClosed \<Rightarrow> (fst (stream_close x s), Inr ())
      | AssocTerminated e \<Rightarrow> (fst (stream_close x s), Inl e)
      | AssocFailed e \<Rightarrow> (s, Inl e)
      | AssocPanic \<Rightarrow> (s, Inl (error_other ''panic'')))"

section \<open>What a connection carries\<close>

fun c2p_taken :: "s5_relay \<Rightarrow> s5_event \<Rightarrow> byte list" where
  "c2p_taken st (C2pRead (Inr bs) _) = (if sl_c2p st = Active then bs else [])"
| "c2p_taken st _ = []"

fun p2c_taken :: "s5_relay \<Rightarrow> s5_event \<Rightarrow> byte list" where
  "p2c_taken st (S5Arrive bs) = (if is_ok (snd (pipe_write bs (sl_pipe st))) then bs else [])"
| "p2c_taken st _ = []"

fun s5_over :: "(s5_relay \<Rightarrow> s5_event \<Rightarrow> byte list) \<Rightarrow> s5_event list \<Rightarrow> s5_relay \<Rightarrow> byte list" where
  "s5_over f [] st = []"
| "s5_over f (e # es) st = f st e @ s5_over f es (s5_step e st)"

definition s5_carried :: "byte list \<Rightarrow> byte list \<Rightarrow> s5_relay \<Rightarrow> bool" where
  "s5_carried up down st \<longleftrightarrow>
     pipe_inv (sl_pipe st) \<and>
     (\<exists>lost lost'. concat (sl_up st) @ lost = up \<and> (sl_c2p st = Active \<longrightarrow> lost = []) \<and>
        sl_down st @ lost' @ pipe_data (sl_pipe st) = down \<and> (sl_p2c st = Active \<longrightarrow> lost' = [])) \<and>
     (sl_closed st \<longleftrightarrow> sl_c2p st \<noteq> Active) \<and> (sl_shutdown st \<longleftrightarrow> sl_p2c st \<noteq> Active)"

lemma s5_carried_new: "pipe_inv p \<Longrightarrow> pipe_data p = [] \<Longrightarrow> s5_carried [] [] (s5_relay_new p)"
  by (simp add: s5_carried_def s5_relay_new_def)

lemma s5_carried_pipe:
  assumes "s5_carried up down st" "pipe_inv p" "pipe_data p = pipe_data (sl_pipe st) @ bs"
  shows "s5_carried up (down @ bs) (st\<lparr>sl_pipe := p\<rparr>)"
  using assms by (auto simp: s5_carried_def)

lemma s5_carried_c2p:
  assumes "s5_carried up down st" "sl_c2p st = Active"
  shows "s5_carried (up @ c2p_taken st (C2pRead res written)) down (c2p_read res written st)"
  using assms by (auto simp: s5_carried_def c2p_read_def c2p_end_def split: sum.splits)

lemma s5_carried_p2c:
  assumes "s5_carried up down st" "sl_p2c st = Active"
  shows "s5_carried up down (p2c_poll written st)"
proof -
  obtain p res where i: "inner_poll 4096 (sl_pipe st) = (p, res)" by (cases "inner_poll 4096 (sl_pipe st)")
  have inv: "pipe_inv (sl_pipe st)" using assms(1) by (simp add: s5_carried_def)
  note d = inner_poll_data [OF inv i]
  show ?thesis
  proof (cases res)
    case Pending
    with i d assms show ?thesis by (auto simp: s5_carried_def p2c_poll_def)
  next
    case (Ready r)
    show ?thesis
    proof (cases r)
      case (Inl e)
      with Ready i d assms show ?thesis by (auto simp: s5_carried_def p2c_poll_def p2c_end_def)
    next
      case (Inr bs)
      with Ready i d assms show ?thesis
        by (cases written; cases "bs = []") (auto simp: s5_carried_def p2c_poll_def p2c_end_def)
    qed
  qed
qed

lemma s5_carried_step:
  assumes "s5_carried up down st"
  shows "s5_carried (up @ c2p_taken st e) (down @ p2c_taken st e) (s5_step e st)"
proof -
  have inv: "pipe_inv (sl_pipe st)" using assms by (simp add: s5_carried_def)
  show ?thesis
  proof (cases e)
    case (S5Arrive bs)
    with s5_carried_pipe [OF assms pipe_inv_write [OF inv, of bs] pipe_data_written] show ?thesis by simp
  next
    case (S5PeerEnd x)
    with s5_carried_pipe [OF assms pipe_inv_finish [OF inv, of x], of "[]"] show ?thesis by (simp add: pipe_data_ends)
  next
    case S5PipeClosed
    with assms s5_carried_pipe [OF assms pipe_inv_close [OF inv, of None], of "[]"] show ?thesis
      by (simp add: pipe_data_ends)
  next
    case (C2pRead res w)
    with assms s5_carried_c2p [OF assms, of res w] show ?thesis by (cases res) auto
  next
    case (P2cPoll w)
    with assms s5_carried_p2c [OF assms, of w] show ?thesis by simp
  qed
qed

lemma s5_carried_run:
  "s5_carried up down st \<Longrightarrow>
   s5_carried (up @ s5_over c2p_taken es st) (down @ s5_over p2c_taken es st) (s5_connect es st)"
proof (induction es arbitrary: up down st)
  case (Cons e es)
  from Cons.IH [OF s5_carried_step [OF Cons.prems, of e]] show ?case by simp
qed simp

text \<open>
  C31. A connection relayed by the client carries the bytes of both sides unchanged and in order, for
  every interleaving of its two tasks: what was written to the stream, followed by at most one piece
  whose write failed, is what the local side sent; what was written to the local side, followed by at
  most one such piece and by what the stream still holds, is what the stream took from the proxy. A
  task that has ended has closed its half: the stream is closed exactly when the task towards the
  proxy has ended, and the local side is shut down exactly when the other has.
\<close>

theorem s5_relay_exact:
  assumes "pipe_inv p" "pipe_data p = []" "st = s5_connect es (s5_relay_new p)"
  shows "\<exists>lost lost'.
    concat (sl_up st) @ lost = s5_over c2p_taken es (s5_relay_new p) \<and> (sl_c2p st = Active \<longrightarrow> lost = []) \<and>
    sl_down st @ lost' @ pipe_data (sl_pipe st) = s5_over p2c_taken es (s5_relay_new p) \<and>
    (sl_p2c st = Active \<longrightarrow> lost' = []) \<and>
    (sl_closed st \<longleftrightarrow> sl_c2p st \<noteq> Active) \<and> (sl_shutdown st \<longleftrightarrow> sl_p2c st \<noteq> Active)"
  using s5_carried_run [OF s5_carried_new [OF assms(1,2)], of es] assms(3) by (auto simp: s5_carried_def)

theorem s5_relay_exact_witness:
  "\<exists>lost. let st = s5_connect [C2pRead (Inr [1, 2]) (Inr 2), S5Arrive [7], C2pRead (Inr []) (Inr 0)] (s5_relay_new pipe)
    in concat (sl_up st) @ lost = [1, 2] \<and> sl_closed st \<and> \<not> sl_shutdown st"
proof -
  let ?es = "[C2pRead (Inr [1, 2]) (Inr 2), S5Arrive [7], C2pRead (Inr []) (Inr 0)]"
  have p: "pipe_data pipe = []" by (simp add: pipe_def pipe_data_def)
  have "s5_over c2p_taken ?es (s5_relay_new pipe) = [1, 2]"
    "sl_c2p (s5_connect ?es (s5_relay_new pipe)) \<noteq> Active" "sl_p2c (s5_connect ?es (s5_relay_new pipe)) = Active"
    by (simp_all add: s5_relay_new_def c2p_read_def c2p_end_def)
  with s5_relay_exact [OF pipe_inv_new p refl, of ?es] show ?thesis unfolding Let_def by metis
qed

section \<open>The end of a connection\<close>

lemma closed_pipe_answers:
  assumes "pipe_inv p" "pi_closed p" "0 < k" "inner_poll k p = (p', res)"
  shows "res \<noteq> Pending \<and> pi_closed p'"
  using assms
  by (auto simp: inner_poll_def pipe_get_def pipe_defs pipe_inv_def Let_def
      split: if_splits list.splits option.splits prod.splits pipe_event.splits fast_step.splits sum.splits
        receiver_place.splits)

text \<open>Polling with successful writes, as often as it takes.\<close>

lemma p2c_ends:
  assumes "s5_carried up down st" "pi_closed (sl_pipe st)" "sl_c2p st \<noteq> Active"
    and "length (pipe_data (sl_pipe st)) < n"
  shows "sl_p2c (s5_connect (replicate n (P2cPoll (Inr ()))) st) \<noteq> Active"
  using assms
proof (induction n arbitrary: st down)
  case (Suc n)
  have stuck: "sl_p2c (s5_connect (replicate m (P2cPoll (Inr ()))) t) \<noteq> Active" if "sl_p2c t \<noteq> Active" for m t
    using that by (induction m arbitrary: t) auto
  show ?case
  proof (cases "sl_p2c st = Active")
    case False
    then show ?thesis by (rule stuck)
  next
    case True
    obtain p res where i: "inner_poll 4096 (sl_pipe st) = (p, res)" by (cases "inner_poll 4096 (sl_pipe st)")
    have inv: "pipe_inv (sl_pipe st)" using Suc.prems(1) by (simp add: s5_carried_def)
    from closed_pipe_answers [OF inv Suc.prems(2) _ i] obtain r where r: "res = Ready r" "pi_closed p"
      by (cases res) auto
    show ?thesis
    proof (cases "\<exists>bs. r = Inr bs \<and> bs \<noteq> []")
      case False
      then have "sl_p2c (p2c_poll (Inr ()) st) \<noteq> Active"
        using i r by (cases r) (auto simp: p2c_poll_def p2c_end_def)
      then show ?thesis using stuck [of "p2c_poll (Inr ()) st" n] True by simp
    next
      case True': True
      then obtain bs where bs: "r = Inr bs" "bs \<noteq> []" by blast
      let ?st = "st\<lparr>sl_pipe := p, sl_down := sl_down st @ bs\<rparr>"
      have step: "p2c_poll (Inr ()) st = ?st" using i r bs by (simp add: p2c_poll_def)
      have c: "s5_carried up down ?st" using s5_carried_p2c [OF Suc.prems(1) True, of "Inr ()"] step by simp
      have "length (pipe_data p) < n"
        using inner_poll_data [OF inv i] r bs Suc.prems(4) by (cases bs) auto
      with Suc.IH [OF c] r Suc.prems(3) step True show ?thesis by simp
    qed
  qed
qed simp

lemma polls_keep_c2p: "sl_c2p (s5_connect (replicate n (P2cPoll w)) st) = sl_c2p st"
proof (induction n arbitrary: st)
  case (Suc n)
  then show ?case by (simp add: p2c_poll_def p2c_end_def Let_def split: prod.split poll.split sum.split)
qed simp

text \<open>
  C32. A relayed connection ends with its local side. Whatever happened before, once the local side has
  ended or failed, the task that closes the stream's pipe lets the other direction end too: it never
  waits again, and after at most one read more than there are bytes left in the stream, as long as the
  local side takes them, both tasks have ended, with the stream closed and the local side shut down.
\<close>

theorem s5_relay_ends:
  assumes "pipe_inv p" "pipe_data p = []" "st = s5_connect es (s5_relay_new p)" "sl_c2p st \<noteq> Active"
  shows "let st' = s5_connect (S5PipeClosed # replicate (Suc (length (pipe_data (sl_pipe st)))) (P2cPoll (Inr ()))) st
    in sl_c2p st' \<noteq> Active \<and> sl_p2c st' \<noteq> Active \<and> sl_closed st' \<and> sl_shutdown st'"
proof -
  define up down where "up = s5_over c2p_taken es (s5_relay_new p)" and "down = s5_over p2c_taken es (s5_relay_new p)"
  have c: "s5_carried up down st"
    using s5_carried_run [OF s5_carried_new [OF assms(1,2)], of es] assms(3) by (simp add: up_def down_def)
  define t n where "t = s5_step S5PipeClosed st" and "n = Suc (length (pipe_data (sl_pipe st)))"
  have t: "s5_carried up down t" using s5_carried_step [OF c, of S5PipeClosed] by (simp add: t_def)
  have f: "pi_closed (sl_pipe t)" "sl_c2p t \<noteq> Active" "length (pipe_data (sl_pipe t)) < n"
    using c assms(4) by (simp_all add: t_def n_def s5_carried_def pipe_data_ends close_with_error_def pipe_data_def)
  define st' where "st' = s5_connect (replicate n (P2cPoll (Inr ()))) t"
  have ends: "sl_p2c st' \<noteq> Active" "sl_c2p st' \<noteq> Active"
    using p2c_ends [OF t f] f(2) by (simp_all add: st'_def polls_keep_c2p)
  have "\<exists>up down. s5_carried up down st'" using s5_carried_run [OF t] by (auto simp: st'_def)
  with ends have "sl_closed st' \<and> sl_shutdown st'" by (auto simp: s5_carried_def)
  with ends show ?thesis by (simp add: st'_def t_def n_def)
qed

theorem s5_relay_ends_witness:
  "let st = s5_connect [S5Arrive [7], C2pRead (Inr []) (Inr 0)] (s5_relay_new pipe);
       st' = s5_connect [S5PipeClosed, P2cPoll (Inr ()), P2cPoll (Inr ())] st
   in pipe_data (sl_pipe st) = [7] \<and> sl_p2c st' \<noteq> Active \<and> sl_shutdown st'"
proof -
  let ?st = "s5_connect [S5Arrive [7], C2pRead (Inr []) (Inr 0)] (s5_relay_new pipe)"
  have p: "pipe_data pipe = []" by (simp add: pipe_def pipe_data_def)
  have d: "pipe_data (sl_pipe ?st) = [7]" and c: "sl_c2p ?st \<noteq> Active"
    by (simp_all add: s5_relay_new_def c2p_read_def c2p_end_def pipe_data_written p)
      (simp add: pipe_def pipe_write_def channel_send_def)
  from s5_relay_ends [OF pipe_inv_new p refl c] show ?thesis unfolding d Let_def by simp
qed

section \<open>What an association carries\<close>

text \<open>The packets of the application that were accepted, and the addresses it sent from.\<close>

fun accepted_by :: "udp_event \<Rightarrow> (address option \<times> byte list) list" where
  "accepted_by (UdpLocal (Inr (pkt, frag, destination, _)) (Inr _)) =
     (if frag = 0 \<and> length pkt \<le> 65535 then [(Some destination, pkt)] else [])"
| "accepted_by _ = []"

fun sent_from :: "udp_event \<Rightarrow> socket_addr list" where
  "sent_from (UdpLocal (Inr (_, _, _, src_addr)) _) = [src_addr]"
| "sent_from _ = []"

text \<open>The events a run gets to before the association ends.\<close>

fun handled ::
    "addr_write \<Rightarrow> address reader \<Rightarrow> (byte list \<Rightarrow> nat) \<Rightarrow> udp_event list \<Rightarrow> udp_associate \<Rightarrow> udp_event list" where
  "handled wr rd ask [] st = []"
| "handled wr rd ask (e # es) st =
     (if ua_end st \<noteq> None then [] else e # handled wr rd ask es (udp_step wr rd ask e st))"

lemma udp_step_frames:
  "ua_frames (udp_step wr rd ask e st) = ua_frames st @ map (encoded wr Datagram) (accepted_by e)"
proof (cases e)
  case (UdpLocal received written)
  then show ?thesis
    by (cases received; cases written)
      (auto simp: udp_local_def encoded_def uot_encode_packet_def Let_def)
next
  case (UdpPacket sent)
  then show ?thesis
    by (auto simp: udp_packet_def udp_deliver_def Let_def split: prod.split packet_polled.split option.split sum.split)
qed (auto simp: udp_control_closed_def split: sum.split)

lemma udp_frames_run:
  "ua_frames (udp_associate_loop wr rd ask es st) =
   ua_frames st @ map (encoded wr Datagram) (concat (map accepted_by (handled wr rd ask es st)))"
  by (induction es arbitrary: st) (simp_all add: udp_step_frames)

definition reply_ok :: "socket_addr set \<Rightarrow> udp_associate \<Rightarrow> bool" where
  "reply_ok senders st \<longleftrightarrow>
     (addr_port (ua_incoming st) = 0 \<or> ua_incoming st \<in> senders) \<and>
     list_all (\<lambda>(_, _, to). addr_port to \<noteq> 0 \<and> to \<in> senders) (ua_delivered st)"

lemma udp_local_replies:
  "ua_delivered (udp_local wr received written st) = ua_delivered st"
  "ua_incoming (udp_local wr received written st) \<in> insert (ua_incoming st) (set (sent_from (UdpLocal received written)))"
  by (cases received; auto simp: udp_local_def Let_def split: sum.split prod.split)+

lemma reply_ok_step:
  assumes "reply_ok senders st"
  shows "reply_ok (senders \<union> set (sent_from e)) (udp_step wr rd ask e st)"
proof (cases e)
  case (UdpLocal received written)
  show ?thesis using assms udp_local_replies(2) [of wr received written st]
    unfolding UdpLocal udp_step.simps reply_ok_def udp_local_replies(1)
    by (auto simp: list_all_iff)
next
  case (UdpPacket sent)
  then show ?thesis using assms
    by (auto simp: reply_ok_def udp_packet_def udp_deliver_def Let_def
        split: prod.split packet_polled.split option.split sum.split)
qed (use assms in \<open>auto simp: reply_ok_def udp_control_closed_def split: sum.split\<close>)

lemma reply_ok_run:
  "reply_ok senders st \<Longrightarrow>
   reply_ok (senders \<union> set (concat (map sent_from (handled wr rd ask es st)))) (udp_associate_loop wr rd ask es st)"
proof (induction es arbitrary: senders st)
  case (Cons e es)
  from Cons.IH [OF reply_ok_step [OF Cons.prems, of e wr rd ask]] Cons.prems show ?case by (simp add: Un_assoc)
qed simp

lemma addr_port_zero: "addr_port (zero_addr a) = 0"
  by (cases a) simp_all

text \<open>
  A UDP association writes to its stream exactly the encodings of the datagrams it accepted from
  the application, in order, whatever happens in between; and it sends what comes back only to an
  address the application has sent from, never to the unspecified address it starts with.
\<close>

theorem associate_exact:
  "let new = udp_associate_new p (zero_addr a); st = udp_associate_loop wr rd ask es new; hs = handled wr rd ask es new
   in ua_frames st = map (encoded wr Datagram) (concat (map accepted_by hs)) \<and>
      list_all (\<lambda>(_, _, to). addr_port to \<noteq> 0 \<and> to \<in> set (concat (map sent_from hs))) (ua_delivered st)"
proof -
  have "reply_ok {} (udp_associate_new p (zero_addr a))"
    by (simp add: reply_ok_def udp_associate_new_def addr_port_zero)
  from reply_ok_run [OF this] show ?thesis
    unfolding Let_def by (simp add: udp_frames_run reply_ok_def) (simp add: udp_associate_new_def)
qed

text \<open>
  How the stream is left. An association that ends in the loop closes its stream; one that ends with an
  error of a socket, of the stream or of a packet leaves the stream open and in the session's map.
\<close>

lemma failed_associate_keeps_stream:
  assumes "session_inv s" "map_of (se_streams s) sid = Some x" "\<not> se_tx_closed s"
  shows "map_of (se_streams (fst (udp_associate_finish how x s))) sid =
    (case how of AssocClosed \<Rightarrow> None | AssocTerminated _ \<Rightarrow> None | _ \<Rightarrow> Some x)"
proof -
  have a: "sm_id (stream_at s x) = sid" "\<not> sm_closed (stream_at s x)"
    using streams_inv_SomeD [OF streams_inv_session [OF assms(1)] assms(2)] by (auto simp: entry_inv_def)
  obtain s' r where c: "stream_close x s = (s', r)" by (cases "stream_close x s")
  have "map_of (se_streams s') sid = None"
    using stream_close_open(3) [OF a(2) assms(3) c] a(1) by (simp add: AList.delete_conv')
  with c assms(2) show ?thesis by (simp add: udp_associate_finish_def split: assoc_end.split)
qed

end
