(* ===== verification/End_To_End.thy ===== *)
theory End_To_End
  imports Session_Props
begin

text \<open>
  From a stream of the client to the stream of the server: what one side writes passes through
  the channel, the writer task with its padding, the connection cut into arbitrary reads, the
  frame decoder, the engine and the map of streams into the pipe of the other side. This theory
  holds the lemmas for the whole way.
\<close>

section \<open>Writing several times\<close>

fun stream_writes :: "nat \<Rightarrow> byte list list \<Rightarrow> session \<Rightarrow> session" where
  "stream_writes a [] s = s"
| "stream_writes a (bs # bss) s = stream_writes a bss (fst (stream_write a bs s))"

lemma stream_writes_frames:
  assumes "\<not> sm_closed (stream_at s a)" "\<not> se_tx_closed s"
  shows "stream_writes a bss s = s\<lparr>se_frames := se_frames s @
    map (\<lambda>bs. (frame_with_data Psh (sm_id (stream_at s a)) bs, False)) bss\<rparr>"
  using assms
proof (induction bss arbitrary: s)
  case Nil
  then show ?case by simp
next
  case (Cons bs bss)
  have w: "fst (stream_write a bs s) =
      s\<lparr>se_frames := se_frames s @ [(frame_with_data Psh (sm_id (stream_at s a)) bs, False)]\<rparr>"
    using Cons.prems by (simp add: stream_write_def channel_frame_def)
  show ?case unfolding stream_writes.simps w using Cons.prems by (subst Cons.IH) simp_all
qed

section \<open>The frames of a first stream\<close>

text \<open>A client that starts, opens a stream and writes to it queues exactly these frames.\<close>

definition first_stream :: "(stringmap \<Rightarrow> stringmap) \<Rightarrow> padding_factory \<Rightarrow> byte list list \<Rightarrow> session" where
  "first_stream ord pf bss =
     (let s = fst (ensure_started ord (new_client_session pf))
      in case open_stream 1 s of (s', Inr a) \<Rightarrow> stream_writes a bss s' | (s', Inl _) \<Rightarrow> s')"

definition opened :: "(stringmap \<Rightarrow> stringmap) \<Rightarrow> padding_factory \<Rightarrow> session" where
  "opened ord pf = (new_client_session pf)\<lparr>se_started := True, se_next_stream_id := 1, se_heap := [stream_new 1],
     se_streams := [(1, 0)], se_idle := False,
     se_frames := [(client_hello ord pf PROGRAM_VERSION_NAME, False), (frame_new Syn 1, False)]\<rparr>"

lemma started_open_stream:
  assumes "0 < m"
  shows "open_stream m (fst (ensure_started ord (new_client_session pf))) = (opened ord pf, Inr 0)"
proof -
  have "fst (ensure_started ord (new_client_session pf)) = (new_client_session pf)\<lparr>se_started := True,
      se_frames := [(client_hello ord pf PROGRAM_VERSION_NAME, False)]\<rparr>"
    by (simp add: ensure_started_def protocol_on_session_start_def on_session_start_def session_host_def
        new_client_session_def session_new_with_protocol_def write_frame_def channel_frame_def
        state_new_def client_hello_def)
  then show ?thesis
    using assms
    by (simp add: open_stream_success new_client_session_def session_new_with_protocol_def is_terminated_def opened_def)
qed

lemma first_stream_eq: "first_stream ord pf bss = stream_writes 0 bss (opened ord pf)"
  by (simp add: first_stream_def started_open_stream Let_def del: One_nat_def)

lemma opened_writable: "\<not> sm_closed (stream_at (opened ord pf) 0)" "\<not> se_tx_closed (opened ord pf)"
  "sm_id (stream_at (opened ord pf) 0) = 1"
  by (simp_all add: opened_def stream_new_def new_client_session_def session_new_with_protocol_def)

lemma first_stream_frames:
  "map fst (se_frames (first_stream ord pf bss)) =
     client_hello ord pf PROGRAM_VERSION_NAME # frame_new Syn 1 # map (frame_with_data Psh 1) bss"
  using opened_writable [of ord pf]
  by (simp add: first_stream_eq stream_writes_frames o_def) (simp add: opened_def)

lemma first_stream_append: "first_stream ord pf (xs @ ys) = stream_writes 0 ys (first_stream ord pf xs)"
proof -
  have "stream_writes a (xs @ ys) s = stream_writes a ys (stream_writes a xs s)" for a s
    by (induction xs arbitrary: s) simp_all
  then show ?thesis by (simp add: first_stream_eq)
qed

section \<open>The receiving side\<close>

lemma handle_frames_no_waste:
  "handle_frames ord md5 fs s = handle_frames ord md5 (filter (\<lambda>f. \<not> is_waste f) fs) s"
  by (induction fs arbitrary: s) (auto simp: handle_waste and_then_def split: prod.split sum.split)

lemma recv_loop_decoded:
  assumes "list_all (\<lambda>c. c \<noteq> []) chunks" "\<not> se_closed s"
    and "filter (\<lambda>f. \<not> is_waste f) (fst (decode_reads frame_decode [] chunks)) = fs"
    and "handle_frames ord md5 fs s = (s', Inr ())"
  shows "recv_loop ord md5 (map ReadBytes chunks) [] s = (s', None)"
proof -
  have "frame_decode [] = None" by code_simp
  from recv_loop_frames [OF this assms(1) _ assms(2)] assms(3,4) show ?thesis
    by (simp add: handle_frames_no_waste [of ord md5 "fst (decode_reads frame_decode [] chunks)"])
qed

lemma write_frame_sync_ok:
  "\<not> se_tx_closed s \<Longrightarrow> se_acks s = [] \<Longrightarrow>
   write_frame_sync f s = (s\<lparr>se_frames := se_frames s @ [(f, True)]\<rparr>, Inr (length (fdata f)))"
  by (simp add: write_frame_sync_def channel_frame_def)

lemma apply_sends:
  "\<not> se_tx_closed s \<Longrightarrow> se_acks s = [] \<Longrightarrow>
   apply_actions session_host (map SendFrameSync fs) s =
     (s\<lparr>se_frames := se_frames s @ map (\<lambda>f. (f, True)) fs\<rparr>, Inr ())"
  by (induction fs arbitrary: s) (simp_all add: session_host_def write_frame_sync_ok)

text \<open>The server after the client's first two frames: its answers are queued, the stream is there.\<close>

lemma handle_first_frames:
  assumes "iteration_order ord" "hash_text md5" "factory_ok md5 pf"
  shows "\<exists>s. handle_frames ord md5 [client_hello ord pf PROGRAM_VERSION_NAME, frame_new Syn 1]
      (new_server_session pf') = (s, Inr ()) \<and> session_inv s \<and> none_lost s \<and> \<not> se_closed s \<and>
    se_streams s = [(1, 0)] \<and> se_heap s = [stream_new 1] \<and> se_callbacks s = [0] \<and>
    st_received_settings (se_state s) \<and> st_peer_version (se_state s) = PROTOCOL_VERSION"
proof -
  have name: "entry_ok (''client'', PROGRAM_VERSION_NAME)" unfolding PROGRAM_VERSION_NAME_def by code_simp
  note hello = server_hello [OF assms(1,2) name assms(3), of pf']
  let ?s0 = "new_server_session pf'"
  let ?st = "\<lparr>st_padding = pf', st_peer_version = 2, st_received_settings = True\<rparr>"
  have "fcmd (client_hello ord pf PROGRAM_VERSION_NAME) \<noteq> Alert"
    by (simp add: client_hello_def frame_with_data_def)
  moreover obtain gs where "on_frame ord md5 (state_new pf') False (client_hello ord pf PROGRAM_VERSION_NAME) =
      (?st, Inr (map SendFrameSync gs))"
    by (rule that [of "(if pf_md5 pf \<noteq> pf_md5 pf' then [frame_with_data UpdatePaddingScheme 0 (pf_raw_scheme pf')] else []) @
        [frame_with_data ServerSettings 0 (sm_to_bytes ord (AList.update ''v'' (show_u8 2) []))]"])
      (simp add: hello)
  moreover have "h_protocol_state session_host ?s0 = state_new pf'" "\<not> h_is_client session_host ?s0"
    "h_put_state session_host ?st ?s0 = ?s0\<lparr>se_state := ?st\<rparr>" "\<not> se_tx_closed ?s0" "se_acks ?s0 = []"
    by (simp_all add: session_host_def new_server_session_def session_new_with_protocol_def)
  ultimately obtain fs where h: "handle_frame ord md5 session_host (client_hello ord pf PROGRAM_VERSION_NAME) ?s0 =
      (?s0\<lparr>se_state := ?st, se_frames := fs\<rparr>, Inr ())"
    by (simp add: handle_frame_def apply_sends)
  let ?s1 = "?s0\<lparr>se_state := ?st, se_frames := fs\<rparr>"
  let ?s2 = "fst (handle_frame ord md5 session_host (frame_new Syn 1) ?s1)"
  have syn: "handle_frame ord md5 session_host (frame_new Syn 1) ?s1 =
      (?s1\<lparr>se_heap := [stream_new 1], se_streams := [(1, 0)], se_idle := False, se_callbacks := [0]\<rparr>, Inr ())"
    by (simp add: handle_frame_def on_frame_def frame_new_def session_host_def new_server_session_def
        session_new_with_protocol_def ensure_incoming_stream_def create_incoming_stream_def
        insert_stream_def is_terminated_def)
  have "session_inv ?s0" unfolding new_server_session_def by (rule session_inv_new)
  from session_contract.handle_frame_inv [OF this, of ord md5 "client_hello ord pf PROGRAM_VERSION_NAME"]
  have "session_inv ?s1" by (simp add: h)
  from session_contract.handle_frame_inv [OF this, of ord md5 "frame_new Syn 1"]
  have "session_inv ?s2" .
  with h syn show ?thesis
    by (simp add: none_lost_def stream_new_def pipe_def PROTOCOL_VERSION_def)
      (simp add: new_server_session_def session_new_with_protocol_def)
qed

text \<open>Payload changes nothing but the pipes.\<close>

lemma deliver_rest:
  "se_state (deliver f s) = se_state s" "se_callbacks (deliver f s) = se_callbacks s"
  by (simp_all add: deliver_def upd_stream_def split: option.split)

lemma handle_data_rest:
  assumes "session_inv s" "none_lost s" "list_all data_frame fs" "handle_frames ord md5 fs s = (s', r)"
  shows "se_state s' = se_state s \<and> se_callbacks s' = se_callbacks s"
  using assms
proof (induction fs arbitrary: s)
  case Nil
  then show ?case by simp
next
  case (Cons f fs)
  show ?case
  proof (cases "is_waste f")
    case True
    with Cons show ?thesis by (simp add: handle_waste)
  next
    case False
    then have psh: "fcmd f = Psh" using Cons.prems(3) by (simp add: data_frame_def)
    have "handle_frames ord md5 fs (deliver f s) = (s', r)"
      using Cons.prems(4) by (simp add: handle_psh [OF Cons.prems(1,2) psh])
    from Cons.IH [OF session_inv_deliver [OF Cons.prems(1,2)] _ this] Cons.prems(3) show ?thesis
      by (simp add: deliver_rest)
  qed
qed

lemma payload_for_own: "payload_for sid (map (frame_with_data Psh sid) bss) = concat bss"
  by (induction bss) (simp_all add: payload_for_def frame_with_data_def)

text \<open>The whole way, for the frames of a first stream.\<close>

lemma first_stream_delivered:
  assumes "iteration_order ord" "hash_text md5" "factory_ok md5 pf" "\<And>pkt. rng_ok (rng pkt)"
    and "map item_frame items =
      client_hello ord pf PROGRAM_VERSION_NAME # frame_new Syn 1 # map (frame_with_data Psh 1) bss" "list_all item_ok items"
    and "writer_task rng items (writer_state_new True) \<lparr>sk_written = [], sk_script = script\<rparr> =
      (ws, sk, acks, True)"
    and "concat chunks = delivered sk" "list_all (\<lambda>c. c \<noteq> []) chunks"
  shows "\<exists>s. recv_loop ord md5 (map ReadBytes chunks) [] (new_server_session pf') = (s, None) \<and>
    st_received_settings (se_state s) \<and> st_peer_version (se_state s) = PROTOCOL_VERSION \<and>
    se_streams s = [(1, 0)] \<and> se_callbacks s = [0] \<and> \<not> sm_closed (stream_at s 0) \<and>
    pipe_data (pipe_of s 0) = concat bss"
proof -
  let ?first = "[client_hello ord pf PROGRAM_VERSION_NAME, frame_new Syn 1]"
  let ?data = "map (frame_with_data Psh 1) bss"
  have seen: "filter (\<lambda>f. \<not> is_waste f) (fst (decode_reads frame_decode [] chunks)) = ?first @ ?data"
    using writer_task_decoded [OF assms(4,6,7,8)] assms(5) by auto
  obtain s where s: "handle_frames ord md5 ?first (new_server_session pf') = (s, Inr ())"
    "session_inv s" "none_lost s" "se_streams s = [(1, 0)]" "se_heap s = [stream_new 1]" "se_callbacks s = [0]"
    "st_received_settings (se_state s)" "st_peer_version (se_state s) = PROTOCOL_VERSION"
    using handle_first_frames [OF assms(1-3), of pf'] by blast
  have data: "list_all data_frame ?data" by (simp add: list_all_iff data_frame_def frame_with_data_def)
  from handle_data_frames [OF s(2,3) data, of ord md5] obtain s' where s': "handle_frames ord md5 ?data s = (s', Inr ())"
    "session_inv s'" "se_streams s' = [(1, 0)]" "pipe_data (pipe_of s' 0) = payload_for 1 ?data"
    by (auto simp: s stream_new_def pipe_def pipe_data_def)
  have "handle_frames ord md5 (?first @ ?data) (new_server_session pf') = (s', Inr ())"
    unfolding handle_frames_append s(1) by (simp add: s'(1))
  moreover have "\<not> se_closed (new_server_session pf')"
    by (simp add: new_server_session_def session_new_with_protocol_def)
  ultimately have "recv_loop ord md5 (map ReadBytes chunks) [] (new_server_session pf') = (s', None)"
    using recv_loop_decoded [OF assms(9) _ seen] by blast
  moreover have "\<not> sm_closed (stream_at s' 0)"
    using streams_inv_SomeD(4) [OF streams_inv_session [OF s'(2)], of 1 0] s'(3) by simp
  ultimately show ?thesis
    using handle_data_rest [OF s(2,3) data s'(1)] s s' by (auto simp: payload_for_own)
qed

end
