(* ===== verification/Tunnel.thy ===== *)
theory Tunnel
  imports Client_Relay End_To_End Client_Inv
begin

text \<open>
  The client and the server together: what a new client queues when a local application asks for a
  destination or for a UDP association, as the frames of its first stream. The properties over the
  whole way are in the root theory.
\<close>

section \<open>The first stream of a new client\<close>

lemma fresh_stream:
  "\<exists>c. create_stream ord now (client_new pf t m k) = (c, Inr (0, 0)) \<and> cl_sessions c = [opened ord pf]"
proof -
  let ?c = "client_new pf t m k"
  let ?c1 = "?c\<lparr>cl_seq := 1, cl_sessions := [fst (ensure_started ord (new_client_session pf))], cl_active := [(0, 0)]\<rparr>"
  have "find_or_create_session ord now ?c = (?c1, Inr (0, 0))"
    by (simp add: find_or_create_session_def client_new_def take_reusable_Nil create_session_eq next_dial_def)
  moreover have "open_stream (cl_max_streams ?c1) (session_at ?c1 0) = (opened ord pf, Inr 0)"
    by (simp add: started_open_stream client_new_def)
  ultimately show ?thesis
    by (simp add: create_stream_def numeral_3_eq_3 spawn_idle_return_task_def upd_session_def)
      (simp add: client_new_def)
qed

lemma on_first_stream:
  assumes "cl_sessions c = [s]" "f 0 s = (s', r)"
  shows "on_stream (0, 0) f c = (c\<lparr>cl_sessions := [s']\<rparr>, r)"
  using assms by (simp add: on_stream_def upd_session_def)

lemma stream_write_open:
  assumes "\<not> sm_closed (stream_at s a)" "\<not> se_tx_closed s"
  shows "stream_write a bs s = (stream_writes a [bs] s, Inr (length bs))"
  using assms by (simp add: stream_write_def channel_frame_def)

lemma stream_writes_writable:
  assumes "\<not> sm_closed (stream_at s a)" "\<not> se_tx_closed s"
  shows "\<not> sm_closed (stream_at (stream_writes a bss s) a)" "\<not> se_tx_closed (stream_writes a bss s)"
  using assms by (simp_all add: stream_writes_frames)

lemma s5_start_fresh:
  "\<exists>c. s5_connect_start wr ord now dst (client_new pf t m k) = (c, Inr (0, 0)) \<and>
    session_at c 0 = first_stream ord pf [wr dst]"
proof -
  obtain c where c: "create_stream ord now (client_new pf t m k) = (c, Inr (0, 0))" "cl_sessions c = [opened ord pf]"
    using fresh_stream by blast
  note w = on_first_stream [where f = "\<lambda>x. stream_write x (wr dst)", OF c(2) stream_write_open [OF opened_writable(1,2)]]
  show ?thesis using c(1) w by (simp add: s5_connect_start_def first_stream_eq)
qed

lemma udp_start_fresh:
  "\<exists>c. udp_associate_start wr unspecified ord now (Inr local) (Inr bound) adv (Inr ()) shut (client_new pf t m k) =
     (c, Some (Succeeded (socket_addr_new (case adv of Some ip \<Rightarrow> ip | None \<Rightarrow> ip_of local) (addr_port bound))),
      Inr ((0, 0), zero_addr bound)) \<and>
    session_at c 0 = first_stream ord pf
      [wr uot_sentinel_destination, uot_request_bytes wr \<lparr>uq_mode = Datagram, uq_destination = unspecified\<rparr>]"
proof -
  let ?q = "uot_request_bytes wr \<lparr>uq_mode = Datagram, uq_destination = unspecified\<rparr>"
  let ?s = "stream_writes 0 [wr uot_sentinel_destination] (opened ord pf)"
  obtain c where c: "create_stream ord now (client_new pf t m k) = (c, Inr (0, 0))" "cl_sessions c = [opened ord pf]"
    using fresh_stream by blast
  have "uot_hello wr unspecified 0 (opened ord pf) = (stream_writes 0 [?q] ?s, Inr ())"
    unfolding uot_hello_def stream_write_open [OF opened_writable(1,2)]
    using stream_write_open [OF stream_writes_writable [OF opened_writable(1,2)]] by (simp del: stream_writes.simps)
  from on_first_stream [OF c(2), of "uot_hello wr unspecified", OF this] c(1) show ?thesis
    by (simp add: udp_associate_start_def first_stream_eq)
qed

text \<open>The connector for HTTP opens the same tunnel.\<close>

lemma http_connector_eq:
  assumes "wr dst \<noteq> []"
  shows "http_connector wr ord now dst c = s5_connect_start wr ord now dst c"
proof -
  have "stream_write_all x (wr dst) s = (case stream_write x (wr dst) s of (s, r) \<Rightarrow> (s, res_bind r (\<lambda>_. Inr ())))" for x s
    using assms
    by (subst stream_write_all.simps)
      (auto simp: stream_write_def channel_frame_def stream_write_all.simps [of x "[]"])
  then show ?thesis
    by (auto simp: http_connector_def s5_connect_start_def on_stream_def split: prod.split sum.split)
qed

text \<open>A stream of datagrams ends where no packet begins.\<close>

lemma uot_packets_end:
  assumes "address_codec ok wr rd" "ok a"
  shows "fst (uot_packets rd Datagram []) = []"
proof -
  have "\<exists>e. uot_get_packet_from_stream rd Datagram [] = Inl e"
  proof (cases "wr a = []")
    case True
    then have "rd [] = Inr (a, [])" using assms unfolding address_codec_def by (metis append_Nil)
    then show ?thesis by (simp add: uot_get_packet_from_stream_def read_payload_def read_u16_def)
  next
    case False
    then have "\<exists>m. rd (take 0 (wr a)) = Inl (IoError UnexpectedEof m)"
      using assms unfolding address_codec_def by blast
    then show ?thesis by (auto simp: uot_get_packet_from_stream_def)
  qed
  then show ?thesis by (auto simp: uot_packets.simps [of rd Datagram "[]"])
qed

lemma datagram_request_read:
  assumes "address_codec ok wr rd" "ok unspecified"
  shows "handle_uot_stream rd (uot_request_bytes wr \<lparr>uq_mode = Datagram, uq_destination = unspecified\<rparr> @ rest) =
    Inr (UotDatagram, rest)"
  using assms
  by (simp add: handle_uot_stream_def uot_get_request_from_stream_def uot_request_bytes_def read_u8_def
      uot_mode_of_u8_def address_codec_def)

end
