(* ===== verification/Spec2Isabelle.thy ===== *)
theory Spec2Isabelle
  imports Client_Props Panel_Props Trojan_Killer Tunnel
begin

text \<open>
  A verification library for the AnyTLS proxy in \<open>src/\<close>.

  \<^bold>\<open>The program.\<close> A client (\<open>src/bin/client.rs\<close>, \<open>src/src/client_runner.rs\<close>) takes local SOCKS and
  HTTP connections and carries them as streams over a few TLS connections, the sessions, to a server
  (\<open>src/bin/server.rs\<close>), which connects to the destinations. A session writes frames
  (\<open>src/src/core/frame.rs\<close>), split and padded by a scheme so that the sizes on the wire follow it
  (\<open>src/src/core/padding.rs\<close>, \<open>src/src/runtime/mod.rs\<close>). The engine (\<open>src/src/core/engine.rs\<close>) turns
  received frames into actions, which the session (\<open>src/src/proxy/session/inner.rs\<close>) carries out on its
  streams; a stream has a pipe (\<open>src/src/proxy/pipe/io_pipe.rs\<close>) that holds what its reader has not read
  yet. The client pools sessions (\<open>src/src/proxy/session/client.rs\<close>). The server authenticates
  connections against one password or a registry of users (\<open>src/src/node_api/\<close>), which an HTTP API
  changes, counts traffic, and synchronises with a panel (\<open>src/src/panel_sync/\<close>). UDP is carried inside
  streams (\<open>src/src/uot/mod.rs\<close>).

  \<^bold>\<open>How it is modelled.\<close> Pure functions are functions; a struct that is mutated is a record that is passed
  on; errors of the type \<open>io::Error\<close> are values of a sum type; a panic is \<open>None\<close> or a constructor of its
  own. Bytes are words of 8 bits and counters words of their width where they can wrap; a string is the
  list of its UTF-8 bytes. A \<open>HashMap\<close> is an association list whose iteration order is an argument.
  Shared objects are addresses into a heap: streams in the heap of their session, sessions in that of
  their client, users in that of the registry. What runs concurrently is an explicit sequence of steps
  between the points where the code waits. Results of sockets, timers, files and other tasks are
  arguments, scripts or events. Code of other crates is a parameter: MD5, SHA-256, the random source,
  the JSON and UUID parsers, the URL parser and percent-decoding, and the address format of
  \<open>socks5_impl\<close>, with what is relied on as named predicates (\<open>hash_text\<close>, \<open>rng_ok\<close>, \<open>iteration_order\<close>,
  \<open>address_codec\<close>, the laws in \<open>zone_url_roundtrip\<close>), each shown to hold of a concrete function.

  \<^bold>\<open>The theories.\<close>
  \<^item> \<open>Prelude\<close>, \<open>Rust_Std\<close>, \<open>Rust_Text\<close>, \<open>Rust_Net\<close>: machine types, errors, big-endian integers; the text
    functions of the standard library, with UTF-8; socket addresses and their text in both directions.
  \<^item> \<open>Codec\<close>: the locale \<open>stream_codec\<close>, a wire format that is decoded from a growing buffer; \<open>Frame\<close>
    (\<open>frame.rs\<close>) interprets it. A buffer of frames decodes to these frames however it was cut into reads;
    a frame that is too long is truncated.
  \<^item> \<open>String_Map\<close>, \<open>Padding\<close>, \<open>Engine\<close>: \<open>string_map.rs\<close>, the two \<open>padding.rs\<close>, \<open>state.rs\<close>, \<open>action.rs\<close> and
    \<open>engine.rs\<close>. Settings are read back; after the exchange of settings both sides agree; a server opens
    streams only after settings.
  \<^item> \<open>Writer\<close>: \<open>write_conn\<close> and the writer task of \<open>runtime/mod.rs\<close>. Padding is transparent under any outcome
    of the writes, acknowledged writes have arrived, and packets have the sizes of the scheme.
  \<^item> \<open>Pipe\<close>: \<open>io_pipe.rs\<close>, with reads in phases that can be dropped; the locale \<open>byte_pipe\<close> and its
    interpretation show that it is a queue of bytes.
  \<^item> \<open>Host\<close>, \<open>Session\<close>, \<open>Session_Inv\<close>, \<open>Session_Props\<close>: \<open>host.rs\<close>, the handlers of \<open>runtime/mod.rs\<close>, \<open>stream.rs\<close>
    and \<open>inner.rs\<close>. The trait \<open>ProtocolHost\<close> is a record, its contract the locale \<open>host_contract\<close>, interpreted
    on the session for its invariant, so that handling any frame keeps it. The receive loop routes
    payload to the pipes of its streams; an abandoned read ends the session.
  \<^item> \<open>Client_Pool\<close>, \<open>Client_Inv\<close>, \<open>Client_Props\<close>: \<open>client.rs\<close> of the session layer, with the task that returns
    sessions cut into its steps. The stream limit is an invariant; streams can be created; a race of
    that task is exhibited.
  \<^item> \<open>End_To_End\<close>: lemmas for the whole way from a stream of the client to the stream of the server.
  \<^item> \<open>Uot\<close>, \<open>Stream_Io\<close>: packets in streams, and the adapters that make a stream an \<open>AsyncRead\<close>, with the
    reads they keep and the panic that follows from it.
  \<^item> \<open>Users\<close>, \<open>Users_Props\<close>, \<open>Node_Api\<close>: \<open>users.rs\<close> and \<open>api.rs\<close>. The registry's indices and connection counts
    are an invariant; replacing users keeps and revokes as specified; routes change what they may.
  \<^item> \<open>Traffic_Audit\<close>, \<open>Panel_Sync\<close>, \<open>Panel_Props\<close>: \<open>traffic_audit.rs\<close> and \<open>core.rs\<close> of the panel. Reported
    differences add up to the counters, over any rounds and any failed reports.
  \<^item> \<open>Server\<close>, \<open>Server_Relay\<close>, \<open>Tcp_Relay\<close>: \<open>server.rs\<close>: its start, the authentication of a connection and
    the fallback, the handler of a stream, the relays of UDP and TCP as runs over events.
  \<^item> \<open>Parse_Url\<close>, \<open>Client_Runner\<close>, \<open>Mitm_Proxy\<close>, \<open>Client_Relay\<close>: \<open>parse_url.rs\<close> and \<open>client_runner.rs\<close>: URLs,
    arguments, the choice between HTTP and SOCKS, the preamble, the tunnel through an HTTP proxy, the
    relays of connections and UDP associations.
  \<^item> \<open>Trojan_Killer\<close>: \<open>examples/trojan-killer.rs\<close>, the proxy that audits a client's traffic.
  \<^item> \<open>Tunnel\<close> and this theory: client and server together. What a local application sends to a
    destination, over TCP or as datagrams, is what the server's handler finds on its stream.

  \<^bold>\<open>Termination and bounds.\<close> Every loop is a total function or a run over a finite list of events; no fuel
  is used except that \<open>create_stream\<close> has the three attempts of the code. Loops that read have measures:
  bytes missing in \<open>read_loop\<close>, bytes pending in \<open>read_line\<close> and \<open>skip_headers\<close>, bytes in the pipe in
  \<open>packet_poll\<close>; \<open>s5_relay_ends\<close> states that a relay of the client ends with its local side. Lengths
  and counters that the code casts or lets wrap are words (\<open>u16\<close> lengths of frames and packets, \<open>u32\<close>
  stream identifiers, \<open>u64\<close> traffic); lengths of buffers in memory are natural numbers.

  \<^bold>\<open>Not modelled.\<close> TLS with its configuration and certificates (\<open>create_tls_config\<close>, \<open>AllowAnyCertVerifier\<close>,
  \<open>mkcert.rs\<close>), which is calls into rustls and rcgen: a TLS stream is the list of what its reads give. The
  accept loops of client, server and API, which only spawn tasks for what the operating system gives
  them. The outbound sockets (\<open>create_uot_udp_outbound\<close> to \<open>connect_outbound_tcp\<close>, \<open>ForwardOutbound\<close>,
  \<open>system_dialer.rs\<close>) and the copying of \<open>relay_probe_stream\<close> and \<open>relay_forward_stream\<close>, which belong to
  tokio: their results are arguments. \<open>retrieve_public_ip.rs\<close> and \<open>print_anytls_url\<close>, which ask public HTTP
  services. The timers of \<open>deadline.rs\<close>: whether one has fired is an argument. Logging has no effect.
\<close>

text \<open>
  C1. From end to end. A client session starts, opens a stream and writes byte strings to it; its
  writer task sends the queued frames, with whatever padding schemes are in force while it runs
  and whatever the random source yields, over a connection that takes all writes; the bytes
  arrive cut into arbitrary non-empty reads. Then the server session's receive loop accepts
  everything without error, has negotiated the protocol version, has exactly one stream, handed
  to its callback, and what can be read from that stream is exactly the concatenation of what
  the client wrote.
\<close>

theorem end_to_end:
  assumes "iteration_order ord" "hash_text md5" "factory_ok md5 pf" "\<And>pkt. rng_ok (rng pkt)"
    and "map item_frame items = map fst (se_frames (first_stream ord pf bss))" "list_all item_ok items"
    and "writer_task rng items (writer_state_new True) \<lparr>sk_written = [], sk_script = script\<rparr> =
      (ws, sk, acks, True)"
    and "concat chunks = delivered sk" "list_all (\<lambda>c. c \<noteq> []) chunks"
  shows "\<exists>s. recv_loop ord md5 (map ReadBytes chunks) [] (new_server_session pf') = (s, None) \<and>
    st_received_settings (se_state s) \<and> st_peer_version (se_state s) = PROTOCOL_VERSION \<and>
    se_streams s = [(1, 0)] \<and> se_callbacks s = [0] \<and> \<not> sm_closed (stream_at s 0) \<and>
    pipe_data (pipe_of s 0) = concat bss"
  using first_stream_delivered [OF assms(1-4) _ assms(6-9), of bss pf'] assms(5)
  by (simp add: first_stream_frames)

text \<open>A transfer over a connection that takes everything, for the witnesses below.\<close>

definition sample_items_of :: "byte list list \<Rightarrow> (state \<times> frame \<times> bool) list" where
  "sample_items_of bss =
     map (\<lambda>(f, a). (state_new sample_factory, f, a)) (se_frames (first_stream id sample_client bss))"

lemma sample_items_frames: "map item_frame (sample_items_of bss) = map fst (se_frames (first_stream id sample_client bss))"
  by (simp add: sample_items_of_def case_prod_beta)

lemma sample_transfer_ok:
  assumes "list_all (\<lambda>bs. length bs < 65536) bss"
  shows "list_all item_ok (sample_items_of bss)"
proof -
  have "length (fdata (client_hello id sample_client PROGRAM_VERSION_NAME)) < 200"
    unfolding PROGRAM_VERSION_NAME_def by code_simp
  then have hello: "frame_ok (client_hello id sample_client PROGRAM_VERSION_NAME)"
    "\<not> is_waste (client_hello id sample_client PROGRAM_VERSION_NAME)"
    by (simp_all add: frame_ok_def client_hello_def frame_with_data_def is_waste_def command_ok_def command_of_u8_def)
  have "scheme_small (pf_scheme sample_factory)"
    using sample_items_ok by (simp add: sample_items_def item_ok_def state_new_def)
  moreover have "frame_ok (frame_new Syn 1)" "\<not> is_waste (frame_new Syn 1)"
    "\<And>bs. length bs < 65536 \<Longrightarrow> frame_ok (frame_with_data Psh 1 bs)"
    "\<And>bs. \<not> is_waste (frame_with_data Psh 1 bs)"
    by (simp_all add: frame_ok_def frame_with_data_def frame_new_def is_waste_def command_ok_def command_of_u8_def)
  then have "list_all (\<lambda>f. frame_ok f \<and> \<not> is_waste f) (map fst (se_frames (first_stream id sample_client bss)))"
    unfolding first_stream_frames using assms by (simp add: hello list_all_iff)
  ultimately show ?thesis
    by (auto simp: list_all_iff item_ok_def state_new_def sample_items_of_def)
qed

lemma sample_run:
  obtains ws sk acks chunks where "writer_task sample_rng (sample_items_of bss) (writer_state_new True)
      \<lparr>sk_written = [], sk_script = []\<rparr> = (ws, sk, acks, True)"
    "concat chunks = delivered sk" "list_all (\<lambda>c. c \<noteq> []) chunks"
proof -
  obtain ws sk acks where "writer_task sample_rng (sample_items_of bss) (writer_state_new True)
      \<lparr>sk_written = [], sk_script = []\<rparr> = (ws, sk, acks, True)"
    using writer_task_plain [of "\<lparr>sk_written = [], sk_script = []\<rparr>"] by fastforce
  moreover have "concat (map (\<lambda>b. [b]) (delivered sk)) = delivered sk" "list_all (\<lambda>c. c \<noteq> []) (map (\<lambda>b. [b]) (delivered sk))"
    by (simp_all add: list_all_iff)
  ultimately show thesis using that by blast
qed

theorem end_to_end_witness:
  "\<exists>chunks s. recv_loop id sample_md5 (map ReadBytes chunks) [] (new_server_session sample_server) = (s, None) \<and>
     pipe_data (pipe_of s 0) = [1, 2, 3]"
proof -
  have small: "list_all (\<lambda>bs. length bs < 65536) [[1, 2], [], [3 :: byte]]" by simp
  obtain ws sk acks chunks where "writer_task sample_rng (sample_items_of [[1, 2], [], [3]]) (writer_state_new True)
      \<lparr>sk_written = [], sk_script = []\<rparr> = (ws, sk, acks, True)"
    "concat chunks = delivered sk" "list_all (\<lambda>c. c \<noteq> []) chunks" by (rule sample_run)
  from end_to_end [OF iteration_order_id sample_hash_text sample_factories_ok(1) sample_rng_ok sample_items_frames
      sample_transfer_ok [OF small] this, of sample_server]
  show ?thesis by auto
qed

section \<open>From the application to the destination\<close>

text \<open>
  C2. A tunnel from end to end. A new client is asked by a local application for a destination; it
  opens a stream, announces the destination on it, and relays what the application sends. Whatever
  the padding and the cutting into reads, the server accepts everything, hands exactly one stream to
  its handler, and the handler, for an approved client, connects to that destination and finds behind
  it exactly the bytes of the application.
\<close>

theorem tunnel_end_to_end:
  assumes "address_codec ok wr rd" "ok dst" "\<not> uot_is_sentinel_destination dst"
    and "iteration_order ord" "hash_text md5" "factory_ok md5 pf" "\<And>pkt. rng_ok (rng pkt)"
    and "(c, opened_stream) = s5_connect_start wr ord now dst (client_new pf t m k)"
    and "map item_frame items = map fst (se_frames (stream_writes 0 pieces (session_at c 0)))" "list_all item_ok items"
    and "writer_task rng items (writer_state_new True) \<lparr>sk_written = [], sk_script = script\<rparr> =
      (ws, sk, acks, True)"
    and "concat chunks = delivered sk" "list_all (\<lambda>c. c \<noteq> []) chunks"
  shows "opened_stream = Inr (0, 0) \<and>
    (\<exists>s. recv_loop ord md5 (map ReadBytes chunks) [] (new_server_session pf') = (s, None) \<and> se_callbacks s = [0] \<and>
       res_bind (rd (pipe_data (pipe_of s 0))) (\<lambda>(d, rest). Inr (handle_session False True (Inr d) False, rest)) =
         Inr (HandleTcp dst, concat pieces))"
proof -
  have c: "opened_stream = Inr (0, 0)" "session_at c 0 = first_stream ord pf [wr dst]"
    using s5_start_fresh [of wr ord now dst pf t m k] assms(8) by auto
  have "map item_frame items =
      client_hello ord pf PROGRAM_VERSION_NAME # frame_new Syn 1 # map (frame_with_data Psh 1) (wr dst # pieces)"
    using assms(9) unfolding c(2) first_stream_append [symmetric] first_stream_frames by simp
  from first_stream_delivered [OF assms(4-7) this assms(10-13), of pf'] obtain s where
    "recv_loop ord md5 (map ReadBytes chunks) [] (new_server_session pf') = (s, None)" "se_callbacks s = [0]"
    "pipe_data (pipe_of s 0) = wr dst @ concat pieces" by auto
  with c(1) assms(1-3) show ?thesis by (auto simp: address_codec_def handle_session_def)
qed

theorem tunnel_end_to_end_witness:
  "\<exists>chunks s. recv_loop id sample_md5 (map ReadBytes chunks) [] (new_server_session sample_server) = (s, None) \<and>
     res_bind (domain_read (pipe_data (pipe_of s 0))) (\<lambda>(d, rest). Inr (handle_session False True (Inr d) False, rest)) =
       Inr (HandleTcp (DomainAddress ''a.b'' 80), [1, 2, 3])"
proof -
  let ?dst = "DomainAddress ''a.b'' 80"
  let ?bss = "[domain_write ?dst, [1, 2], [3]]"
  have small: "list_all (\<lambda>bs. length bs < 65536) ?bss" by simp
  have dst: "domain_ok ?dst" "\<not> uot_is_sentinel_destination ?dst" by (simp_all add: domain_ok_def V2_MAGIC_ADDRESS_def)
  obtain c where c: "s5_connect_start domain_write id 0 ?dst (client_new sample_client 30 5 1) = (c, Inr (0, 0))"
    "session_at c 0 = first_stream id sample_client [domain_write ?dst]"
    using s5_start_fresh by blast
  have items: "map item_frame (sample_items_of ?bss) = map fst (se_frames (stream_writes 0 [[1, 2], [3]] (session_at c 0)))"
    unfolding sample_items_frames c(2) first_stream_append [symmetric] by simp
  obtain ws sk acks chunks where "writer_task sample_rng (sample_items_of ?bss) (writer_state_new True)
      \<lparr>sk_written = [], sk_script = []\<rparr> = (ws, sk, acks, True)"
    "concat chunks = delivered sk" "list_all (\<lambda>c. c \<noteq> []) chunks" by (rule sample_run)
  from tunnel_end_to_end [OF domain_codec dst iteration_order_id sample_hash_text sample_factories_ok(1) sample_rng_ok
      c(1) [symmetric] items sample_transfer_ok [OF small] this, of sample_server]
  show ?thesis by auto
qed

text \<open>
  C3. Datagrams from end to end. A new client opens a UDP association for a local application and
  relays its datagrams, with whatever else happens to the association in between. The server finds a
  UDP stream, a request for datagrams, and behind it exactly the datagrams the client accepted, each
  with its destination, in order.
\<close>

theorem datagrams_end_to_end:
  assumes "address_codec ok wr rd" "ok uot_sentinel_destination" "ok unspecified"
    and "iteration_order ord" "hash_text md5" "factory_ok md5 pf" "\<And>pkt. rng_ok (rng pkt)"
    and "(c, reply, started) =
      udp_associate_start wr unspecified ord now (Inr local) (Inr bound) adv (Inr ()) shut (client_new pf t m k)"
    and "new = udp_associate_new p (zero_addr bound)" "packets = concat (map accepted_by (handled wr rd ask es new))"
    and "list_all (packet_ok ok Datagram) packets"
    and "map item_frame items =
      map fst (se_frames (stream_writes 0 (ua_frames (udp_associate_loop wr rd ask es new)) (session_at c 0)))"
    and "list_all item_ok items"
    and "writer_task rng items (writer_state_new True) \<lparr>sk_written = [], sk_script = script\<rparr> =
      (ws, sk, acks, True)"
    and "concat chunks = delivered sk" "list_all (\<lambda>c. c \<noteq> []) chunks"
  shows "started = Inr ((0, 0), zero_addr bound) \<and>
    (\<exists>s request rest. recv_loop ord md5 (map ReadBytes chunks) [] (new_server_session pf') = (s, None) \<and>
       se_callbacks s = [0] \<and>
       res_bind (rd (pipe_data (pipe_of s 0))) (\<lambda>(d, r). Inr (handle_session False True (Inr d) False, r)) =
         Inr (HandleUot, request) \<and>
       handle_uot_stream rd request = Inr (UotDatagram, rest) \<and> fst (uot_packets rd Datagram rest) = packets)"
proof -
  let ?q = "uot_request_bytes wr \<lparr>uq_mode = Datagram, uq_destination = unspecified\<rparr>"
  let ?frames = "map (encoded wr Datagram) packets"
  have c: "started = Inr ((0, 0), zero_addr bound)" "session_at c 0 = first_stream ord pf [wr uot_sentinel_destination, ?q]"
    using udp_start_fresh [of wr unspecified ord now local bound adv shut pf t m k] assms(8) by auto
  have "ua_frames (udp_associate_loop wr rd ask es new) = ?frames"
    unfolding udp_frames_run assms(10) by (simp add: assms(9) udp_associate_new_def)
  then have "map item_frame items = client_hello ord pf PROGRAM_VERSION_NAME # frame_new Syn 1 #
      map (frame_with_data Psh 1) (wr uot_sentinel_destination # ?q # ?frames)"
    using assms(12) unfolding c(2) first_stream_append [symmetric] first_stream_frames by simp
  from first_stream_delivered [OF assms(4-7) this assms(13-16), of pf'] obtain s where s:
    "recv_loop ord md5 (map ReadBytes chunks) [] (new_server_session pf') = (s, None)" "se_callbacks s = [0]"
    "pipe_data (pipe_of s 0) = wr uot_sentinel_destination @ ?q @ concat ?frames" by auto
  have "rd (pipe_data (pipe_of s 0)) = Inr (uot_sentinel_destination, ?q @ concat ?frames)"
    using assms(1,2) unfolding s(3) address_codec_def by blast
  moreover have "uot_is_sentinel_destination uot_sentinel_destination" by (simp add: uot_sentinel_destination_def)
  moreover have "fst (uot_packets rd Datagram (concat ?frames)) = packets"
    using uot_packets_encoded [OF assms(1,11), of "[]"] uot_packets_end [OF assms(1,2)] by simp
  ultimately show ?thesis
    using c(1) s(1,2) datagram_request_read [OF assms(1,3)] by (auto simp: handle_session_def)
qed

theorem datagrams_end_to_end_witness:
  "\<exists>chunks s request rest.
     recv_loop id sample_md5 (map ReadBytes chunks) [] (new_server_session sample_server) = (s, None) \<and>
     handle_uot_stream domain_read request = Inr (UotDatagram, rest) \<and>
     fst (uot_packets domain_read Datagram rest) = [(Some (DomainAddress ''a.b'' 53), [1, 2])]"
proof -
  let ?unspecified = "DomainAddress [] 0"
  let ?app = "SocketAddrV4 1 9"
  let ?es = "[UdpLocal (Inr ([1, 2], 0, DomainAddress ''a.b'' 53, ?app)) (Inr 2)]"
  let ?new = "udp_associate_new pipe (zero_addr ?app)"
  let ?packets = "[(Some (DomainAddress ''a.b'' 53), [1, 2 :: byte])]"
  let ?hello = "[domain_write uot_sentinel_destination,
    uot_request_bytes domain_write \<lparr>uq_mode = Datagram, uq_destination = ?unspecified\<rparr>]"
  let ?bss = "?hello @ map (encoded domain_write Datagram) ?packets"
  have ok: "domain_ok uot_sentinel_destination" "domain_ok ?unspecified"
    by (simp_all add: domain_ok_def uot_sentinel_destination_def V2_MAGIC_ADDRESS_def)
  have packets: "?packets = concat (map accepted_by (handled domain_write domain_read ask ?es ?new))" for ask
    by (simp add: udp_associate_new_def)
  have fine: "list_all (packet_ok domain_ok Datagram) ?packets" by (simp add: packet_ok_def domain_ok_def)
  have small: "list_all (\<lambda>bs. length bs < 65536) ?bss"
    by (simp add: uot_request_bytes_def uot_sentinel_destination_def V2_MAGIC_ADDRESS_def encoded_def uot_encode_packet_def)
  obtain c reply started where c: "udp_associate_start domain_write ?unspecified id 0 (Inr ?app) (Inr ?app) None (Inr ()) (Inr ())
      (client_new sample_client 30 5 1) = (c, reply, started)"
    "session_at c 0 = first_stream id sample_client ?hello"
    using udp_start_fresh [of domain_write ?unspecified id 0 ?app ?app None "Inr ()" sample_client 30 5 1] by auto
  have frames: "ua_frames (udp_associate_loop domain_write domain_read ask ?es ?new) = map (encoded domain_write Datagram) ?packets" for ask
    unfolding udp_frames_run by (simp add: udp_associate_new_def)
  have items: "map item_frame (sample_items_of ?bss) =
      map fst (se_frames (stream_writes 0 (ua_frames (udp_associate_loop domain_write domain_read (\<lambda>_. 1) ?es ?new)) (session_at c 0)))"
    unfolding sample_items_frames c(2) frames first_stream_append [symmetric] by simp
  obtain ws sk acks chunks where run: "writer_task sample_rng (sample_items_of ?bss) (writer_state_new True)
      \<lparr>sk_written = [], sk_script = []\<rparr> = (ws, sk, acks, True)"
    "concat chunks = delivered sk" "list_all (\<lambda>c. c \<noteq> []) chunks" by (rule sample_run)
  from datagrams_end_to_end [OF domain_codec ok iteration_order_id sample_hash_text sample_factories_ok(1) sample_rng_ok
      c(1) [symmetric] refl packets fine items sample_transfer_ok [OF small] run, of sample_server]
  show ?thesis by blast
qed

end
